(* ===== verification/Prelude.thy ===== *)
theory Prelude
  imports Main "HOL-Library.Word" "HOL-Library.Char_ord" "HOL-Library.List_Lexorder"
begin

text \<open>
  What every component shares: bytes and their hex form (b4a.toString (b, 'hex') in the
  code, the form in which keys are used as map keys), the order-keeping removal of
  duplicates (\<open>[...new Set(list)]\<close>), the error a failing call leaves, and the collections
  of rewrite rules the component proofs use.

  JavaScript strings are modelled by \<open>string\<close>, one \<open>char\<close> per byte; keys, identities and
  log keys are byte lists where the code has buffers and hex strings where it has hex.
\<close>

named_theorems getters \<comment> \<open>the typed reads of the view\<close>
named_theorems footprint \<comment> \<open>what an operation on the view leaves alone\<close>

type_synonym byte = "8 word"
type_synonym bytes = "byte list"

text \<open>A JavaScript exception that leaves the function; the code throws no other inside apply.\<close>

datatype js_error = TypeError

section \<open>Bytes as text\<close>

definition hexdigit :: "nat \<Rightarrow> char" where
  "hexdigit n = ''0123456789abcdef'' ! n"

definition hexbyte :: "byte \<Rightarrow> string" where
  "hexbyte b = [hexdigit (unat b div 16), hexdigit (unat b mod 16)]"

definition hex :: "bytes \<Rightarrow> string" where
  "hex bs = concat (map hexbyte bs)"

definition unhexdigit :: "char \<Rightarrow> nat" where
  "unhexdigit c = (let n = of_char c in if n < 58 then n - 48 else n - 87)"

fun unhex :: "string \<Rightarrow> bytes" where
  "unhex (a # b # cs) = of_nat (16 * unhexdigit a + unhexdigit b) # unhex cs"
| "unhex _ = []"

definition ascii :: "string \<Rightarrow> bytes" where
  "ascii s = map (\<lambda>c. of_nat (of_char c)) s"

lemma unat_byte: "unat (b :: byte) < 256"
  using unsigned_less [of b, where ?'a = nat] by simp

lemma unhexdigit_hexdigit_all: "list_all (\<lambda>n. unhexdigit (hexdigit n) = n) [0..<16]"
  by code_simp

lemma unhexdigit_hexdigit: "n < 16 \<Longrightarrow> unhexdigit (hexdigit n) = n"
  using unhexdigit_hexdigit_all by (simp add: list_all_iff)

lemma unhex_hex [simp]: "unhex (hex bs) = bs"
proof (induction bs)
  case Nil
  then show ?case by (simp add: hex_def)
next
  case (Cons b bs)
  have "unat b < 256" by (rule unat_byte)
  then have "unat b div 16 < 16" and "unat b mod 16 < 16" by auto
  then have "unhex (hex (b # bs)) = of_nat (16 * (unat b div 16) + unat b mod 16) # unhex (hex bs)"
    by (simp add: hex_def hexbyte_def unhexdigit_hexdigit)
  also have "16 * (unat b div 16) + unat b mod 16 = unat b" by simp
  finally show ?case using Cons by simp
qed

lemma hex_inject [simp]: "hex a = hex b \<longleftrightarrow> a = b"
  by (metis unhex_hex)

lemma length_hex [simp]: "length (hex bs) = 2 * length bs"
  by (induction bs) (simp_all add: hex_def hexbyte_def)

definition is_hexdigit :: "char \<Rightarrow> bool" where
  "is_hexdigit c \<longleftrightarrow> c \<in> set ''0123456789abcdef''"

lemma is_hexdigit_hexdigit: "n < 16 \<Longrightarrow> is_hexdigit (hexdigit n)"
  unfolding is_hexdigit_def hexdigit_def by (rule nth_mem) simp

lemma hex_digits: "c \<in> set (hex bs) \<Longrightarrow> is_hexdigit c"
proof (induction bs)
  case (Cons b bs)
  have "unat b < 256" by (rule unat_byte)
  then have "is_hexdigit (hexdigit (unat b div 16))" "is_hexdigit (hexdigit (unat b mod 16))"
    by (auto intro!: is_hexdigit_hexdigit)
  with Cons show ?case by (auto simp: hex_def hexbyte_def)
qed (simp add: hex_def)

section \<open>Lists and maps\<close>

text \<open>\<open>[...new Set(list)]\<close>: each element once, at its first place.\<close>

primrec uniq :: "'a list \<Rightarrow> 'a list" where
  "uniq [] = []"
| "uniq (x # xs) = x # removeAll x (uniq xs)"

lemma set_uniq [simp]: "set (uniq xs) = set xs"
  by (induction xs) auto

lemma distinct_uniq [simp]: "distinct (uniq xs)"
  by (induction xs) (auto simp: distinct_removeAll)

lemma uniq_distinct: "distinct xs \<Longrightarrow> uniq xs = xs"
  by (induction xs) auto

lemma find_SomeD: "find P xs = Some x \<Longrightarrow> x \<in> set xs \<and> P x"
  by (induction xs) (auto split: if_splits)

lemma pair_option_None [simp]: "(\<forall>a b. x \<noteq> Some (a, b)) \<longleftrightarrow> x = None"
  by (cases x) auto

lemma filter_neq_Nil: "filter P xs = [] \<longleftrightarrow> (\<forall>x \<in> set xs. \<not> P x)"
  by (induction xs) auto

text \<open>An optional value that is kept unless a new one is given (\<open>...(x ? { x } : {})\<close>).\<close>

definition or_else :: "'a option \<Rightarrow> 'a option \<Rightarrow> 'a option" where
  "or_else a b = (case a of None \<Rightarrow> b | Some x \<Rightarrow> Some x)"

lemma or_else_simps [simp]: "or_else None b = b" "or_else (Some x) b = Some x"
  by (simp_all add: or_else_def)

text \<open>A whole number as text.\<close>

fun decimal :: "nat \<Rightarrow> string" where
  "decimal n = (if n < 10 then [char_of (48 + n)] else decimal (n div 10) @ [char_of (48 + n mod 10)])"

declare decimal.simps [simp del]

end
