(* ===== verification/Roles.thy ===== *)
theory Roles
  imports Prelude
begin

text \<open>
  Roles and permissions (lib/decisions/state.js, the functions before class State): the
  built-in roles, their ranks, the custom roles a space defines, and who may give which role
  to whom (\<open>mayAssign\<close>), invite to which role (\<open>mayInvite\<close>) and take whom out (\<open>mayRemove\<close>).
  \<open>None\<close> is the code's \<open>null\<close> role (not a member). \<open>custom\<close> maps the custom roles read so far
  to their permissions. The tables are objects, and a role named like a property every object
  inherits (\<open>INHERITED\<close>) is found in them: not as a list of permissions, so that asking what it may
  do throws. Such a role cannot be defined; what it does to the two decisions that may name it
  nevertheless, \<open>role/set\<close> and \<open>invite/redeem\<close>, is with them (theories Apply and Apply_Nodes), so
  that no view ever holds one and the functions here need not answer for it.
\<close>

type_synonym roles = "string \<rightharpoonup> string list"

definition ROLES :: roles where
  "ROLES = [
     ''owner'' \<mapsto> [''decide'', ''moderate'', ''invite'', ''roles'', ''post''],
     ''admin'' \<mapsto> [''decide'', ''moderate'', ''invite'', ''roles'', ''post''],
     ''moderator'' \<mapsto> [''moderate'', ''post''],
     ''member'' \<mapsto> [''post''],
     ''guest'' \<mapsto> [''post'']]"

definition RANK :: "string \<rightharpoonup> nat" where
  "RANK = [''owner'' \<mapsto> 5, ''admin'' \<mapsto> 4, ''moderator'' \<mapsto> 3, ''member'' \<mapsto> 2, ''guest'' \<mapsto> 1]"

text \<open>The properties of \<open>Object.prototype\<close>.\<close>

definition INHERITED :: "string list" where
  "INHERITED = [''constructor'', ''__defineGetter__'', ''__defineSetter__'', ''hasOwnProperty'', ''__lookupGetter__'',
     ''__lookupSetter__'', ''isPrototypeOf'', ''propertyIsEnumerable'', ''toString'', ''valueOf'', ''__proto__'', ''toLocaleString'']"

definition CUSTOM_RANK :: nat where
  "CUSTOM_RANK = 2"

definition ACTIONS :: "string list" where
  "ACTIONS = [''flag'', ''hide'', ''reveal'', ''remove'', ''ban'', ''unban'']"

definition permissionsOf :: "string option \<Rightarrow> roles \<Rightarrow> string list option" where
  "permissionsOf role custom =
     (case role of None \<Rightarrow> None
      | Some r \<Rightarrow> if r = [] then None
                  else (case ROLES r of Some ps \<Rightarrow> Some ps | None \<Rightarrow> custom r))"

definition rankOf :: "string option \<Rightarrow> nat" where
  "rankOf role =
     (case role of None \<Rightarrow> CUSTOM_RANK
      | Some r \<Rightarrow> (case RANK r of Some n \<Rightarrow> n | None \<Rightarrow> CUSTOM_RANK))"

definition can :: "string option \<Rightarrow> string \<Rightarrow> roles \<Rightarrow> bool" where
  "can role permission custom \<longleftrightarrow>
     role = Some ''owner'' \<or>
     (case permissionsOf role custom of None \<Rightarrow> False | Some ps \<Rightarrow> permission \<in> set ps)"

definition OWN :: "string list" where
  "OWN = [''decide'', ''moderate'', ''invite'', ''roles'']"

definition POWER :: "string list" where
  "POWER = [''decide'', ''moderate'', ''roles'']"

definition grantable :: "string option \<Rightarrow> string list \<Rightarrow> roles \<Rightarrow> bool" where
  "grantable author perms custom \<longleftrightarrow>
     author = Some ''owner'' \<or>
     (let mine = (case permissionsOf author custom of None \<Rightarrow> [] | Some ps \<Rightarrow> ps)
      in list_all (\<lambda>p. p \<notin> set OWN \<or> p \<in> set mine) perms)"

definition mayAssign :: "string option \<Rightarrow> string option \<Rightarrow> string \<Rightarrow> roles \<Rightarrow> bool" where
  "mayAssign author current role custom =
     (if \<not> can author ''roles'' custom \<or> role = ''owner'' \<or> current = Some ''owner'' then False
      else case permissionsOf (Some role) custom of None \<Rightarrow> False
      | Some perms \<Rightarrow>
          if author = Some ''owner'' then True
          else if current \<noteq> None \<and> current \<noteq> Some [] \<and> rankOf current \<ge> rankOf author then False
          else if rankOf (Some role) \<ge> rankOf author then False
          else grantable author perms custom)"

definition mayInvite :: "string option \<Rightarrow> string \<Rightarrow> roles \<Rightarrow> bool" where
  "mayInvite maker role custom =
     (if \<not> can maker ''invite'' custom \<or> role = ''owner'' then False
      else case permissionsOf (Some role) custom of None \<Rightarrow> False
      | Some perms \<Rightarrow>
          if maker = Some ''owner'' then True
          else let peer = Some role = maker \<and> \<not> list_ex (\<lambda>p. p \<in> set POWER) perms
               in if rankOf (Some role) \<ge> rankOf maker \<and> role \<noteq> ''member'' \<and> role \<noteq> ''guest'' \<and> \<not> peer
                  then False
                  else grantable maker perms custom)"

definition mayRemove :: "string option \<Rightarrow> string option \<Rightarrow> string \<Rightarrow> roles \<Rightarrow> bool" where
  "mayRemove author target permission custom =
     (if \<not> can author permission custom \<or> target = Some ''owner'' then False
      else target = None \<or> target = Some [] \<or> author = Some ''owner'' \<or> rankOf target < rankOf author)"

definition mayWrite :: "string option \<Rightarrow> roles \<Rightarrow> bool" where
  "mayWrite role custom \<longleftrightarrow> can role ''decide'' custom \<or> can role ''moderate'' custom"

definition lostPermissions :: "string option \<Rightarrow> string option \<Rightarrow> roles \<Rightarrow> string list" where
  "lostPermissions before after custom =
     (let now = (case permissionsOf after custom of None \<Rightarrow> [] | Some ps \<Rightarrow> ps)
      in filter (\<lambda>p. p \<noteq> ''post'' \<and> p \<notin> set now)
           (case permissionsOf before custom of None \<Rightarrow> [] | Some ps \<Rightarrow> ps))"

section \<open>What the checks promise\<close>

lemma can_None [simp]: "\<not> can None p custom"
  by (simp add: can_def permissionsOf_def)

lemma can_Nil [simp]: "\<not> can (Some []) p custom"
  by (simp add: can_def permissionsOf_def)

lemma can_owner [simp]: "can (Some ''owner'') p custom"
  by (simp add: can_def)

lemma mayWrite_None [simp]: "\<not> mayWrite None custom"
  by (simp add: mayWrite_def)

lemma mayWrite_owner [simp]: "mayWrite (Some ''owner'') custom"
  by (simp add: mayWrite_def)

lemma rank_le_5: "rankOf r \<le> 5"
  by (auto simp: rankOf_def RANK_def CUSTOM_RANK_def split: option.splits if_splits)

lemma rank_owner [simp]: "rankOf (Some ''owner'') = 5"
  by (simp add: rankOf_def RANK_def)

lemma rank_5_iff: "rankOf r = 5 \<longleftrightarrow> r = Some ''owner''"
  by (auto simp: rankOf_def RANK_def CUSTOM_RANK_def split: option.splits if_splits)

lemma rank_less_5: "r \<noteq> Some ''owner'' \<Longrightarrow> rankOf r < 5"
  using rank_le_5 [of r] rank_5_iff [of r] by simp

lemma inherited_not_owner: "r \<in> set INHERITED \<Longrightarrow> r \<noteq> ''owner''"
  by (auto simp: INHERITED_def)

lemma mayAssign_not_owner: "mayAssign a c r custom \<Longrightarrow> r \<noteq> ''owner'' \<and> c \<noteq> Some ''owner''"
  by (auto simp: mayAssign_def split: if_splits)

lemma mayInvite_not_owner: "mayInvite m r custom \<Longrightarrow> r \<noteq> ''owner''"
  by (auto simp: mayInvite_def split: if_splits)

lemma mayRemove_not_owner: "mayRemove a t p custom \<Longrightarrow> t \<noteq> Some ''owner''"
  by (auto simp: mayRemove_def split: if_splits)

text \<open>Hypergraph's own permissions reach only who is given a role by someone holding them.\<close>

lemma grantable_own:
  assumes "grantable a perms custom" "p \<in> set OWN" "p \<in> set perms"
  shows "can a p custom"
  using assms
  by (auto simp: grantable_def can_def Let_def list_all_iff split: option.splits)

lemma mayAssign_own:
  assumes "mayAssign a c r custom" "can (Some r) p custom" "p \<in> set OWN"
  shows "can a p custom"
proof (cases "a = Some ''owner''")
  case False
  from assms(1) obtain perms where perms: "permissionsOf (Some r) custom = Some perms"
    and g: "grantable a perms custom" and r: "r \<noteq> ''owner''"
    using False by (auto simp: mayAssign_def split: if_splits option.splits)
  from assms(2) r perms have "p \<in> set perms" by (simp add: can_def)
  with g assms(3) show ?thesis by (rule grantable_own)
qed simp

lemma mayInvite_own:
  assumes "mayInvite m r custom" "can (Some r) p custom" "p \<in> set OWN"
  shows "can m p custom"
proof (cases "m = Some ''owner''")
  case False
  from assms(1) obtain perms where perms: "permissionsOf (Some r) custom = Some perms"
    and g: "grantable m perms custom" and r: "r \<noteq> ''owner''"
    using False by (auto simp: mayInvite_def Let_def split: if_splits option.splits)
  from assms(2) r perms have "p \<in> set perms" by (simp add: can_def)
  with g assms(3) show ?thesis by (rule grantable_own)
qed simp

lemma mayAssign_rank:
  "mayAssign a c r custom \<Longrightarrow> a \<noteq> Some ''owner'' \<Longrightarrow> rankOf (Some r) < rankOf a"
  by (auto simp: mayAssign_def split: if_splits option.splits)

lemma mayInvite_rank:
  assumes "mayInvite m r custom" "m \<noteq> Some ''owner''"
  shows "rankOf (Some r) < rankOf m \<or> r = ''member'' \<or> r = ''guest'' \<or> m = Some r \<and> (\<forall>p \<in> set POWER. \<not> can m p custom)"
  using assms by (auto simp: mayInvite_def can_def Let_def list_ex_iff split: if_splits option.splits)

end
