(* ===== verification/View.thy ===== *)
theory View
  imports Roles
begin

text \<open>
  The view of a space's decision log: the key/value store (a Hyperbee) that applying the
  decisions writes and that a space's state is read from. Its keys are strings in the code
  (lib/decisions/apply.js, the comment at its head); here they are the datatype \<open>vkey\<close>, and
  \<open>key_string\<close> is the string each stands for. A key under \<open>sub:<space>:\<close> carries its sub-space
  as a \<open>scope\<close>, \<open>None\<close> for the top space. Values are the JSON objects the code stores, one
  record per kind; a field a JSON object may lack is an \<open>option\<close>.
\<close>

type_synonym scope = "string option"

datatype (discs_sels) vkey =
    KMeta scope
  | KMember scope string
  | KBanned scope string
  | KCut scope string
  | KAdmit scope string
  | KEditcut scope string
  | KMod scope string
  | KRedeemed scope string string
  | KUses scope string
  | KRevoked scope string
  | KEpochs scope
  | KWriter string
  | KWriters string
  | KGone string string
  | KRole string
  | KSubspace string
  | KSubspaces
  | KListed string
  | KTypes
  | KTypesAt nat
  | KLog nat
  | KCount

record meta =
  mt_name :: "string option"
  mt_owner :: "string option"
  mt_policy :: "string option"
  mt_private :: bool
  mt_version :: "nat option"
  mt_parent :: "string option"
  mt_stamp :: "nat option"
  mt_rules :: "string list option"
  mt_writeLimit :: "(nat \<times> nat) option"
  mt_history :: "string option"
  mt_helpers :: "string list option"
  mt_public :: bool

definition no_meta :: meta where
  "no_meta = \<lparr>mt_name = None, mt_owner = None, mt_policy = None, mt_private = False,
     mt_version = None, mt_parent = None, mt_stamp = None, mt_rules = None,
     mt_writeLimit = None, mt_history = None, mt_helpers = None, mt_public = False\<rparr>"

record member =
  mb_role :: string
  mb_by :: string
  mb_stamp :: nat
  mb_writer :: "string option"
  mb_writerDevice :: "string option"

record ban =
  bn_by :: string
  bn_reason :: string
  bn_stamp :: nat
  bn_drop :: bool

type_synonym loglens = "string \<rightharpoonup> nat"

record cut =
  ct_logs :: loglens
  ct_stamp :: nat

type_synonym editcuts = "string \<rightharpoonup> loglens"

record moderation =
  md_flagged :: bool
  md_hidden :: bool
  md_removed :: bool

definition not_moderated :: moderation where
  "not_moderated = \<lparr>md_flagged = False, md_hidden = False, md_removed = False\<rparr>"

record epochs =
  ep_current :: int
  ep_commits :: "nat \<rightharpoonup> string"
  ep_others :: "string \<rightharpoonup> nat"

definition no_epochs :: epochs where
  "no_epochs = \<lparr>ep_current = -1, ep_commits = Map.empty, ep_others = Map.empty\<rparr>"

record writer_info =
  w_identity :: string
  w_device :: "string option"
  w_indexer :: bool

record subspace =
  ss_name :: string
  ss_private :: bool
  ss_writeRoles :: "string list"
  ss_parent :: scope
  ss_by :: string
  ss_stamp :: nat

record role_entry =
  re_permissions :: "string list"
  re_by :: string
  re_stamp :: nat

text \<open>What the decision list keeps of a decision (\<open>details\<close> of lib/decisions/apply.js).\<close>

datatype details =
    DInit string string
  | DIdentity string
  | DRoleDefine string "string list"
  | DRoleSet string string
  | DModerate string string string "string option"
  | DRedeem string string string string
  | DRevoke string string string
  | DSettings "string option" "string list option" "string option" "string list option" "bool option"
  | DTypes nat
  | DKey string
  | DRemoved string
  | DSubspace string string bool
  | DEpoch nat
  | DNone

record log_entry =
  le_type :: string
  le_at :: nat
  le_writer :: string
  le_by :: "string option"
  le_device :: "string option"
  le_counted :: bool
  le_details :: details
  le_space :: scope

datatype (discs_sels) vval =
    VMeta meta
  | VMember member
  | VBanned ban
  | VCut cut
  | VAdmit string
  | VEditcut editcuts
  | VMod moderation
  | VRedeemed nat string
  | VUses nat
  | VRevoked string nat
  | VEpochs epochs
  | VWriter writer_info
  | VWriters "string list"
  | VGone string nat
  | VRole role_entry
  | VSubspace subspace
  | VSubspaces "string list"
  | VListed string
  | VTypes nat
  | VTypesAt string
  | VLog log_entry
  | VCount nat

type_synonym view = "vkey \<rightharpoonup> vval"

section \<open>Typed reads\<close>

text \<open>
  \<open>view.get (key)\<close> at each kind of key. A key only ever holds a value of its own kind
  (\<open>well_typed\<close>, kept by every operation), so the other case never arises.
\<close>

definition get_meta :: "view \<Rightarrow> scope \<Rightarrow> meta option" where
  "get_meta v s = (case v (KMeta s) of Some (VMeta x) \<Rightarrow> Some x | _ \<Rightarrow> None)"
definition get_member :: "view \<Rightarrow> scope \<Rightarrow> string \<Rightarrow> member option" where
  "get_member v s i = (case v (KMember s i) of Some (VMember x) \<Rightarrow> Some x | _ \<Rightarrow> None)"
definition get_banned :: "view \<Rightarrow> scope \<Rightarrow> string \<Rightarrow> ban option" where
  "get_banned v s i = (case v (KBanned s i) of Some (VBanned x) \<Rightarrow> Some x | _ \<Rightarrow> None)"
definition get_cut :: "view \<Rightarrow> scope \<Rightarrow> string \<Rightarrow> cut option" where
  "get_cut v s i = (case v (KCut s i) of Some (VCut x) \<Rightarrow> Some x | _ \<Rightarrow> None)"
definition get_admit :: "view \<Rightarrow> scope \<Rightarrow> string \<Rightarrow> string option" where
  "get_admit v s i = (case v (KAdmit s i) of Some (VAdmit x) \<Rightarrow> Some x | _ \<Rightarrow> None)"
definition get_editcut :: "view \<Rightarrow> scope \<Rightarrow> string \<Rightarrow> editcuts option" where
  "get_editcut v s i = (case v (KEditcut s i) of Some (VEditcut x) \<Rightarrow> Some x | _ \<Rightarrow> None)"
definition get_mod :: "view \<Rightarrow> scope \<Rightarrow> string \<Rightarrow> moderation option" where
  "get_mod v s r = (case v (KMod s r) of Some (VMod x) \<Rightarrow> Some x | _ \<Rightarrow> None)"
definition get_redeemed :: "view \<Rightarrow> scope \<Rightarrow> string \<Rightarrow> string \<Rightarrow> (nat \<times> string) option" where
  "get_redeemed v s n i = (case v (KRedeemed s n i) of Some (VRedeemed x y) \<Rightarrow> Some (x, y) | _ \<Rightarrow> None)"
definition get_uses :: "view \<Rightarrow> scope \<Rightarrow> string \<Rightarrow> nat option" where
  "get_uses v s n = (case v (KUses s n) of Some (VUses x) \<Rightarrow> Some x | _ \<Rightarrow> None)"
definition get_revoked :: "view \<Rightarrow> scope \<Rightarrow> string \<Rightarrow> (string \<times> nat) option" where
  "get_revoked v s n = (case v (KRevoked s n) of Some (VRevoked x y) \<Rightarrow> Some (x, y) | _ \<Rightarrow> None)"
definition get_epochs :: "view \<Rightarrow> scope \<Rightarrow> epochs option" where
  "get_epochs v s = (case v (KEpochs s) of Some (VEpochs x) \<Rightarrow> Some x | _ \<Rightarrow> None)"
definition get_writer :: "view \<Rightarrow> string \<Rightarrow> writer_info option" where
  "get_writer v k = (case v (KWriter k) of Some (VWriter x) \<Rightarrow> Some x | _ \<Rightarrow> None)"
definition get_writers :: "view \<Rightarrow> string \<Rightarrow> string list option" where
  "get_writers v i = (case v (KWriters i) of Some (VWriters x) \<Rightarrow> Some x | _ \<Rightarrow> None)"
definition get_gone :: "view \<Rightarrow> string \<Rightarrow> string \<Rightarrow> (string \<times> nat) option" where
  "get_gone v i d = (case v (KGone i d) of Some (VGone x y) \<Rightarrow> Some (x, y) | _ \<Rightarrow> None)"
definition get_role :: "view \<Rightarrow> string \<Rightarrow> role_entry option" where
  "get_role v r = (case v (KRole r) of Some (VRole x) \<Rightarrow> Some x | _ \<Rightarrow> None)"
definition get_subspace :: "view \<Rightarrow> string \<Rightarrow> subspace option" where
  "get_subspace v s = (case v (KSubspace s) of Some (VSubspace x) \<Rightarrow> Some x | _ \<Rightarrow> None)"
definition get_subspaces :: "view \<Rightarrow> string list option" where
  "get_subspaces v = (case v KSubspaces of Some (VSubspaces x) \<Rightarrow> Some x | _ \<Rightarrow> None)"
definition get_listed :: "view \<Rightarrow> string \<Rightarrow> string option" where
  "get_listed v l = (case v (KListed l) of Some (VListed x) \<Rightarrow> Some x | _ \<Rightarrow> None)"
definition get_types :: "view \<Rightarrow> nat option" where
  "get_types v = (case v KTypes of Some (VTypes x) \<Rightarrow> Some x | _ \<Rightarrow> None)"
definition get_types_at :: "view \<Rightarrow> nat \<Rightarrow> string option" where
  "get_types_at v n = (case v (KTypesAt n) of Some (VTypesAt x) \<Rightarrow> Some x | _ \<Rightarrow> None)"
definition get_log :: "view \<Rightarrow> nat \<Rightarrow> log_entry option" where
  "get_log v n = (case v (KLog n) of Some (VLog x) \<Rightarrow> Some x | _ \<Rightarrow> None)"
definition get_count :: "view \<Rightarrow> nat option" where
  "get_count v = (case v KCount of Some (VCount x) \<Rightarrow> Some x | _ \<Rightarrow> None)"

lemmas getter_defs [getters] =
  get_meta_def get_member_def get_banned_def get_cut_def get_admit_def get_editcut_def get_mod_def
  get_redeemed_def get_uses_def get_revoked_def get_epochs_def get_writer_def get_writers_def
  get_gone_def get_role_def get_subspace_def get_subspaces_def get_listed_def get_types_def
  get_types_at_def get_log_def get_count_def

primrec typed :: "vkey \<Rightarrow> vval \<Rightarrow> bool" where
  "typed (KMeta a) x = is_VMeta x"
| "typed (KMember a b) x = is_VMember x"
| "typed (KBanned a b) x = is_VBanned x"
| "typed (KCut a b) x = is_VCut x"
| "typed (KAdmit a b) x = is_VAdmit x"
| "typed (KEditcut a b) x = is_VEditcut x"
| "typed (KMod a b) x = is_VMod x"
| "typed (KRedeemed a b c) x = is_VRedeemed x"
| "typed (KUses a b) x = is_VUses x"
| "typed (KRevoked a b) x = is_VRevoked x"
| "typed (KEpochs a) x = is_VEpochs x"
| "typed (KWriter a) x = is_VWriter x"
| "typed (KWriters a) x = is_VWriters x"
| "typed (KGone a b) x = is_VGone x"
| "typed (KRole a) x = is_VRole x"
| "typed (KSubspace a) x = is_VSubspace x"
| "typed (KSubspaces) x = is_VSubspaces x"
| "typed (KListed a) x = is_VListed x"
| "typed (KTypes) x = is_VTypes x"
| "typed (KTypesAt a) x = is_VTypesAt x"
| "typed (KLog a) x = is_VLog x"
| "typed (KCount) x = is_VCount x"

definition well_typed :: "view \<Rightarrow> bool" where
  "well_typed v \<longleftrightarrow> (\<forall>k x. v k = Some x \<longrightarrow> typed k x)"

lemma well_typed_put: "well_typed v \<Longrightarrow> typed k x \<Longrightarrow> well_typed (v(k \<mapsto> x))"
  by (simp add: well_typed_def)

lemma well_typed_del: "well_typed v \<Longrightarrow> well_typed (v(k := None))"
  by (simp add: well_typed_def)

section \<open>The strings the keys stand for\<close>

definition P :: "scope \<Rightarrow> string" where
  "P s = (case s of None \<Rightarrow> [] | Some h \<Rightarrow> ''sub:'' @ h @ '':'')"

text \<open>\<open>String (seq).padStart (12, '0')\<close> of a text.\<close>

definition padStart12 :: "string \<Rightarrow> string" where
  "padStart12 s = replicate (12 - length s) (CHR ''0'') @ s"

fun key_string :: "vkey \<Rightarrow> string" where
  "key_string (KMeta s) = P s @ ''meta''"
| "key_string (KMember s i) = P s @ ''member:'' @ i"
| "key_string (KBanned s i) = P s @ ''banned:'' @ i"
| "key_string (KCut s i) = P s @ ''cut:'' @ i"
| "key_string (KAdmit s i) = P s @ ''admit:'' @ i"
| "key_string (KEditcut s i) = P s @ ''editcut:'' @ i"
| "key_string (KMod s r) = P s @ ''mod:'' @ r"
| "key_string (KRedeemed s n i) = P s @ ''redeemed:'' @ n @ '':'' @ i"
| "key_string (KUses s n) = P s @ ''uses:'' @ n"
| "key_string (KRevoked s n) = P s @ ''revoked:'' @ n"
| "key_string (KEpochs s) = P s @ ''epochs''"
| "key_string (KWriter k) = ''writer:'' @ k"
| "key_string (KWriters i) = ''writers:'' @ i"
| "key_string (KGone i d) = ''gone:'' @ i @ '':'' @ d"
| "key_string (KRole r) = ''role:'' @ r"
| "key_string (KSubspace s) = ''subspace:'' @ s"
| "key_string KSubspaces = ''subspaces''"
| "key_string (KListed l) = ''listed:'' @ l"
| "key_string KTypes = ''types''"
| "key_string (KTypesAt n) = ''types:'' @ decimal n"
| "key_string (KLog n) = ''~log:'' @ padStart12 (decimal n)"
| "key_string KCount = ''~count''"

end
