(* ===== verification/Decisions.thy ===== *)
theory Decisions
  imports View
begin

text \<open>
  The decisions of a space as they are decoded (lib/encodings.js, DECISIONS), invites and
  redemptions (lib/invites.js), and the environment that applying them is given: the space's
  key, the host (Autobase) and the code that is not in this repository. A buffer field decodes
  to \<open>null\<close> when it is empty (compact-encoding, as lib/ranges.js notes), so it is an \<open>option\<close>
  here; a fixed32 field is always there.
\<close>

type_synonym cut_entries = "(bytes \<times> nat) list"

datatype decision_body =
    SpaceInit string "bytes option" bool string nat "bytes option" \<comment> \<open>name, parent, private, policy, version, proof\<close>
  | MemberAdd bytes
  | MemberRemove bytes cut_entries
  | RoleDefine string "string list"
  | RoleSet bytes string cut_entries
  | Moderate string "bytes option" string cut_entries "string option" \<comment> \<open>action, target, reason, cut, drop\<close>
  | InviteCreate "bytes option"
  | InviteRevoke "bytes option"
  | InviteRedeem "bytes option"
  | KeyRotate nat bytes
  | SubspaceCreate bytes string bool "string list"
  | SettingsSet "string option" "(nat \<times> nat) option" "string list option" "string option" "string list option" "bool option"
  | WriterAdd bytes "bytes option"
  | DeviceRemove bytes "bytes option" "bytes option" \<comment> \<open>device, cut, proof\<close>
  | Scoped bytes "bytes option"
  | LogsList "(bytes \<times> bytes) list"
  | TypesSet nat string

record decision =
  d_stamp :: nat
  d_body :: decision_body

record invite =
  iv_space :: bytes
  iv_id :: "bytes option"
  iv_role :: string
  iv_uses :: nat
  iv_expires :: nat
  iv_subspaces :: "bytes list"
  iv_maker :: bytes
  iv_proof :: "bytes option"

record redemption =
  rd_invite :: invite
  rd_identity :: bytes
  rd_writer :: bytes
  rd_proof :: "bytes option"

text \<open>What applying a decision asks of its host, in order.\<close>

datatype host_call = AddWriter bytes bool | RemoveWriter bytes

text \<open>
  The environment. \<open>e_proof_chain\<close>: the length of the chain of a proof that decodes and has
  one (keet-identity-key); \<open>e_key_verify\<close>: \<open>IdentityKey.verify\<close>, \<open>None\<close> for \<open>null\<close> or an
  exception; the decoders give \<open>None\<close> where decoding throws; \<open>e_removeable\<close>: what Autobase
  answers after the calls made so far; \<open>e_types_next current next\<close>: the stored form of the
  declaration \<open>next\<close> if it parses and only adds to \<open>current\<close> (lib/types.js).
\<close>

record env =
  e_space :: bytes
  e_proof_chain :: "bytes \<Rightarrow> nat option"
  e_key_verify :: "bytes \<Rightarrow> bytes \<Rightarrow> (bytes \<times> bytes) option"
  e_hash :: "bytes \<Rightarrow> bytes"
  e_encode_inviteBody :: "invite \<Rightarrow> bytes"
  e_decode_decision :: "bytes \<Rightarrow> decision option"
  e_decode_invite :: "bytes \<Rightarrow> invite option"
  e_decode_redemption :: "bytes \<Rightarrow> redemption option"
  e_decode_recordId :: "bytes \<Rightarrow> bool"
  e_types_next :: "string option \<Rightarrow> string \<Rightarrow> string option"
  e_removeable :: "host_call list \<Rightarrow> bytes \<Rightarrow> bool"

section \<open>Signed bytes\<close>

text \<open>\<open>Identity.verify\<close> (lib/identity.js): only the identity key itself, or a device it
  bootstrapped, may sign.\<close>

definition Identity_verify :: "env \<Rightarrow> bytes option \<Rightarrow> bytes \<Rightarrow> (bytes \<times> bytes) option" where
  "Identity_verify E proof data =
     (case proof of None \<Rightarrow> None
      | Some p \<Rightarrow>
          (case e_proof_chain E p of None \<Rightarrow> None
           | Some n \<Rightarrow> if n > 1 then None else e_key_verify E p data))"

definition NS_WRITER :: bytes where "NS_WRITER = ascii ''hypergraph/writer'' @ [0]"
definition NS_REMOVE :: bytes where "NS_REMOVE = ascii ''hypergraph/device-remove'' @ [0]"
definition NS_INVITE :: bytes where "NS_INVITE = ascii ''hypergraph/invite'' @ [0]"
definition NS_REDEEM :: bytes where "NS_REDEEM = ascii ''hypergraph/redeem'' @ [0]"

definition writerSignable :: "bytes \<Rightarrow> bytes \<Rightarrow> bytes" where
  "writerSignable writerKey space = NS_WRITER @ writerKey @ space"

text \<open>\<open>b4a.concat\<close> throws on a \<open>null\<close> part.\<close>

definition removalSignable :: "bytes \<Rightarrow> bytes \<Rightarrow> bytes option \<Rightarrow> js_error + bytes" where
  "removalSignable space device ct =
     (case ct of None \<Rightarrow> Inl TypeError | Some c \<Rightarrow> Inr (NS_REMOVE @ space @ device @ c))"

definition inviteSignable :: "env \<Rightarrow> invite \<Rightarrow> bytes \<Rightarrow> bytes" where
  "inviteSignable E iv root =
     (let body = e_encode_inviteBody E iv
      in if root \<noteq> iv_space iv then NS_INVITE @ body @ root else NS_INVITE @ body)"

definition redemptionSignable :: "invite \<Rightarrow> bytes \<Rightarrow> bytes \<Rightarrow> js_error + bytes" where
  "redemptionSignable iv identity writer =
     (case iv_id iv of None \<Rightarrow> Inl TypeError
      | Some i \<Rightarrow> Inr (NS_REDEEM @ iv_space iv @ i @ identity @ writer))"

definition verifyInvite :: "env \<Rightarrow> invite \<Rightarrow> bytes \<Rightarrow> bool" where
  "verifyInvite E iv root =
     (case Identity_verify E (iv_proof iv) (inviteSignable E iv root) of None \<Rightarrow> False
      | Some (identity, device) \<Rightarrow> identity = iv_maker iv)"

definition verifyRedemption :: "env \<Rightarrow> redemption \<Rightarrow> bytes \<Rightarrow> js_error + (bytes \<times> bytes) option" where
  "verifyRedemption E r root =
     (if \<not> verifyInvite E (rd_invite r) root then Inr None
      else case redemptionSignable (rd_invite r) (rd_identity r) (rd_writer r) of
        Inl e \<Rightarrow> Inl e
      | Inr data \<Rightarrow>
          (case Identity_verify E (rd_proof r) data of None \<Rightarrow> Inr None
           | Some (identity, device) \<Rightarrow>
               Inr (if identity = rd_identity r then Some (identity, device) else None)))"

section \<open>The view while a decision is applied\<close>

text \<open>
  The view, the number of writes made through it (\<open>countWrites\<close>: a decision counted if it
  wrote anything) and the calls made to the host.
\<close>

record vstate =
  vw :: view
  writes :: nat
  host :: "host_call list"

definition put :: "vkey \<Rightarrow> vval \<Rightarrow> vstate \<Rightarrow> vstate" where
  "put k x st = st\<lparr>vw := (vw st)(k \<mapsto> x), writes := Suc (writes st)\<rparr>"

definition del :: "vkey \<Rightarrow> vstate \<Rightarrow> vstate" where
  "del k st = st\<lparr>vw := (vw st)(k := None), writes := Suc (writes st)\<rparr>"

definition call :: "host_call \<Rightarrow> vstate \<Rightarrow> vstate" where
  "call h st = st\<lparr>host := host st @ [h]\<rparr>"

lemma vw_put [simp]: "vw (put k x st) = (vw st)(k \<mapsto> x)"
  and vw_del [simp]: "vw (del k st) = (vw st)(k := None)"
  and vw_call [simp]: "vw (call h st) = vw st"
  and writes_put [simp]: "writes (put k x st) = Suc (writes st)"
  and writes_del [simp]: "writes (del k st) = Suc (writes st)"
  and writes_call [simp]: "writes (call h st) = writes st"
  and host_put [simp]: "host (put k x st) = host st"
  and host_del [simp]: "host (del k st) = host st"
  and host_call [simp]: "host (call h st) = host st @ [h]"
  by (simp_all add: put_def del_def call_def)

end
