(* ===== verification/Scopes.thy ===== *)
theory Scopes
  imports Decisions
begin

text \<open>
  Sub-spaces and membership in them (lib/decisions/apply.js): the chain of a sub-space and
  those above it (\<open>chainOf\<close>), the list of sub-spaces, which is below which, and who counts as a
  member in a chain (\<open>memberIn\<close>, \<open>bannedIn\<close>).

  \<open>chainOf\<close> and \<open>below\<close> follow parents in a loop. Each is given fuel here, one more than the
  number of sub-spaces; \<open>chainOf_total\<close> and \<open>below_total\<close> show it is enough in every view that
  applying decisions can reach, so \<open>chain_fuel\<close>'s \<open>None\<close> (out of fuel) never arises there.
\<close>

definition sub_keys :: "view \<Rightarrow> string list" where
  "sub_keys v = (case get_subspaces v of None \<Rightarrow> [] | Some ks \<Rightarrow> ks)"

text \<open>The loop of \<open>chainOf\<close>: \<open>Some None\<close> is the code's \<open>null\<close>.\<close>

fun chain_fuel :: "nat \<Rightarrow> view \<Rightarrow> string list \<Rightarrow> scope \<Rightarrow> string list option option" where
  "chain_fuel n v chain None = Some (Some chain)"
| "chain_fuel 0 v chain (Some s) = None"
| "chain_fuel (Suc n) v chain (Some s) =
     (case get_subspace v s of None \<Rightarrow> Some None
      | Some info \<Rightarrow> if s \<in> set chain then Some None
                     else chain_fuel n v (chain @ [s]) (ss_parent info))"

definition chainOf :: "view \<Rightarrow> scope \<Rightarrow> string list option" where
  "chainOf v s = (case chain_fuel (Suc (length (sub_keys v))) v [] s of None \<Rightarrow> None | Some r \<Rightarrow> r)"

definition subspacesOf :: "view \<Rightarrow> (string \<times> scope \<times> bool) list" where
  "subspacesOf v =
     concat (map (\<lambda>k. case get_subspace v k of None \<Rightarrow> []
                      | Some info \<Rightarrow> [(k, ss_parent info, ss_private info)]) (sub_keys v))"

text \<open>The loop of \<open>below\<close>: from the entry of \<open>s\<close>, up.\<close>

fun below_fuel :: "nat \<Rightarrow> (string \<rightharpoonup> scope \<times> bool) \<Rightarrow> scope \<Rightarrow> scope \<Rightarrow> bool option" where
  "below_fuel n byKey None tp = Some False"
| "below_fuel 0 byKey (Some s) tp = None"
| "below_fuel (Suc n) byKey (Some s) tp =
     (case byKey s of None \<Rightarrow> Some False
      | Some (parent, _) \<Rightarrow> if parent = tp then Some True else below_fuel n byKey parent tp)"

definition below :: "(string \<times> scope \<times> bool) list \<Rightarrow> string \<Rightarrow> scope \<Rightarrow> bool" where
  "below subs scope tp =
     (case below_fuel (Suc (length subs)) (map_of (rev subs)) (Some scope) tp of
        None \<Rightarrow> False | Some b \<Rightarrow> b)"

text \<open>Banned in the chain's own spaces or the top space.\<close>

definition bannedIn :: "view \<Rightarrow> string list \<Rightarrow> string \<Rightarrow> bool" where
  "bannedIn v chain i \<longleftrightarrow> list_ex (\<lambda>s. get_banned v s i \<noteq> None) (map Some chain @ [None])"

text \<open>The recursive \<open>own (i)\<close> of \<open>memberIn\<close>, on the rest of the chain from \<open>i\<close>.\<close>

fun own_in :: "view \<Rightarrow> string list \<Rightarrow> string \<Rightarrow> member option" where
  "own_in v [] i = get_member v None i"
| "own_in v (s # rest) i =
     (case get_member v (Some s) i of
        Some m \<Rightarrow> Some m
      | None \<Rightarrow>
          (case own_in v rest i of
             None \<Rightarrow> None
           | Some up \<Rightarrow>
               if (case get_subspace v s of None \<Rightarrow> False | Some info \<Rightarrow> ss_private info)
                  \<and> mb_role up \<noteq> ''owner'' \<and> mb_role up \<noteq> ''admin''
               then None else Some up))"

definition memberIn :: "view \<Rightarrow> string list \<Rightarrow> string \<Rightarrow> member option" where
  "memberIn v chain i = (if bannedIn v chain i then None else own_in v chain i)"

definition roleIn :: "view \<Rightarrow> string list \<Rightarrow> string \<Rightarrow> string option" where
  "roleIn v chain i = map_option mb_role (memberIn v chain i)"

section \<open>Loading custom roles\<close>

text \<open>\<open>load\<close>: the custom roles named, read once into \<open>custom\<close>.\<close>

definition load1 :: "view \<Rightarrow> string option \<Rightarrow> roles \<Rightarrow> roles" where
  "load1 v name custom =
     (case name of None \<Rightarrow> custom
      | Some r \<Rightarrow>
          if r = [] \<or> ROLES r \<noteq> None \<or> custom r \<noteq> None then custom
          else (case get_role v r of None \<Rightarrow> custom | Some e \<Rightarrow> custom(r \<mapsto> re_permissions e)))"

definition load :: "view \<Rightarrow> string option list \<Rightarrow> roles \<Rightarrow> roles" where
  "load v names custom = fold (load1 v) names custom"

section \<open>Frames\<close>

text \<open>These reads look only at subspaces, members, bans and roles.\<close>

definition same_scopes :: "view \<Rightarrow> view \<Rightarrow> bool" where
  "same_scopes v w \<longleftrightarrow>
     (\<forall>k. is_KMember k \<or> is_KBanned k \<or> is_KSubspace k \<or> k = KSubspaces \<longrightarrow> v k = w k)"

lemma same_scopesD:
  assumes "same_scopes v w"
  shows "get_member v s i = get_member w s i" "get_banned v s i = get_banned w s i"
    "get_subspace v h = get_subspace w h" "sub_keys v = sub_keys w"
  using assms by (simp_all add: same_scopes_def getters sub_keys_def)

lemma chain_fuel_cong: "same_scopes v w \<Longrightarrow> chain_fuel n v chain s = chain_fuel n w chain s"
  by (induction n v chain s rule: chain_fuel.induct) (auto simp: same_scopesD split: option.splits)

lemma own_in_cong: "same_scopes v w \<Longrightarrow> own_in v chain i = own_in w chain i"
  by (induction v chain i rule: own_in.induct) (auto simp: same_scopesD split: option.splits)

lemma scopes_cong:
  assumes "same_scopes v w"
  shows "chainOf v s = chainOf w s" "subspacesOf v = subspacesOf w"
    "bannedIn v chain i = bannedIn w chain i" "memberIn v chain i = memberIn w chain i"
    "roleIn v chain i = roleIn w chain i"
  using same_scopesD [OF assms] chain_fuel_cong [OF assms] own_in_cong [OF assms]
  by (simp_all add: chainOf_def subspacesOf_def bannedIn_def memberIn_def roleIn_def)

lemma bannedIn_top: "bannedIn v [] i \<longleftrightarrow> get_banned v None i \<noteq> None"
  by (simp add: bannedIn_def)

lemma memberIn_top: "memberIn v [] i = (if get_banned v None i \<noteq> None then None else get_member v None i)"
  by (simp add: memberIn_def bannedIn_top)

end
