(* ===== verification/Writer_Keys.thy ===== *)
theory Writer_Keys
  imports Scopes
begin

text \<open>
  Which keys write decisions for whom (lib/decisions/apply.js): \<open>addKey\<close>, \<open>forget\<close>,
  \<open>removeFromBase\<close>, \<open>writesAnywhere\<close> and \<open>settle\<close>. The view holds them twice, as
  \<open>writer:<key>\<close> and in the identity's list \<open>writers:<id>\<close>; \<open>writers_ok\<close> says the two agree, that
  no key is of a removed device and that at most one key of an identity settles the order, and
  every operation keeps it.
\<close>

definition writersOf :: "view \<Rightarrow> string \<Rightarrow> string list" where
  "writersOf v i = (case get_writers v i of None \<Rightarrow> [] | Some ks \<Rightarrow> ks)"

definition addKey :: "string \<Rightarrow> string \<Rightarrow> string option \<Rightarrow> vstate \<Rightarrow> bool \<times> vstate" where
  "addKey i key device st =
     (if get_writer (vw st) key \<noteq> None then (False, st)
      else if (case device of None \<Rightarrow> False | Some d \<Rightarrow> get_gone (vw st) i d \<noteq> None) then (False, st)
      else let st1 = put (KWriter key) (VWriter \<lparr>w_identity = i, w_device = device, w_indexer = False\<rparr>) st;
               st2 = put (KWriters i) (VWriters (writersOf (vw st1) i @ [key])) st1
           in (True, call (AddWriter (unhex key) False) st2))"

definition forget :: "string \<Rightarrow> string \<Rightarrow> vstate \<Rightarrow> vstate" where
  "forget i key st =
     (let st1 = del (KWriter key) st;
          keys = filter (\<lambda>k. k \<noteq> key) (writersOf (vw st1) i)
      in if keys \<noteq> [] then put (KWriters i) (VWriters keys) st1 else del (KWriters i) st1)"

definition removeFromBase :: "env \<Rightarrow> string \<Rightarrow> vstate \<Rightarrow> vstate" where
  "removeFromBase E key st =
     (if e_removeable E (host st) (unhex key) then call (RemoveWriter (unhex key)) st else st)"

text \<open>The loop over the identity's roles, loading the custom ones as it meets them.\<close>

fun anyWrites :: "view \<Rightarrow> string option list \<Rightarrow> roles \<Rightarrow> bool \<times> roles" where
  "anyWrites v [] custom = (False, custom)"
| "anyWrites v (r # rs) custom =
     (if r = None \<or> r = Some [] then anyWrites v rs custom
      else let custom' = load1 v r custom
           in if mayWrite r custom' then (True, custom') else anyWrites v rs custom')"

definition rolesAnywhere :: "view \<Rightarrow> string \<Rightarrow> string option list" where
  "rolesAnywhere v i =
     roleIn v [] i #
     concat (map (\<lambda>(k, _). case chainOf v (Some k) of None \<Rightarrow> [] | Some chain \<Rightarrow> [roleIn v chain i])
       (subspacesOf v))"

definition writesAnywhere :: "view \<Rightarrow> string \<Rightarrow> roles \<Rightarrow> bool \<times> roles" where
  "writesAnywhere v i custom = anyWrites v (rolesAnywhere v i) custom"

definition settle_nodes :: "view \<Rightarrow> string \<Rightarrow> (string \<times> writer_info) list" where
  "settle_nodes v i =
     concat (map (\<lambda>k. case get_writer v k of None \<Rightarrow> [] | Some w \<Rightarrow> [(k, w)]) (writersOf v i))"

definition settle :: "env \<Rightarrow> string \<Rightarrow> roles \<Rightarrow> vstate \<Rightarrow> vstate \<times> roles" where
  "settle E i custom st =
     (let keys = writersOf (vw st) i;
          (ok, custom') = writesAnywhere (vw st) i custom
      in if \<not> ok
         then (fold (\<lambda>key s. removeFromBase E key (forget i key s)) keys st, custom')
         else let role = roleIn (vw st) [] i;
                  nodes = settle_nodes (vw st) i
              in if can role ''decide'' custom'
                 then (case find (\<lambda>(_, w). w_indexer w) nodes of
                         Some _ \<Rightarrow> (st, custom')
                       | None \<Rightarrow>
                           (case nodes of [] \<Rightarrow> (st, custom')
                            | (key, w) # _ \<Rightarrow>
                                (call (AddWriter (unhex key) True)
                                   (put (KWriter key) (VWriter (w\<lparr>w_indexer := True\<rparr>)) st), custom')))
                 else (case find (\<lambda>(_, w). w_indexer w) nodes of
                         None \<Rightarrow> (st, custom')
                       | Some (key, w) \<Rightarrow>
                           (let st1 = put (KWriter key) (VWriter (w\<lparr>w_indexer := False\<rparr>)) st
                            in (if e_removeable E (host st1) (unhex key)
                                then call (AddWriter (unhex key) False) st1 else st1, custom'))))"

section \<open>What they touch\<close>

definition writer_kind :: "vkey \<Rightarrow> bool" where
  "writer_kind k \<longleftrightarrow> is_KWriter k \<or> is_KWriters k"

lemma vw_removeFromBase [simp]: "vw (removeFromBase E key st) = vw st"
  by (simp add: removeFromBase_def)

lemma addKey_frame: "\<not> writer_kind k \<Longrightarrow> vw (snd (addKey i key dev st)) k = vw st k"
  by (cases k) (simp_all add: addKey_def writer_kind_def Let_def split: option.split)

lemma forget_frame: "\<not> writer_kind k \<Longrightarrow> vw (forget i key st) k = vw st k"
  by (cases k) (simp_all add: forget_def writer_kind_def Let_def)

lemma forgets_frame:
  "\<not> writer_kind k \<Longrightarrow> vw (fold (\<lambda>key s. removeFromBase E key (forget i key s)) keys st) k = vw st k"
  by (induction keys arbitrary: st) (simp_all add: forget_frame)

lemma settle_frame:
  assumes "\<not> writer_kind k"
  shows "vw (fst (settle E i custom st)) k = vw st k"
proof -
  from assms have "k \<noteq> KWriter x" for x by (auto simp: writer_kind_def)
  then show ?thesis
    by (auto simp: settle_def Let_def forgets_frame [OF assms] split: prod.splits option.splits list.splits)
qed

text \<open>The entries of one identity's keys: all that adding a key, forgetting one and settling touch.\<close>

definition keys_of :: "view \<Rightarrow> string \<Rightarrow> vkey set" where
  "keys_of v i = insert (KWriters i) (KWriter ` set (writersOf v i))"

lemma addKey_own: "k \<noteq> KWriters i \<Longrightarrow> k \<noteq> KWriter key \<Longrightarrow> vw (snd (addKey i key dev st)) k = vw st k"
  by (simp add: addKey_def Let_def split: option.split)

lemma addKey_keys: "keys_of (vw (snd (addKey i key dev st))) i \<subseteq> insert (KWriter key) (keys_of (vw st) i)"
  by (auto simp: addKey_def Let_def keys_of_def writersOf_def getters split: option.splits)

lemma forget_own: "k \<noteq> KWriters i \<Longrightarrow> k \<noteq> KWriter key \<Longrightarrow> vw (forget i key st) k = vw st k"
  by (simp add: forget_def Let_def)

lemma forget_keys: "keys_of (vw (forget i key st)) i \<subseteq> keys_of (vw st) i"
  by (auto simp: forget_def Let_def keys_of_def writersOf_def getters split: option.splits)

lemma forgets_own:
  "k \<notin> keys_of (vw st) i \<Longrightarrow> KWriter ` set keys \<subseteq> keys_of (vw st) i \<Longrightarrow>
    vw (fold (\<lambda>key s. removeFromBase E key (forget i key s)) keys st) k = vw st k \<and> vw (fold (forget i) keys st) k = vw st k"
proof -
  assume k: "k \<notin> keys_of (vw st) i" and ks: "KWriter ` set keys \<subseteq> keys_of (vw st) i"
  have "k \<noteq> KWriters i" using k by (auto simp: keys_of_def)
  moreover have "k \<noteq> KWriter key" if "key \<in> set keys" for key using k ks that by auto
  ultimately show ?thesis by (induction keys arbitrary: st) (simp_all add: forget_own)
qed

lemma settle_own:
  assumes "k \<notin> keys_of (vw st) i"
  shows "vw (fst (settle E i custom st)) k = vw st k"
proof -
  have "key \<in> set (writersOf (vw st) i)" if "(key, w) \<in> set (settle_nodes (vw st) i)" for key w
    using that by (auto simp: settle_nodes_def split: option.splits)
  then have nodes: "k \<noteq> KWriter key" if "(key, w) \<in> set (settle_nodes (vw st) i)" for key w
    using assms that by (auto simp: keys_of_def)
  have "vw (fold (\<lambda>key s. removeFromBase E key (forget i key s)) (writersOf (vw st) i) st) k = vw st k"
    using forgets_own [OF assms, of "writersOf (vw st) i" E] by (simp add: keys_of_def subset_insertI)
  moreover have "k \<noteq> KWriter key" if "find P (settle_nodes (vw st) i) = Some (key, w)" for P key w
    using nodes find_SomeD [OF that] by blast
  moreover have "k \<noteq> KWriter key" if "settle_nodes (vw st) i = (key, w) # xs" for key w xs
    using nodes [of key w] that by simp
  ultimately show ?thesis
    by (auto simp: settle_def Let_def split: prod.splits option.splits list.splits)
qed

section \<open>The invariant\<close>

definition writers_ok :: "view \<Rightarrow> bool" where
  "writers_ok v \<longleftrightarrow>
     (\<forall>i. distinct (writersOf v i)) \<and>
     (\<forall>i k. k \<in> set (writersOf v i) \<longleftrightarrow> (\<exists>w. get_writer v k = Some w \<and> w_identity w = i)) \<and>
     (\<forall>k w d. get_writer v k = Some w \<longrightarrow> w_device w = Some d \<longrightarrow> get_gone v (w_identity w) d = None) \<and>
     (\<forall>k k' w w'. get_writer v k = Some w \<longrightarrow> get_writer v k' = Some w' \<longrightarrow>
        w_identity w = w_identity w' \<longrightarrow> w_indexer w \<longrightarrow> w_indexer w' \<longrightarrow> k = k')"

lemma writers_okD:
  assumes "writers_ok v"
  shows "distinct (writersOf v i)"
    "k \<in> set (writersOf v i) \<longleftrightarrow> (\<exists>w. get_writer v k = Some w \<and> w_identity w = i)"
    "get_writer v k = Some w \<Longrightarrow> w_device w = Some d \<Longrightarrow> get_gone v (w_identity w) d = None"
    "get_writer v k = Some w \<Longrightarrow> get_writer v k' = Some w' \<Longrightarrow> w_identity w = w_identity w' \<Longrightarrow>
       w_indexer w \<Longrightarrow> w_indexer w' \<Longrightarrow> k = k'"
  using assms unfolding writers_ok_def by blast+

lemma writers_ok_cong:
  assumes "\<And>k. writer_kind k \<or> is_KGone k \<Longrightarrow> v k = w k"
  shows "writers_ok v \<longleftrightarrow> writers_ok w"
proof -
  have "get_writer v = get_writer w" "get_writers v = get_writers w" "get_gone v = get_gone w"
    using assms by (simp_all add: fun_eq_iff getters writer_kind_def)
  then show ?thesis by (simp add: writers_ok_def writersOf_def)
qed

text \<open>The reads after one write.\<close>

lemma get_writer_upd:
  "get_writer (v(KWriter a \<mapsto> VWriter x)) k = (if k = a then Some x else get_writer v k)"
  "get_writer (v(KWriter a := None)) k = (if k = a then None else get_writer v k)"
  "get_writer (v(KWriters i \<mapsto> y)) k = get_writer v k"
  "get_writer (v(KWriters i := None)) k = get_writer v k"
  "writersOf (v(KWriters i \<mapsto> VWriters ks)) j = (if j = i then ks else writersOf v j)"
  "writersOf (v(KWriters i := None)) j = (if j = i then [] else writersOf v j)"
  "writersOf (v(KWriter a \<mapsto> y)) j = writersOf v j"
  "writersOf (v(KWriter a := None)) j = writersOf v j"
  "get_gone (v(KWriter a \<mapsto> y)) j d = get_gone v j d"
  "get_gone (v(KWriter a := None)) j d = get_gone v j d"
  "get_gone (v(KWriters i \<mapsto> z)) j d = get_gone v j d"
  "get_gone (v(KWriters i := None)) j d = get_gone v j d"
  by (simp_all add: getters writersOf_def)

lemma addKey_writers_ok:
  assumes "writers_ok (vw st)"
  shows "writers_ok (vw (snd (addKey i key dev st)))"
proof (cases "fst (addKey i key dev st)")
  case False
  then have "snd (addKey i key dev st) = st"
    by (auto simp: addKey_def Let_def split: option.splits if_splits)
  with assms show ?thesis by simp
next
  case True
  let ?v = "vw st"
  from True have new: "get_writer ?v key = None"
    and gone: "\<And>d. dev = Some d \<Longrightarrow> get_gone ?v i d = None"
    by (simp_all add: addKey_def split: option.splits if_splits)
  have v: "vw (snd (addKey i key dev st)) =
     ?v(KWriter key \<mapsto> VWriter \<lparr>w_identity = i, w_device = dev, w_indexer = False\<rparr>,
        KWriters i \<mapsto> VWriters (writersOf ?v i @ [key]))"
    using True by (auto simp: addKey_def Let_def get_writer_upd split: option.splits if_splits)
  have fresh: "key \<notin> set (writersOf ?v j)" for j
    using writers_okD(2) [OF assms] new by auto
  note ok = writers_okD [OF assms]
  show ?thesis
    unfolding v writers_ok_def
    apply (intro conjI allI impI)
    using ok(1) fresh apply (auto simp: get_writer_upd)[1]
    using ok(2) new fresh apply (auto simp: get_writer_upd)[1]
    using ok(3) gone apply (auto simp: get_writer_upd split: if_splits)[1]
    using ok(4) apply (auto simp: get_writer_upd split: if_splits)[1]
    done
qed

lemma forget_reads:
  "get_writer (vw (forget i key st)) k = (if k = key then None else get_writer (vw st) k)"
  "writersOf (vw (forget i key st)) j =
     (if j = i then filter (\<lambda>k. k \<noteq> key) (writersOf (vw st) i) else writersOf (vw st) j)"
  "get_gone (vw (forget i key st)) j d = get_gone (vw st) j d"
  by (simp_all add: forget_def Let_def get_writer_upd filter_empty_conv)

lemma forget_writers_ok:
  assumes "writers_ok (vw st)" and "key \<in> set (writersOf (vw st) i)"
  shows "writers_ok (vw (forget i key st))"
proof -
  note ok = writers_okD [OF assms(1)]
  from assms(2) obtain w where w: "get_writer (vw st) key = Some w" "w_identity w = i"
    using ok(2) by blast
  show ?thesis
    unfolding writers_ok_def forget_reads
    apply (intro conjI allI impI)
    using ok(1) apply simp
    using ok(2) w apply auto[1]
    using ok(3) apply (auto split: if_splits)[1]
    using ok(4) apply (auto split: if_splits)[1]
    done
qed

lemma forgets_writers_ok:
  assumes "writers_ok (vw st)" "distinct keys" "set keys \<subseteq> set (writersOf (vw st) i)"
  shows "writers_ok (vw (fold (\<lambda>key s. removeFromBase E key (forget i key s)) keys st))"
  using assms
proof (induction keys arbitrary: st)
  case (Cons k ks)
  have "writers_ok (vw (removeFromBase E k (forget i k st)))"
    using Cons.prems by (simp add: forget_writers_ok)
  moreover have "set ks \<subseteq> set (writersOf (vw (removeFromBase E k (forget i k st))) i)"
    using Cons.prems by (auto simp: forget_reads)
  ultimately show ?case using Cons by simp
qed simp

lemma reindex_writers_ok:
  assumes "writers_ok v" "get_writer v key = Some w"
    and "b \<Longrightarrow> \<forall>k' w'. get_writer v k' = Some w' \<longrightarrow> w_identity w' = w_identity w \<longrightarrow> \<not> w_indexer w'"
  shows "writers_ok (v(KWriter key \<mapsto> VWriter (w\<lparr>w_indexer := b\<rparr>)))"
proof -
  note ok = writers_okD [OF assms(1)]
  show ?thesis
    unfolding writers_ok_def
    apply (intro conjI allI impI)
    using ok(1) apply (simp add: get_writer_upd)
    using ok(2) assms(2) apply (auto simp: get_writer_upd)[1]
    using ok(3) assms(2) apply (auto simp: get_writer_upd split: if_splits)[1]
    using ok(4) assms(2,3) apply (fastforce simp: get_writer_upd split: if_splits)[1]
    done
qed

lemma settle_nodes_set:
  assumes "writers_ok v"
  shows "(k, w) \<in> set (settle_nodes v i) \<longleftrightarrow> get_writer v k = Some w \<and> w_identity w = i"
  using writers_okD(2) [OF assms, of k i]
  by (fastforce simp: settle_nodes_def split: option.splits)

text \<open>What \<open>settle\<close> leaves in the view, one case per way out of it.\<close>

lemma settle_cases:
  fixes st :: vstate and E i custom
  defines "nodes \<equiv> settle_nodes (vw st) i"
  obtains (gone) "vw (fst (settle E i custom st)) =
        vw (fold (\<lambda>key s. removeFromBase E key (forget i key s)) (writersOf (vw st) i) st)"
  | (same) "vw (fst (settle E i custom st)) = vw st"
  | (up) k w where "(k, w) \<in> set nodes" "\<forall>(k', w') \<in> set nodes. \<not> w_indexer w'"
      "vw (fst (settle E i custom st)) = (vw st)(KWriter k \<mapsto> VWriter (w\<lparr>w_indexer := True\<rparr>))"
  | (down) k w where "(k, w) \<in> set nodes"
      "vw (fst (settle E i custom st)) = (vw st)(KWriter k \<mapsto> VWriter (w\<lparr>w_indexer := False\<rparr>))"
proof -
  obtain ok custom' where w: "writesAnywhere (vw st) i custom = (ok, custom')" by force
  let ?f = "find (\<lambda>(_, w). w_indexer w) nodes"
  show thesis
  proof (cases "\<not> ok")
    case True
    with w show thesis by (intro gone) (simp add: settle_def Let_def)
  next
    case ok: False
    show thesis
    proof (cases "can (roleIn (vw st) [] i) ''decide'' custom'")
      case can: True
      show thesis
      proof (cases ?f)
        case Some
        with ok can w show thesis by (intro same) (simp add: settle_def Let_def nodes_def)
      next
        case none: None
        show thesis
        proof (cases nodes)
          case Nil
          with none ok can w show thesis by (intro same) (simp add: settle_def Let_def nodes_def)
        next
          case (Cons a rest)
          obtain k x where a: "a = (k, x)" by force
          from none have "\<forall>(k', w') \<in> set nodes. \<not> w_indexer w'" by (auto simp: find_None_iff)
          with none ok can w Cons a show thesis
            by (intro up [of k x]) (simp_all add: settle_def Let_def nodes_def)
        qed
      qed
    next
      case cannot: False
      show thesis
      proof (cases ?f)
        case None
        with ok cannot w show thesis by (intro same) (simp add: settle_def Let_def nodes_def)
      next
        case (Some a)
        obtain k x where a: "a = (k, x)" by force
        with Some ok cannot w find_SomeD [OF Some] show thesis
          by (intro down [of k x]) (simp_all add: settle_def Let_def nodes_def)
      qed
    qed
  qed
qed

lemma settle_writers_ok:
  assumes "writers_ok (vw st)"
  shows "writers_ok (vw (fst (settle E i custom st)))"
proof (rule settle_cases [of E i custom st])
  note nodes = settle_nodes_set [OF assms, of _ _ i]
  show ?thesis if "vw (fst (settle E i custom st)) =
      vw (fold (\<lambda>key s. removeFromBase E key (forget i key s)) (writersOf (vw st) i) st)"
    unfolding that using assms writers_okD(1) [OF assms] by (intro forgets_writers_ok) auto
  show ?thesis if "vw (fst (settle E i custom st)) = vw st"
    using that assms by simp
  show ?thesis if "(k, w) \<in> set (settle_nodes (vw st) i)"
      and "\<forall>(k', w') \<in> set (settle_nodes (vw st) i). \<not> w_indexer w'"
      and "vw (fst (settle E i custom st)) = (vw st)(KWriter k \<mapsto> VWriter (w\<lparr>w_indexer := True\<rparr>))"
    for k w
  proof -
    have "\<forall>k' w'. get_writer (vw st) k' = Some w' \<longrightarrow> w_identity w' = i \<longrightarrow> \<not> w_indexer w'"
      using that(2) nodes by fastforce
    moreover have "get_writer (vw st) k = Some w" "w_identity w = i"
      using that(1) nodes by simp_all
    ultimately show ?thesis
      unfolding that(3) using assms by (intro reindex_writers_ok) simp_all
  qed
  show ?thesis if "(k, w) \<in> set (settle_nodes (vw st) i)"
      and "vw (fst (settle E i custom st)) = (vw st)(KWriter k \<mapsto> VWriter (w\<lparr>w_indexer := False\<rparr>))"
    for k w
    unfolding that(2) using that(1) assms by (intro reindex_writers_ok) (auto simp: nodes)
qed

end
