(* ===== verification/Cuts.thy ===== *)
theory Cuts
  imports Writer_Keys
begin

text \<open>
  How much of someone's logs still counts (lib/decisions/apply.js): \<open>recordCut\<close> when they lose
  the right to write, \<open>recordEditCuts\<close> when they lose a permission, \<open>dropAll\<close> for a ban that
  drops everything, \<open>admit\<close> when they are let back in, and \<open>dropBelow\<close>, which takes them out of
  the sub-spaces below. A JSON object of log lengths is a map from log keys (hex).
\<close>

definition logs_of :: "cut_entries \<Rightarrow> loglens" where
  "logs_of entries = fold (\<lambda>(log, n) m. m(hex log \<mapsto> n)) entries Map.empty"

text \<open>\<open>Object.assign (logs, node.value.logs)\<close>: what an earlier cut says stays.\<close>

definition recordCut :: "scope \<Rightarrow> string \<Rightarrow> cut_entries \<Rightarrow> nat \<Rightarrow> vstate \<Rightarrow> vstate" where
  "recordCut s i entries stamp st =
     (let logs = logs_of entries ++ (case get_cut (vw st) s i of None \<Rightarrow> Map.empty | Some c \<Rightarrow> ct_logs c)
      in del (KAdmit s i) (put (KCut s i) (VCut \<lparr>ct_logs = logs, ct_stamp = stamp\<rparr>) st))"

definition recordEditCuts :: "scope \<Rightarrow> string \<Rightarrow> string list \<Rightarrow> cut_entries \<Rightarrow> vstate \<Rightarrow> vstate" where
  "recordEditCuts s i lost entries st =
     (if lost = [] then st
      else let perms0 = (case get_editcut (vw st) s i of None \<Rightarrow> Map.empty | Some e \<Rightarrow> e);
               perms = fold (\<lambda>p m. m(p \<mapsto> logs_of entries ++ (case m p of None \<Rightarrow> Map.empty | Some l \<Rightarrow> l)))
                         lost perms0
           in put (KEditcut s i) (VEditcut perms) st)"

definition admit :: "scope \<Rightarrow> string \<Rightarrow> string \<Rightarrow> roles \<Rightarrow> string \<Rightarrow> vstate \<Rightarrow> vstate" where
  "admit s i role custom code st =
     (if code = [] \<or> \<not> can (Some role) ''post'' custom \<or> get_cut (vw st) s i = None
         \<or> get_admit (vw st) s i \<noteq> None
      then st else put (KAdmit s i) (VAdmit code) st)"

definition dropBelow :: "scope \<Rightarrow> string \<Rightarrow> vstate \<Rightarrow> vstate" where
  "dropBelow s i st =
     (let subs = subspacesOf (vw st)
      in fold (\<lambda>(key, _) st.
            if below subs key s \<and> get_member (vw st) (Some key) i \<noteq> None
            then del (KMember (Some key) i) st else st) subs st)"

text \<open>Every log named now or by an earlier cut, at length 0.\<close>

definition zero_logs :: "string list \<Rightarrow> loglens \<Rightarrow> loglens" where
  "zero_logs named known = (\<lambda>l. if l \<in> set named \<or> known l \<noteq> None then Some 0 else None)"

definition drop_scope :: "scope \<Rightarrow> string \<Rightarrow> string list \<Rightarrow> nat \<Rightarrow> scope \<Rightarrow> vstate \<Rightarrow> vstate" where
  "drop_scope s0 i named stamp s st =
     (let node = get_cut (vw st) s i;
          logs = zero_logs named (case node of None \<Rightarrow> Map.empty | Some c \<Rightarrow> ct_logs c);
          st1 = (if s = s0 \<or> node \<noteq> None
                 then put (KCut s i) (VCut \<lparr>ct_logs = logs, ct_stamp = stamp\<rparr>) st else st)
      in case get_editcut (vw st1) s i of None \<Rightarrow> st1
         | Some perms \<Rightarrow>
             put (KEditcut s i) (VEditcut (\<lambda>p. map_option (zero_logs []) (perms p))) st1)"

definition dropAll :: "scope \<Rightarrow> string \<Rightarrow> cut_entries \<Rightarrow> nat \<Rightarrow> vstate \<Rightarrow> vstate" where
  "dropAll s i entries stamp st =
     (let subs = subspacesOf (vw st);
          scopes = s # map (\<lambda>(k, _). Some k) (filter (\<lambda>(k, _). below subs k s) subs);
          named = map (\<lambda>(log, _). hex log) entries
      in del (KAdmit s i) (fold (drop_scope s i named stamp) scopes st))"

section \<open>What they touch\<close>

definition cut_kind :: "vkey \<Rightarrow> bool" where
  "cut_kind k \<longleftrightarrow> is_KCut k \<or> is_KAdmit k \<or> is_KEditcut k"

lemma recordCut_frame: "\<not> cut_kind k \<Longrightarrow> vw (recordCut s i es n st) k = vw st k"
  by (cases k) (simp_all add: recordCut_def cut_kind_def Let_def)

lemma recordEditCuts_frame: "\<not> cut_kind k \<Longrightarrow> vw (recordEditCuts s i lost es st) k = vw st k"
  by (cases k) (simp_all add: recordEditCuts_def cut_kind_def Let_def)

lemma admit_frame: "\<not> cut_kind k \<Longrightarrow> vw (admit s i r custom code st) k = vw st k"
  by (cases k) (simp_all add: admit_def cut_kind_def)

lemma drop_scope_frame: "\<not> cut_kind k \<Longrightarrow> vw (drop_scope s0 i named n s st) k = vw st k"
  by (cases k) (simp_all add: drop_scope_def cut_kind_def Let_def split: option.split)

lemma drop_scopes_frame: "\<not> cut_kind k \<Longrightarrow> vw (fold (drop_scope s0 i named n) ss st) k = vw st k"
  by (induction ss arbitrary: st) (simp_all add: drop_scope_frame)

lemma dropAll_frame: "\<not> cut_kind k \<Longrightarrow> vw (dropAll s i es n st) k = vw st k"
  proof -
  assume k: "\<not> cut_kind k"
  then have "k \<noteq> KAdmit s i" by (auto simp: cut_kind_def)
  with k show ?thesis by (simp add: dropAll_def Let_def drop_scopes_frame drop_scope_frame del: fold.simps)
qed

text \<open>\<open>dropBelow\<close> only deletes entries of this member in sub-spaces below.\<close>

lemma dropBelow_fold:
  "vw (fold (\<lambda>(key, _) st. if below subs key s \<and> get_member (vw st) (Some key) i \<noteq> None
              then del (KMember (Some key) i) st else st) ks st) k =
   (if \<exists>key x. k = KMember (Some key) i \<and> (key, x) \<in> set ks \<and> below subs key s \<and>
          get_member (vw st) (Some key) i \<noteq> None
    then None else vw st k)"
proof (induction ks arbitrary: st)
  case (Cons a ks)
  show ?case
    unfolding fold_simps o_apply Cons.IH
    by (cases a) (auto simp: getters)
qed simp

lemma dropBelow_frame: "\<not> is_KMember k \<Longrightarrow> vw (dropBelow s i st) k = vw st k"
  unfolding dropBelow_def Let_def dropBelow_fold by auto

lemma dropBelow_sub: "vw (dropBelow s i st) k = Some x \<Longrightarrow> vw st k = Some x"
  unfolding dropBelow_def Let_def dropBelow_fold by (auto split: if_splits)

lemma dropBelow_top: "vw (dropBelow s i st) (KMember None j) = vw st (KMember None j)"
  unfolding dropBelow_def Let_def dropBelow_fold by auto

section \<open>A cut never grows\<close>

text \<open>
  One cut replaces another at most by naming more logs or counting less of them: what a cut
  says of a log never gives back what it took.
\<close>

definition tighter :: "loglens \<Rightarrow> loglens \<Rightarrow> bool" where
  "tighter old new \<longleftrightarrow> (\<forall>l n. old l = Some n \<longrightarrow> (\<exists>m. new l = Some m \<and> m \<le> n))"

lemma tighter_refl [simp]: "tighter m m"
  by (simp add: tighter_def)

lemma tighter_trans: "tighter a b \<Longrightarrow> tighter b c \<Longrightarrow> tighter a c"
  unfolding tighter_def by (meson order_trans)

lemma tighter_empty [simp]: "tighter Map.empty m"
  by (simp add: tighter_def)

lemma tighter_keep [simp]: "tighter old (new ++ old)"
  by (simp add: tighter_def)

lemma tighter_zero [simp]: "tighter old (zero_logs named old)"
  by (auto simp: tighter_def zero_logs_def)

definition cuts_of :: "view \<Rightarrow> scope \<Rightarrow> string \<Rightarrow> loglens" where
  "cuts_of v s i = (case get_cut v s i of None \<Rightarrow> Map.empty | Some c \<Rightarrow> ct_logs c)"

definition editcuts_of :: "view \<Rightarrow> scope \<Rightarrow> string \<Rightarrow> string \<Rightarrow> loglens" where
  "editcuts_of v s i p =
     (case get_editcut v s i of None \<Rightarrow> Map.empty
      | Some e \<Rightarrow> (case e p of None \<Rightarrow> Map.empty | Some l \<Rightarrow> l))"

definition cuts_tighten :: "view \<Rightarrow> view \<Rightarrow> bool" where
  "cuts_tighten v w \<longleftrightarrow>
     (\<forall>s i. (get_cut v s i \<noteq> None \<longrightarrow> get_cut w s i \<noteq> None) \<and> tighter (cuts_of v s i) (cuts_of w s i)) \<and>
     (\<forall>s i p. tighter (editcuts_of v s i p) (editcuts_of w s i p))"

lemma cuts_tighten_refl [simp]: "cuts_tighten v v"
  by (simp add: cuts_tighten_def)

lemma cuts_tighten_trans: "cuts_tighten u v \<Longrightarrow> cuts_tighten v w \<Longrightarrow> cuts_tighten u w"
  unfolding cuts_tighten_def by (meson tighter_trans)

lemma cuts_tighten_reads:
  "get_cut w = get_cut v \<Longrightarrow> get_editcut w = get_editcut v \<Longrightarrow> cuts_tighten v w"
  by (simp add: cuts_tighten_def cuts_of_def editcuts_of_def)

lemma get_cut_upd:
  "get_cut (v(KCut s i \<mapsto> VCut c)) s' i' = (if s' = s \<and> i' = i then Some c else get_cut v s' i')"
  "get_cut (v(KEditcut s i \<mapsto> x)) s' i' = get_cut v s' i'"
  "get_cut (v(KAdmit s i := y)) s' i' = get_cut v s' i'"
  "get_editcut (v(KEditcut s i \<mapsto> VEditcut e)) s' i' = (if s' = s \<and> i' = i then Some e else get_editcut v s' i')"
  "get_editcut (v(KCut s i \<mapsto> z)) s' i' = get_editcut v s' i'"
  "get_editcut (v(KAdmit s i := y)) s' i' = get_editcut v s' i'"
  by (simp_all add: getters)

lemma recordCut_tighten: "cuts_tighten (vw st) (vw (recordCut s i es n st))"
  by (auto simp: recordCut_def Let_def cuts_tighten_def get_cut_upd cuts_of_def editcuts_of_def)

lemma recordEditCuts_fold:
  "tighter (case m p of None \<Rightarrow> Map.empty | Some l \<Rightarrow> l)
     (case fold (\<lambda>p m. m(p \<mapsto> logs ++ (case m p of None \<Rightarrow> Map.empty | Some l \<Rightarrow> l))) lost m p of
        None \<Rightarrow> Map.empty | Some l \<Rightarrow> l)"
proof (induction lost arbitrary: m)
  case (Cons a lost)
  let ?m = "m(a \<mapsto> logs ++ (case m a of None \<Rightarrow> Map.empty | Some l \<Rightarrow> l))"
  have "tighter (case m p of None \<Rightarrow> Map.empty | Some l \<Rightarrow> l)
      (case ?m p of None \<Rightarrow> Map.empty | Some l \<Rightarrow> l)"
    by simp
  with Cons.IH [of ?m] show ?case
    by (simp only: fold_simps o_apply) (rule tighter_trans)
qed simp

lemma recordEditCuts_tighten: "cuts_tighten (vw st) (vw (recordEditCuts s i lost es st))"
proof (cases "lost = []")
  case False
  let ?m0 = "case get_editcut (vw st) s i of None \<Rightarrow> Map.empty | Some e \<Rightarrow> e"
  have "editcuts_of (vw st) s i p = (case ?m0 p of None \<Rightarrow> Map.empty | Some l \<Rightarrow> l)" for p
    by (simp add: editcuts_of_def split: option.splits)
  then have "tighter (editcuts_of (vw st) s' i' p) (editcuts_of (vw (recordEditCuts s i lost es st)) s' i' p)"
    for s' i' p
    using False recordEditCuts_fold [of ?m0 p "logs_of es" lost]
    by (auto simp: recordEditCuts_def Let_def get_cut_upd editcuts_of_def)
  then show ?thesis
    using False by (simp add: cuts_tighten_def cuts_of_def recordEditCuts_def Let_def get_cut_upd)
qed (simp add: recordEditCuts_def)

lemma drop_scope_tighten: "cuts_tighten (vw st) (vw (drop_scope s0 i named n s st))"
  by (auto simp: drop_scope_def Let_def cuts_tighten_def get_cut_upd cuts_of_def editcuts_of_def
      split: option.splits)

lemma drop_scopes_tighten: "cuts_tighten (vw st) (vw (fold (drop_scope s0 i named n) ss st))"
  by (induction ss arbitrary: st) (auto intro: cuts_tighten_trans drop_scope_tighten)

lemma dropAll_tighten: "cuts_tighten (vw st) (vw (dropAll s i es n st))"
proof -
  have "cuts_tighten v (v(KAdmit s i := None))" for v
    by (rule cuts_tighten_reads) (simp_all add: fun_eq_iff getters)
  then show ?thesis
    unfolding dropAll_def Let_def vw_del by (rule cuts_tighten_trans [OF drop_scopes_tighten])
qed

lemma admit_tighten: "cuts_tighten (vw st) (vw (admit s i r custom code st))"
  by (rule cuts_tighten_reads) (simp_all add: admit_def fun_eq_iff getters)

text \<open>A ban that drops everything leaves nothing of the logs it names or knew of.\<close>

lemma drop_scope_zero:
  assumes "cuts_of (vw (drop_scope s0 i named n s0 st)) s0 i l = Some m"
  shows "m = 0"
  using assms by (auto simp: drop_scope_def Let_def cuts_of_def get_cut_upd zero_logs_def split: option.splits if_splits)

end
