(* ===== verification/Apply.thy ===== *)
theory Apply
  imports Cuts
begin

text \<open>
  Applying decisions (lib/decisions/apply.js): one definition per case of \<open>applyOne\<close>, then
  \<open>applyOne\<close>, the decision list (\<open>listDecision\<close>) and \<open>applyNodes\<close>. A handler returns the view it
  leaves, or \<open>Inl TypeError\<close> where the code throws (a \<open>null\<close> buffer read as bytes). \<open>ctx\<close> holds
  what \<open>applyOne\<close> has read before its switch: the scope and its chain, the author, their role
  and the custom roles loaded so far.
\<close>

definition POLICIES :: "string list" where "POLICIES = [''auto'', ''everything'']"
definition HISTORY :: "string list" where "HISTORY = [''visible'', ''hidden'']"
definition MAX_HELPERS :: nat where "MAX_HELPERS = 8"
definition MAX_LISTED :: nat where "MAX_LISTED = 1000"
definition MAX_TYPES :: int where "MAX_TYPES = 32 * 1024"

definition validHelpers :: "string list \<Rightarrow> string list option" where
  "validHelpers ks =
     (if length ks > MAX_HELPERS \<or> \<not> list_all (\<lambda>k. length k = 64 \<and> list_all is_hexdigit k) ks
      then None else Some (uniq ks))"

text \<open>\<open>validLimit\<close> of lib/limit.js, on whole numbers.\<close>

definition validLimit :: "nat \<times> nat \<Rightarrow> bool" where
  "validLimit l \<longleftrightarrow> fst l \<ge> 1 \<and> snd l \<ge> 1"

record ctx =
  cx_scope :: scope
  cx_chain :: "string list"
  cx_author :: string
  cx_role :: "string option"
  cx_custom :: roles

definition truthy :: "string option \<Rightarrow> bool" where
  "truthy r \<longleftrightarrow> r \<noteq> None \<and> r \<noteq> Some []"

section \<open>The space and its members\<close>

definition do_space_init ::
  "env \<Rightarrow> bytes \<Rightarrow> nat \<Rightarrow> string \<Rightarrow> bytes option \<Rightarrow> bool \<Rightarrow> string \<Rightarrow> nat \<Rightarrow> bytes option \<Rightarrow> vstate \<Rightarrow> vstate" where
  "do_space_init E wr stamp name parent priv policy version proof st =
     (if get_meta (vw st) None \<noteq> None then st
      else if wr \<noteq> e_space E then st
      else case Identity_verify E proof (writerSignable wr (e_space E)) of None \<Rightarrow> st
      | Some (identity, device) \<Rightarrow>
          let owner = hex identity
          in put (KWriters owner) (VWriters [hex wr])
             (put (KWriter (hex wr)) (VWriter \<lparr>w_identity = owner, w_device = Some (hex device), w_indexer = True\<rparr>)
             (put (KMember None owner) (VMember \<lparr>mb_role = ''owner'', mb_by = owner, mb_stamp = stamp, mb_writer = None, mb_writerDevice = None\<rparr>)
             (put (KMeta None) (VMeta (no_meta\<lparr>mt_name := Some name, mt_owner := Some owner, mt_policy := Some policy,
                 mt_private := priv, mt_version := Some version, mt_parent := map_option hex parent, mt_stamp := Some stamp\<rparr>)) st))))"

definition do_member_add :: "ctx \<Rightarrow> nat \<Rightarrow> bytes \<Rightarrow> string \<Rightarrow> vstate \<Rightarrow> vstate" where
  "do_member_add cx stamp identity code st =
     (if cx_scope cx \<noteq> None \<or> \<not> can (cx_role cx) ''decide'' (cx_custom cx) then st
      else let i = hex identity
           in if truthy (roleIn (vw st) (cx_chain cx) i) \<or> get_banned (vw st) None i \<noteq> None then st
              else admit (cx_scope cx) i ''member'' (cx_custom cx) code
                     (put (KMember None i) (VMember \<lparr>mb_role = ''member'', mb_by = cx_author cx, mb_stamp = stamp,
                        mb_writer = None, mb_writerDevice = None\<rparr>) st))"

definition do_member_remove :: "env \<Rightarrow> ctx \<Rightarrow> nat \<Rightarrow> bytes \<Rightarrow> cut_entries \<Rightarrow> vstate \<Rightarrow> vstate" where
  "do_member_remove E cx stamp identity ct st =
     (let s = cx_scope cx; i = hex identity;
          role = roleIn (vw st) (cx_chain cx) i;
          custom = load (vw st) [role] (cx_custom cx)
      in if \<not> truthy role \<or> \<not> mayRemove (cx_role cx) role ''decide'' custom then st
         else if get_member (vw st) s i = None then st
         else let st1 = dropBelow s i (del (KMember s i) st);
                  after = roleIn (vw st1) (cx_chain cx) i;
                  custom1 = load (vw st1) [after] custom;
                  st2 = (if can role ''post'' custom1 \<and> \<not> can after ''post'' custom1
                         then recordCut s i ct stamp st1 else st1);
                  st3 = recordEditCuts s i (lostPermissions role after custom1) ct st2
              in fst (settle E i custom1 st3))"

definition do_role_define :: "ctx \<Rightarrow> nat \<Rightarrow> string \<Rightarrow> string list \<Rightarrow> vstate \<Rightarrow> vstate" where
  "do_role_define cx stamp name perms st =
     (if cx_scope cx \<noteq> None \<or> \<not> can (cx_role cx) ''roles'' (cx_custom cx) \<or> name = [] \<or> ROLES name \<noteq> None \<or> name \<in> set INHERITED then st
      else let permissions = uniq (filter (\<lambda>p. p \<noteq> []) perms)
           in if (case get_role (vw st) name of None \<Rightarrow> False
                  | Some e \<Rightarrow> list_ex (\<lambda>p. p \<notin> set OWN \<and> p \<notin> set permissions) (re_permissions e)) then st
              else if \<not> grantable (cx_role cx) permissions (cx_custom cx) then st
              else put (KRole name) (VRole \<lparr>re_permissions = permissions, re_by = cx_author cx, re_stamp = stamp\<rparr>) st)"

definition do_role_set :: "env \<Rightarrow> ctx \<Rightarrow> nat \<Rightarrow> bytes \<Rightarrow> string \<Rightarrow> cut_entries \<Rightarrow> string \<Rightarrow> vstate \<Rightarrow> vstate" where
  "do_role_set E cx stamp identity role ct code st =
     (let s = cx_scope cx; i = hex identity
      in if bannedIn (vw st) (cx_chain cx) i then st
         else let m = memberIn (vw st) (cx_chain cx) i;
                  current = map_option mb_role m;
                  custom = load (vw st) [current, Some role] (cx_custom cx)
              in if \<not> mayAssign (cx_role cx) current role custom then st
                 else let wr = (case m of None \<Rightarrow> None | Some x \<Rightarrow> mb_writer x);
                          wd = (case m of None \<Rightarrow> None | Some x \<Rightarrow> mb_writerDevice x);
                          st1 = put (KMember s i) (VMember \<lparr>mb_role = role, mb_by = cx_author cx, mb_stamp = stamp,
                                  mb_writer = wr, mb_writerDevice = wd\<rparr>) st;
                          st2 = admit s i role custom code st1;
                          st3 = (if truthy current \<and> can current ''post'' custom \<and> \<not> can (Some role) ''post'' custom
                                 then recordCut s i ct stamp st2 else st2);
                          st4 = (if truthy current
                                 then recordEditCuts s i (lostPermissions current (Some role) custom) ct st3 else st3);
                          st5 = (case wr of None \<Rightarrow> st4
                                 | Some key \<Rightarrow> if mayWrite (Some role) custom then snd (addKey i key wd st4) else st4)
                      in fst (settle E i custom st5))"

text \<open>A role every object inherits: \<open>mayAssign\<close> reaches its permissions, which are no list, in
  \<open>grantable\<close>, and, for the owner, \<open>admit\<close> does.\<close>

definition role_set_throws :: "ctx \<Rightarrow> bytes \<Rightarrow> string \<Rightarrow> vstate \<Rightarrow> bool" where
  "role_set_throws cx identity role st \<longleftrightarrow>
     role \<in> set INHERITED \<and> \<not> bannedIn (vw st) (cx_chain cx) (hex identity) \<and>
     (let current = roleIn (vw st) (cx_chain cx) (hex identity);
          custom = load (vw st) [current, Some role] (cx_custom cx)
      in can (cx_role cx) ''roles'' custom \<and> current \<noteq> Some ''owner'' \<and>
         (cx_role cx = Some ''owner'' \<or> \<not> (truthy current \<and> rankOf current \<ge> rankOf (cx_role cx))))"

section \<open>Moderation\<close>

text \<open>A ban that counts: of a member of this scope (\<open>Some\<close> role), or of someone with no role here.\<close>

definition ban_effect :: "env \<Rightarrow> ctx \<Rightarrow> nat \<Rightarrow> string \<Rightarrow> string \<Rightarrow> cut_entries \<Rightarrow> string option \<Rightarrow> string option \<Rightarrow> roles \<Rightarrow> vstate \<Rightarrow> vstate" where
  "ban_effect E cx stamp i reason ct drp role custom st =
     (let s = cx_scope cx;
          st1 = put (KBanned s i) (VBanned \<lparr>bn_by = cx_author cx, bn_reason = reason, bn_stamp = stamp,
                  bn_drop = (drp = Some ''all'')\<rparr>) st
      in if \<not> truthy role
         then let st2 = (if ct \<noteq> [] then recordCut s i ct stamp st1 else st1);
                  st3 = (if drp = Some ''all'' then dropAll s i ct stamp st2 else st2)
              in fst (settle E i custom st3)
         else let st2 = del (KMember s i) st1;
                  st3 = (if can role ''post'' custom then recordCut s i ct stamp st2 else st2);
                  st4 = recordEditCuts s i (lostPermissions role None custom) ct st3;
                  st5 = (if drp = Some ''all'' then dropAll s i ct stamp st4 else st4)
              in fst (settle E i custom st5))"

definition do_ban :: "env \<Rightarrow> ctx \<Rightarrow> nat \<Rightarrow> bytes option \<Rightarrow> string \<Rightarrow> cut_entries \<Rightarrow> string option \<Rightarrow> vstate \<Rightarrow> js_error + vstate" where
  "do_ban E cx stamp target reason ct drp st =
     (case target of None \<Rightarrow> Inl TypeError
      | Some t \<Rightarrow>
          if length t \<noteq> 32 then Inr st
          else let s = cx_scope cx; i = hex t
               in if get_banned (vw st) s i \<noteq> None
                  then Inr (if drp = Some ''all'' then dropAll s i ct stamp st else st)
                  else let role = roleIn (vw st) (cx_chain cx) i;
                           custom = load (vw st) [role] (cx_custom cx)
                       in if \<not> mayRemove (cx_role cx) role ''moderate'' custom then Inr st
                          else Inr (ban_effect E cx stamp i reason ct drp role custom st))"

definition do_unban :: "ctx \<Rightarrow> bytes option \<Rightarrow> vstate \<Rightarrow> js_error + vstate" where
  "do_unban cx target st =
     (case target of None \<Rightarrow> Inl TypeError
      | Some t \<Rightarrow>
          if length t \<noteq> 32 then Inr st
          else let s = cx_scope cx; i = hex t
               in case get_banned (vw st) s i of None \<Rightarrow> Inr st
               | Some b \<Rightarrow>
                   let byRole = roleIn (vw st) (cx_chain cx) (bn_by b)
                   in if cx_role cx \<noteq> Some ''owner'' \<and> truthy byRole \<and> rankOf byRole > rankOf (cx_role cx)
                      then Inr st else Inr (del (KBanned s i) st))"

definition mark :: "string \<Rightarrow> moderation \<Rightarrow> moderation" where
  "mark action m =
     (if action = ''flag'' then m\<lparr>md_flagged := True\<rparr>
      else if action = ''hide'' then m\<lparr>md_hidden := True\<rparr>
      else if action = ''reveal'' then m\<lparr>md_hidden := False\<rparr>
      else if action = ''remove'' then m\<lparr>md_removed := True\<rparr>
      else m)"

definition do_mark :: "env \<Rightarrow> ctx \<Rightarrow> string \<Rightarrow> bytes option \<Rightarrow> vstate \<Rightarrow> vstate" where
  "do_mark E cx action target st =
     (case target of None \<Rightarrow> st
      | Some t \<Rightarrow>
          if \<not> e_decode_recordId E t then st
          else let s = cx_scope cx; r = hex t;
                   m = (case get_mod (vw st) s r of None \<Rightarrow> not_moderated | Some x \<Rightarrow> x)
               in if md_removed m then st else put (KMod s r) (VMod (mark action m)) st)"

definition do_moderate :: "env \<Rightarrow> ctx \<Rightarrow> nat \<Rightarrow> string \<Rightarrow> bytes option \<Rightarrow> string \<Rightarrow> cut_entries \<Rightarrow> string option \<Rightarrow> vstate \<Rightarrow> js_error + vstate" where
  "do_moderate E cx stamp action target reason ct drp st =
     (if action \<notin> set ACTIONS \<or> \<not> can (cx_role cx) ''moderate'' (cx_custom cx) then Inr st
      else if action = ''ban'' then do_ban E cx stamp target reason ct drp st
      else if action = ''unban'' then do_unban cx target st
      else Inr (do_mark E cx action target st))"

section \<open>Invites\<close>

definition scope_key :: "env \<Rightarrow> scope \<Rightarrow> bytes" where
  "scope_key E s = (case s of None \<Rightarrow> e_space E | Some h \<Rightarrow> unhex h)"

text \<open>The role the invite gives in one of the sub-spaces it lists.\<close>

definition route :: "invite \<Rightarrow> scope \<Rightarrow> (string \<times> scope \<times> bool) list \<Rightarrow> string \<Rightarrow> nat \<Rightarrow> roles \<Rightarrow> string \<Rightarrow> string \<Rightarrow> vstate \<Rightarrow> vstate" where
  "route iv s subs i stamp custom code key st =
     (if \<not> below subs key s then st
      else case chainOf (vw st) (Some key) of None \<Rightarrow> st
      | Some chain \<Rightarrow>
          if bannedIn (vw st) chain i then st
          else case memberIn (vw st) chain (hex (iv_maker iv)) of None \<Rightarrow> st
          | Some mk \<Rightarrow>
              if \<not> mayInvite (Some (mb_role mk)) (iv_role iv) custom then st
              else if (case memberIn (vw st) chain i of None \<Rightarrow> False
                       | Some m \<Rightarrow> rankOf (Some (mb_role m)) \<ge> rankOf (Some (iv_role iv))) then st
              else if (case get_member (vw st) (Some key) i of None \<Rightarrow> False
                       | Some m \<Rightarrow> rankOf (Some (mb_role m)) \<ge> rankOf (Some (iv_role iv))) then st
              else admit (Some key) i (iv_role iv) custom code
                     (put (KMember (Some key) i) (VMember \<lparr>mb_role = iv_role iv, mb_by = hex (iv_maker iv),
                        mb_stamp = stamp, mb_writer = None, mb_writerDevice = None\<rparr>) st))"

definition redeem_here :: "env \<Rightarrow> ctx \<Rightarrow> nat \<Rightarrow> redemption \<Rightarrow> bytes \<Rightarrow> string \<Rightarrow> roles \<Rightarrow> vstate \<Rightarrow> vstate \<times> roles" where
  "redeem_here E cx stamp r device code custom st =
     (let s = cx_scope cx; iv = rd_invite r; i = hex (rd_identity r);
          m = memberIn (vw st) (cx_chain cx) i;
          custom1 = (case m of None \<Rightarrow> custom | Some x \<Rightarrow> load (vw st) [Some (mb_role x)] custom)
      in if m = None \<or> rankOf (map_option mb_role m) < rankOf (Some (iv_role iv))
         then let key = hex (rd_writer r); dev = hex device;
                  st1 = put (KMember s i) (VMember \<lparr>mb_role = iv_role iv, mb_by = hex (iv_maker iv), mb_stamp = stamp,
                          mb_writer = Some key, mb_writerDevice = Some dev\<rparr>) st;
                  st2 = admit s i (iv_role iv) custom1 code st1;
                  st3 = (if mayWrite (Some (iv_role iv)) custom1 then snd (addKey i key (Some dev) st2) else st2)
              in settle E i custom1 st3
         else (st, custom1))"

definition redeem_effect :: "env \<Rightarrow> ctx \<Rightarrow> nat \<Rightarrow> redemption \<Rightarrow> bytes \<Rightarrow> string \<Rightarrow> string \<Rightarrow> nat \<Rightarrow> roles \<Rightarrow> vstate \<Rightarrow> vstate" where
  "redeem_effect E cx stamp r device code inviteId used custom st =
     (let s = cx_scope cx; iv = rd_invite r; i = hex (rd_identity r);
          (st1, custom1) = redeem_here E cx stamp r device code custom st;
          subs = subspacesOf (vw st1);
          st2 = fold (route iv s subs i stamp custom1 code) (map hex (iv_subspaces iv)) st1
      in put (KUses s inviteId) (VUses (used + 1))
           (put (KRedeemed s inviteId i) (VRedeemed stamp (cx_author cx)) st2))"

text \<open>The checks of a redemption that hold whoever records it, in the code's order.\<close>

definition redeem_refused :: "env \<Rightarrow> ctx \<Rightarrow> nat \<Rightarrow> redemption \<Rightarrow> string \<Rightarrow> vstate \<Rightarrow> bool" where
  "redeem_refused E cx stamp r inviteId st \<longleftrightarrow>
     (let s = cx_scope cx; iv = rd_invite r; i = hex (rd_identity r);
          used = (case get_uses (vw st) s inviteId of None \<Rightarrow> 0 | Some n \<Rightarrow> n)
      in bannedIn (vw st) (cx_chain cx) i
         \<or> get_redeemed (vw st) s inviteId i \<noteq> None
         \<or> get_revoked (vw st) s inviteId \<noteq> None
         \<or> (iv_expires iv \<noteq> 0 \<and> stamp > iv_expires iv)
         \<or> (iv_uses iv \<noteq> 0 \<and> used \<ge> iv_uses iv))"

text \<open>An invite to a role every object inherits: \<open>mayInvite\<close> throws in \<open>grantable\<close>, unless its maker is an owner;
  then it is given, which throws in \<open>admit\<close>, but for a member, whose rank compares with none.\<close>

definition route_throws :: "invite \<Rightarrow> scope \<Rightarrow> (string \<times> scope \<times> bool) list \<Rightarrow> string \<Rightarrow> roles \<Rightarrow> view \<Rightarrow> string \<Rightarrow> bool" where
  "route_throws iv s subs i custom v key \<longleftrightarrow> below subs key s \<and>
     (case chainOf v (Some key) of None \<Rightarrow> False
      | Some chain \<Rightarrow> \<not> bannedIn v chain i \<and>
          (case memberIn v chain (hex (iv_maker iv)) of None \<Rightarrow> False
           | Some mk \<Rightarrow> can (Some (mb_role mk)) ''invite'' custom))"

definition redeem_inherited :: "ctx \<Rightarrow> nat \<Rightarrow> redemption \<Rightarrow> string \<Rightarrow> nat \<Rightarrow> string option \<Rightarrow> roles \<Rightarrow> vstate \<Rightarrow> js_error + vstate" where
  "redeem_inherited cx stamp r inviteId used maker custom st =
     (let s = cx_scope cx; iv = rd_invite r; i = hex (rd_identity r)
      in if \<not> can maker ''invite'' custom then Inr st
         else case memberIn (vw st) (cx_chain cx) i of None \<Rightarrow> Inl TypeError
         | Some m \<Rightarrow>
             if maker \<noteq> Some ''owner'' \<or>
                list_ex (route_throws iv s (subspacesOf (vw st)) i (load (vw st) [Some (mb_role m)] custom) (vw st)) (map hex (iv_subspaces iv))
             then Inl TypeError
             else Inr (put (KUses s inviteId) (VUses (used + 1)) (put (KRedeemed s inviteId i) (VRedeemed stamp (cx_author cx)) st)))"

definition do_redeem :: "env \<Rightarrow> ctx \<Rightarrow> nat \<Rightarrow> bytes option \<Rightarrow> string \<Rightarrow> vstate \<Rightarrow> js_error + vstate" where
  "do_redeem E cx stamp rbytes code st =
     (if \<not> can (cx_role cx) ''decide'' (cx_custom cx) then Inr st
      else case Option.bind rbytes (e_decode_redemption E) of None \<Rightarrow> Inr st
      | Some r \<Rightarrow>
          (case verifyRedemption E r (e_space E) of
             Inl e \<Rightarrow> Inl e
           | Inr None \<Rightarrow> Inr st
           | Inr (Some (_, device)) \<Rightarrow>
               let iv = rd_invite r; s = cx_scope cx
               in if iv_space iv \<noteq> scope_key E s then Inr st
                  else (case iv_id iv of None \<Rightarrow> Inl TypeError
                  | Some idb \<Rightarrow>
                      if redeem_refused E cx stamp r (hex idb) st then Inr st
                      else let makerRole = roleIn (vw st) (cx_chain cx) (hex (iv_maker iv));
                               custom = load (vw st) [makerRole, Some (iv_role iv)] (cx_custom cx);
                               used = (case get_uses (vw st) s (hex idb) of None \<Rightarrow> 0 | Some n \<Rightarrow> n)
                           in if iv_role iv \<in> set INHERITED then redeem_inherited cx stamp r (hex idb) used makerRole custom st
                              else if \<not> mayInvite makerRole (iv_role iv) custom then Inr st
                              else Inr (redeem_effect E cx stamp r device code (hex idb) used custom st))))"

definition do_revoke :: "env \<Rightarrow> ctx \<Rightarrow> nat \<Rightarrow> bytes option \<Rightarrow> vstate \<Rightarrow> js_error + vstate" where
  "do_revoke E cx stamp ibytes st =
     (case Option.bind ibytes (e_decode_invite E) of None \<Rightarrow> Inr st
      | Some iv \<Rightarrow>
          if iv_space iv \<noteq> scope_key E (cx_scope cx) \<or> \<not> verifyInvite E iv (e_space E) then Inr st
          else if \<not> can (cx_role cx) ''decide'' (cx_custom cx) \<and> cx_author cx \<noteq> hex (iv_maker iv) then Inr st
          else (case iv_id iv of None \<Rightarrow> Inl TypeError
                | Some idb \<Rightarrow>
                    if get_revoked (vw st) (cx_scope cx) (hex idb) \<noteq> None then Inr st
                    else Inr (put (KRevoked (cx_scope cx) (hex idb)) (VRevoked (cx_author cx) stamp) st)))"

end
