(* ===== verification/Apply_Nodes.thy ===== *)
theory Apply_Nodes
  imports Apply
begin

text \<open>
  The rest of lib/decisions/apply.js: the decisions about the space itself (settings, types,
  logs, sub-spaces, keys, devices), \<open>applyOne\<close>, the decision list and \<open>applyNodes\<close>, which
  Autobase calls with the decisions in the order all members settle on.
\<close>

section \<open>Writers and devices\<close>

definition do_writer_add :: "env \<Rightarrow> ctx \<Rightarrow> bytes \<Rightarrow> bytes option \<Rightarrow> vstate \<Rightarrow> vstate" where
  "do_writer_add E cx key proof st =
     (if cx_scope cx \<noteq> None then st
      else case Identity_verify E proof (writerSignable key (e_space E)) of None \<Rightarrow> st
      | Some (identity, device) \<Rightarrow>
          if device = identity then st
          else let i = hex identity; (ok, custom) = writesAnywhere (vw st) i (cx_custom cx)
               in if \<not> ok then st
                  else let (added, st1) = addKey i (hex key) (Some (hex device)) st
                       in if added then fst (settle E i custom st1) else st1)"

definition do_device_remove :: "env \<Rightarrow> ctx \<Rightarrow> nat \<Rightarrow> bytes \<Rightarrow> bytes option \<Rightarrow> bytes option \<Rightarrow> vstate \<Rightarrow> js_error + vstate" where
  "do_device_remove E cx stamp device ct proof st =
     (if cx_scope cx \<noteq> None then Inr st
      else case removalSignable (e_space E) device ct of Inl e \<Rightarrow> Inl e
      | Inr data \<Rightarrow>
          (case Identity_verify E proof data of None \<Rightarrow> Inr st
           | Some (identity, dev) \<Rightarrow>
               if dev \<noteq> identity then Inr st
               else let i = hex identity; d = hex device
                    in if get_gone (vw st) i d \<noteq> None then Inr st
                       else let st1 = put (KGone i d) (VGone (cx_author cx) stamp) st;
                                dropped = filter (\<lambda>k. case get_writer (vw st1) k of None \<Rightarrow> False
                                                       | Some w \<Rightarrow> w_device w = Some d) (writersOf (vw st1) i);
                                st2 = fold (forget i) dropped st1;
                                (st3, _) = settle E i (cx_custom cx) st2
                            in Inr (fold (removeFromBase E) dropped st3)))"

section \<open>Settings\<close>

datatype limit_change = Keep | Lift | Limit "nat \<times> nat"

definition limit_change_of :: "(nat \<times> nat) option \<Rightarrow> limit_change" where
  "limit_change_of l =
     (case l of None \<Rightarrow> Keep
      | Some l \<Rightarrow> if fst l = 0 then Lift else if validLimit l then Limit l else Keep)"

text \<open>Texts are their UTF-8 bytes. JavaScript sorts them by UTF-16 units, in which what is beyond U+FFFF (first byte
  F0 and above) comes before U+E000 to U+FFFF (first byte EE or EF).\<close>

definition utf16_order :: "char \<Rightarrow> int" where
  "utf16_order c = (let b = of_char c in if b = 238 \<or> b = 239 then b + 16 else b)"

definition do_settings_set :: "ctx \<Rightarrow> string option \<Rightarrow> (nat \<times> nat) option \<Rightarrow> string list option \<Rightarrow> string option
    \<Rightarrow> string list option \<Rightarrow> bool option \<Rightarrow> vstate \<Rightarrow> vstate" where
  "do_settings_set cx dpolicy dlimit drules dhistory dhelpers dpublic st =
     (if \<not> can (cx_role cx) ''decide'' (cx_custom cx) then st
      else let s = cx_scope cx;
               policy = (case dpolicy of None \<Rightarrow> None | Some p \<Rightarrow> if p \<in> set POLICIES then Some p else None);
               rules = map_option (\<lambda>rs. sort_key (map utf16_order) (uniq rs)) drules;
               limit = limit_change_of dlimit;
               history = (case dhistory of None \<Rightarrow> None | Some h \<Rightarrow> if h \<in> set HISTORY then Some h else None);
               helpers = (case dhelpers of None \<Rightarrow> None
                          | Some hs \<Rightarrow> if cx_role cx = Some ''owner'' \<and> s = None then validHelpers hs else None);
               meta = get_meta (vw st) s;
               priv = (case s of None \<Rightarrow> (case meta of None \<Rightarrow> False | Some m \<Rightarrow> mt_private m)
                       | Some h \<Rightarrow> (case get_subspace (vw st) h of None \<Rightarrow> False | Some info \<Rightarrow> ss_private info));
               pub = (dpublic = Some True \<and> \<not> priv)
           in if policy = None \<and> rules = None \<and> limit = Keep \<and> history = None \<and> helpers = None \<and> \<not> pub then st
              else let m = (case meta of None \<Rightarrow> no_meta | Some m \<Rightarrow> m);
                       next = m\<lparr>mt_policy := or_else policy (mt_policy m), mt_rules := or_else rules (mt_rules m),
                                mt_history := or_else history (mt_history m), mt_helpers := or_else helpers (mt_helpers m),
                                mt_public := (pub \<or> mt_public m),
                                mt_writeLimit := (case limit of Keep \<Rightarrow> mt_writeLimit m | Lift \<Rightarrow> None | Limit l \<Rightarrow> Some l)\<rparr>
                   in put (KMeta s) (VMeta next) st)"

section \<open>Types, logs, sub-spaces, keys\<close>

definition do_types_set :: "env \<Rightarrow> ctx \<Rightarrow> nat \<Rightarrow> string \<Rightarrow> vstate \<Rightarrow> vstate" where
  "do_types_set E cx dversion types st =
     (if cx_scope cx \<noteq> None \<or> \<not> can (cx_role cx) ''decide'' (cx_custom cx) then st
      else if int (length types) > MAX_TYPES then st
      else let version = (case get_types (vw st) of None \<Rightarrow> 0 | Some n \<Rightarrow> n)
           in if dversion \<noteq> version + 1 then st
              else if version \<noteq> 0 \<and> get_types_at (vw st) version = None then st
              else case e_types_next E (if version = 0 then None else get_types_at (vw st) version) types of
                None \<Rightarrow> st
              | Some text \<Rightarrow> put KTypes (VTypes dversion) (put (KTypesAt dversion) (VTypesAt text) st))"

definition do_logs_list :: "ctx \<Rightarrow> (bytes \<times> bytes) list \<Rightarrow> vstate \<Rightarrow> vstate" where
  "do_logs_list cx logs st =
     (if cx_scope cx \<noteq> None \<or> \<not> mayWrite (cx_role cx) (cx_custom cx) then st
      else fold (\<lambda>(space, log) st.
             if get_listed (vw st) (hex log) = None then put (KListed (hex log)) (VListed (hex space)) st else st)
             (take MAX_LISTED logs) st)"

definition do_subspace_create :: "env \<Rightarrow> ctx \<Rightarrow> nat \<Rightarrow> bytes \<Rightarrow> string \<Rightarrow> bool \<Rightarrow> string list \<Rightarrow> vstate \<Rightarrow> vstate" where
  "do_subspace_create E cx stamp keyb name priv wroles st =
     (if \<not> can (cx_role cx) ''decide'' (cx_custom cx) then st
      else let key = hex keyb
           in if keyb = e_space E \<or> get_subspace (vw st) key \<noteq> None then st
              else let st1 = put (KSubspace key) (VSubspace \<lparr>ss_name = name, ss_private = priv,
                               ss_writeRoles = uniq (filter (\<lambda>r. r \<noteq> []) wroles), ss_parent = cx_scope cx,
                               ss_by = cx_author cx, ss_stamp = stamp\<rparr>) st
                   in put KSubspaces (VSubspaces (sub_keys (vw st1) @ [key])) st1)"

definition do_key_rotate :: "ctx \<Rightarrow> nat \<Rightarrow> bytes \<Rightarrow> vstate \<Rightarrow> vstate" where
  "do_key_rotate cx epoch commitb st =
     (if \<not> mayWrite (cx_role cx) (cx_custom cx) then st
      else let s = cx_scope cx;
               priv = (case s of None \<Rightarrow> (case get_meta (vw st) None of None \<Rightarrow> False | Some m \<Rightarrow> mt_private m)
                       | Some h \<Rightarrow> (case get_subspace (vw st) h of None \<Rightarrow> False | Some info \<Rightarrow> ss_private info))
           in if \<not> priv then st
              else let ep = (case get_epochs (vw st) s of None \<Rightarrow> no_epochs | Some e \<Rightarrow> e);
                       commit = hex commitb
                   in if int epoch = ep_current ep + 1
                      then put (KEpochs s) (VEpochs (ep\<lparr>ep_current := int epoch, ep_commits := (ep_commits ep)(epoch \<mapsto> commit)\<rparr>)) st
                      else if int epoch \<le> ep_current ep \<and> ep_commits ep epoch \<noteq> Some commit
                              \<and> (case ep_others ep commit of None \<Rightarrow> True | Some n \<Rightarrow> n = 0)
                      then put (KEpochs s) (VEpochs (ep\<lparr>ep_others := (ep_others ep)(commit \<mapsto> epoch)\<rparr>)) st
                      else st)"

section \<open>One decision\<close>

text \<open>\<open>applyOne\<close> after its \<open>space/init\<close> case, with the author's context read.\<close>

definition dispatch :: "env \<Rightarrow> decision \<Rightarrow> ctx \<Rightarrow> string \<Rightarrow> vstate \<Rightarrow> js_error + vstate" where
  "dispatch E d cx code st =
     (let n = d_stamp d
      in case d_body d of
        MemberAdd i \<Rightarrow> Inr (do_member_add cx n i code st)
      | MemberRemove i ct \<Rightarrow> Inr (do_member_remove E cx n i ct st)
      | RoleDefine name perms \<Rightarrow> Inr (do_role_define cx n name perms st)
      | RoleSet i role ct \<Rightarrow>
          if role_set_throws cx i role st then Inl TypeError else Inr (do_role_set E cx n i role ct code st)
      | Moderate action target reason ct drp \<Rightarrow> do_moderate E cx n action target reason ct drp st
      | InviteRedeem r \<Rightarrow> do_redeem E cx n r code st
      | InviteRevoke iv \<Rightarrow> do_revoke E cx n iv st
      | WriterAdd key proof \<Rightarrow> Inr (do_writer_add E cx key proof st)
      | SettingsSet p l r h hs pb \<Rightarrow> Inr (do_settings_set cx p l r h hs pb st)
      | TypesSet v t \<Rightarrow> Inr (do_types_set E cx v t st)
      | LogsList logs \<Rightarrow> Inr (do_logs_list cx logs st)
      | SubspaceCreate k name priv wr \<Rightarrow> Inr (do_subspace_create E cx n k name priv wr st)
      | KeyRotate ep commit \<Rightarrow> Inr (do_key_rotate cx ep commit st)
      | DeviceRemove dv ct proof \<Rightarrow> do_device_remove E cx n dv ct proof st
      | SpaceInit _ _ _ _ _ _ \<Rightarrow> Inr st
      | InviteCreate _ \<Rightarrow> Inr st
      | Scoped _ _ \<Rightarrow> Inr st)"

definition scope_of :: "string list \<Rightarrow> scope" where
  "scope_of chain = (case chain of [] \<Rightarrow> None | s # _ \<Rightarrow> Some s)"

definition ctx_of :: "view \<Rightarrow> string list \<Rightarrow> string \<Rightarrow> ctx" where
  "ctx_of v chain author =
     (let role = roleIn v chain author
      in \<lparr>cx_scope = scope_of chain, cx_chain = chain, cx_author = author, cx_role = role,
          cx_custom = load v [role] Map.empty\<rparr>)"

definition applyOne :: "env \<Rightarrow> decision \<Rightarrow> bytes \<Rightarrow> string list \<Rightarrow> string \<Rightarrow> vstate \<Rightarrow> js_error + vstate" where
  "applyOne E d wr chain code st =
     (case d_body d of
        SpaceInit name parent priv policy version proof \<Rightarrow>
          Inr (do_space_init E wr (d_stamp d) name parent priv policy version proof st)
      | _ \<Rightarrow>
          (case get_writer (vw st) (hex wr) of None \<Rightarrow> Inr st
           | Some w \<Rightarrow> dispatch E d (ctx_of (vw st) chain (w_identity w)) code st))"

section \<open>The decision list\<close>

definition type_of :: "decision_body \<Rightarrow> string" where
  "type_of b =
     (case b of
        SpaceInit _ _ _ _ _ _ \<Rightarrow> ''space/init'' | MemberAdd _ \<Rightarrow> ''member/add''
      | MemberRemove _ _ \<Rightarrow> ''member/remove'' | RoleDefine _ _ \<Rightarrow> ''role/define''
      | RoleSet _ _ _ \<Rightarrow> ''role/set'' | Moderate _ _ _ _ _ \<Rightarrow> ''moderate''
      | InviteCreate _ \<Rightarrow> ''invite/create'' | InviteRevoke _ \<Rightarrow> ''invite/revoke''
      | InviteRedeem _ \<Rightarrow> ''invite/redeem'' | KeyRotate _ _ \<Rightarrow> ''key/rotate''
      | SubspaceCreate _ _ _ _ \<Rightarrow> ''subspace/create'' | SettingsSet _ _ _ _ _ _ \<Rightarrow> ''settings/set''
      | WriterAdd _ _ \<Rightarrow> ''writer/add'' | DeviceRemove _ _ _ \<Rightarrow> ''device/remove''
      | Scoped _ _ \<Rightarrow> ''scoped'' | LogsList _ \<Rightarrow> ''logs/list'' | TypesSet _ _ \<Rightarrow> ''types/set'')"

definition SCOPED :: "string list" where
  "SCOPED = [''member/remove'', ''role/set'', ''moderate'', ''invite/redeem'', ''invite/revoke'',
     ''key/rotate'', ''settings/set'', ''subspace/create'']"

text \<open>Invites and redemptions that do not decode, or whose id is \<open>null\<close>, say nothing: the code
  catches the exception. A moderation's target is read outside any \<open>try\<close>.\<close>

definition details_of :: "env \<Rightarrow> decision_body \<Rightarrow> js_error + details" where
  "details_of E b =
     (case b of
        SpaceInit name _ _ policy _ _ \<Rightarrow> Inr (DInit name policy)
      | MemberAdd i \<Rightarrow> Inr (DIdentity (hex i))
      | MemberRemove i _ \<Rightarrow> Inr (DIdentity (hex i))
      | RoleDefine name perms \<Rightarrow> Inr (DRoleDefine name perms)
      | RoleSet i role _ \<Rightarrow> Inr (DRoleSet (hex i) role)
      | Moderate action target reason _ drp \<Rightarrow>
          (case target of None \<Rightarrow> Inl TypeError
           | Some t \<Rightarrow> Inr (DModerate action (hex t) reason (if drp = Some [] then None else drp)))
      | InviteRedeem rb \<Rightarrow>
          Inr (case Option.bind rb (e_decode_redemption E) of None \<Rightarrow> DNone
               | Some r \<Rightarrow> (case iv_id (rd_invite r) of None \<Rightarrow> DNone
                  | Some i \<Rightarrow> DRedeem (hex (rd_identity r)) (iv_role (rd_invite r)) (hex i) (hex (iv_maker (rd_invite r)))))
      | InviteRevoke ib \<Rightarrow>
          Inr (case Option.bind ib (e_decode_invite E) of None \<Rightarrow> DNone
               | Some iv \<Rightarrow> (case iv_id iv of None \<Rightarrow> DNone
                  | Some i \<Rightarrow> DRevoke (hex i) (iv_role iv) (hex (iv_maker iv))))
      | SettingsSet p _ r h hs pb \<Rightarrow> Inr (DSettings p r h hs pb)
      | TypesSet v _ \<Rightarrow> Inr (DTypes v)
      | WriterAdd k _ \<Rightarrow> Inr (DKey (hex k))
      | DeviceRemove dv _ _ \<Rightarrow> Inr (DRemoved (hex dv))
      | SubspaceCreate k name priv _ \<Rightarrow> Inr (DSubspace (hex k) name priv)
      | KeyRotate ep _ \<Rightarrow> Inr (DEpoch ep)
      | InviteCreate _ \<Rightarrow> Inr DNone
      | Scoped _ _ \<Rightarrow> Inr DNone
      | LogsList _ \<Rightarrow> Inr DNone)"

definition listDecision :: "env \<Rightarrow> decision \<Rightarrow> bytes \<Rightarrow> writer_info option \<Rightarrow> bool \<Rightarrow> scope \<Rightarrow> vstate \<Rightarrow> js_error + vstate" where
  "listDecision E d wr w counted s st =
     (case details_of E (d_body d) of Inl e \<Rightarrow> Inl e
      | Inr det \<Rightarrow>
          let n = (case get_count (vw st) of None \<Rightarrow> 0 | Some k \<Rightarrow> k);
              entry = \<lparr>le_type = type_of (d_body d), le_at = d_stamp d, le_writer = hex wr,
                        le_by = map_option w_identity w, le_device = Option.bind w w_device,
                        le_counted = counted, le_details = det, le_space = s\<rparr>;
              entry1 = (if type_of (d_body d) = ''space/init'' \<and> counted
                        then entry\<lparr>le_by := Option.bind (get_meta (vw st) None) mt_owner,
                                   le_device := Option.bind (get_writer (vw st) (hex wr)) w_device\<rparr>
                        else entry)
          in Inr (st\<lparr>vw := (vw st)(KLog n \<mapsto> VLog entry1, KCount \<mapsto> VCount (n + 1))\<rparr>))"

section \<open>The nodes\<close>

text \<open>
  One node of Autobase's order: the entry's bytes and the writer's key. A sub-space's decision
  is unwrapped first; one that may not be decided there (\<open>ignored\<close>), or whose sub-space is not
  one, is listed and not applied.
\<close>

definition unwrap :: "env \<Rightarrow> decision \<Rightarrow> (scope \<times> decision \<times> bool) option" where
  "unwrap E d0 =
     (case d_body d0 of
        Scoped sp inner \<Rightarrow>
          (case Option.bind inner (e_decode_decision E) of None \<Rightarrow> None
           | Some d \<Rightarrow> Some (Some (hex sp), d, type_of (d_body d) \<notin> set SCOPED))
      | _ \<Rightarrow> Some (None, d0, False))"

definition applyNode :: "env \<Rightarrow> bytes \<times> bytes \<Rightarrow> vstate \<Rightarrow> js_error + vstate" where
  "applyNode E node st =
     (case e_decode_decision E (fst node) of None \<Rightarrow> Inr st
      | Some d0 \<Rightarrow>
          (case unwrap E d0 of None \<Rightarrow> Inr st
           | Some (s, d, ignored) \<Rightarrow>
               let before = get_writer (vw st) (hex (snd node));
                   code = hex (e_hash E (snd node @ fst node))
               in case (case chainOf (vw st) s of
                          None \<Rightarrow> Inr st
                        | Some chain \<Rightarrow>
                            if ignored then Inr st
                            else applyOne E d (snd node) chain code (st\<lparr>writes := 0\<rparr>)) of
                    Inl e \<Rightarrow> Inl e
                  | Inr st1 \<Rightarrow>
                      let counted = (chainOf (vw st) s \<noteq> None \<and> \<not> ignored \<and> writes st1 > 0)
                      in if type_of (d_body d) = ''logs/list'' then Inr st1
                         else listDecision E d (snd node) before counted s st1))"

fun applyNodes :: "env \<Rightarrow> (bytes \<times> bytes) list \<Rightarrow> vstate \<Rightarrow> js_error + vstate" where
  "applyNodes E [] st = Inr st"
| "applyNodes E (n # ns) st = (case applyNode E n st of Inl e \<Rightarrow> Inl e | Inr st1 \<Rightarrow> applyNodes E ns st1)"

definition empty_vstate :: vstate where
  "empty_vstate = \<lparr>vw = Map.empty, writes = 0, host = []\<rparr>"

text \<open>The states a space's decision log can be in.\<close>

inductive reachable :: "env \<Rightarrow> vstate \<Rightarrow> bool" for E where
  empty: "reachable E empty_vstate"
| node: "reachable E st \<Longrightarrow> applyNode E n st = Inr st1 \<Longrightarrow> reachable E st1"

lemma applyNodes_reachable: "reachable E st \<Longrightarrow> applyNodes E ns st = Inr st1 \<Longrightarrow> reachable E st1"
  by (induction ns arbitrary: st) (auto split: sum.splits intro: reachable.node)

lemma applyNodes_append:
  "applyNodes E (ms @ ns) st = (case applyNodes E ms st of Inl e \<Rightarrow> Inl e | Inr st1 \<Rightarrow> applyNodes E ns st1)"
  by (induction ms arbitrary: st) (auto split: sum.splits)

end
