(* ===== verification/Steps.thy ===== *)
theory Steps
  imports Apply_Nodes
begin

text \<open>
  What one decision can do to a space, as a sequence of small permitted writes: \<open>vstep ow v w\<close>
  is one of them, in a space owned by \<open>ow\<close>. \<open>applyOne_steps\<close> shows that applying any decision,
  to any view of a space that has begun, is a sequence of these steps; the invariants and the
  one-way facts of the later theories are proved on the steps alone.
\<close>

definition private_scope :: "view \<Rightarrow> scope \<Rightarrow> bool" where
  "private_scope v s =
     (case s of None \<Rightarrow> (case get_meta v None of None \<Rightarrow> False | Some m \<Rightarrow> mt_private m)
      | Some h \<Rightarrow> (case get_subspace v h of None \<Rightarrow> False | Some info \<Rightarrow> ss_private info))"

inductive vstep :: "string \<Rightarrow> view \<Rightarrow> view \<Rightarrow> bool" for ow where
  member_put: "i \<noteq> ow \<Longrightarrow> mb_role m \<noteq> ''owner'' \<Longrightarrow> mb_role m \<noteq> [] \<Longrightarrow>
     (s = None \<Longrightarrow> get_banned v None i = None) \<Longrightarrow> vstep ow v (v(KMember s i \<mapsto> VMember m))"
| member_del: "i \<noteq> ow \<Longrightarrow> vstep ow v (v(KMember s i := None))"
| ban_put: "i \<noteq> ow \<Longrightarrow> (\<And>m. s = None \<Longrightarrow> get_member v None i = Some m \<Longrightarrow> mb_role m = []) \<Longrightarrow>
     vstep ow v (v(KBanned s i \<mapsto> VBanned b))"
| ban_out: "i \<noteq> ow \<Longrightarrow> vstep ow v (v(KBanned s i \<mapsto> VBanned b, KMember s i := None))"
| ban_del: "vstep ow v (v(KBanned s i := None))"
| cuts: "(\<And>k. \<not> cut_kind k \<Longrightarrow> w k = v k) \<Longrightarrow> cuts_tighten v w \<Longrightarrow>
     (well_typed v \<Longrightarrow> well_typed w) \<Longrightarrow> vstep ow v w"
| keys: "(\<And>k. \<not> writer_kind k \<Longrightarrow> \<not> is_KGone k \<Longrightarrow> w k = v k) \<Longrightarrow>
     (\<And>i d x. get_gone v i d = Some x \<Longrightarrow> get_gone w i d = Some x) \<Longrightarrow>
     (writers_ok v \<Longrightarrow> writers_ok w) \<Longrightarrow> (well_typed v \<Longrightarrow> well_typed w) \<Longrightarrow> vstep ow v w"
| role_put: "ROLES r = None \<Longrightarrow> r \<noteq> [] \<Longrightarrow>
     (\<And>e. get_role v r = Some e \<Longrightarrow> set (re_permissions e) - set OWN \<subseteq> set (re_permissions x)) \<Longrightarrow>
     vstep ow v (v(KRole r \<mapsto> VRole x))"
| mod_put: "(\<And>m. get_mod v s r = Some m \<Longrightarrow> \<not> md_removed m) \<Longrightarrow> vstep ow v (v(KMod s r \<mapsto> VMod m'))"
| redeem: "get_redeemed v s n i = None \<Longrightarrow>
     u = (case get_uses v s n of None \<Rightarrow> 0 | Some k \<Rightarrow> k) \<Longrightarrow>
     vstep ow v (v(KRedeemed s n i \<mapsto> VRedeemed t a, KUses s n \<mapsto> VUses (u + 1)))"
| revoke: "get_revoked v s n = None \<Longrightarrow> vstep ow v (v(KRevoked s n \<mapsto> VRevoked a t))"
| meta_put: "(\<And>m. get_meta v s = Some m \<Longrightarrow> mt_owner m' = mt_owner m \<and> mt_private m' = mt_private m
        \<and> (mt_public m \<longrightarrow> mt_public m')) \<Longrightarrow>
     (s = None \<Longrightarrow> get_meta v None \<noteq> None) \<Longrightarrow>
     (\<And>h. s = Some h \<Longrightarrow> get_subspace v h \<noteq> None) \<Longrightarrow>
     (mt_public m' \<Longrightarrow> (\<exists>m. get_meta v s = Some m \<and> mt_public m) \<or> \<not> private_scope v s) \<Longrightarrow>
     vstep ow v (v(KMeta s \<mapsto> VMeta m'))"
| epochs: "e = (case get_epochs v s of None \<Rightarrow> no_epochs | Some e \<Rightarrow> e) \<Longrightarrow>
     (ep_current e' = ep_current e \<and> ep_commits e' = ep_commits e) \<or>
     (int n = ep_current e + 1 \<and> ep_current e' = int n \<and> ep_commits e' = (ep_commits e)(n \<mapsto> c)) \<Longrightarrow>
     vstep ow v (v(KEpochs s \<mapsto> VEpochs e'))"
| subspace: "get_subspace v h = None \<Longrightarrow> (\<And>p. ss_parent info = Some p \<Longrightarrow> get_subspace v p \<noteq> None) \<Longrightarrow>
     vstep ow v (v(KSubspace h \<mapsto> VSubspace info, KSubspaces \<mapsto> VSubspaces (sub_keys v @ [h])))"
| listed: "get_listed v l = None \<Longrightarrow> vstep ow v (v(KListed l \<mapsto> VListed x))"
| types: "n = (case get_types v of None \<Rightarrow> 0 | Some k \<Rightarrow> k) \<Longrightarrow>
     vstep ow v (v(KTypesAt (n + 1) \<mapsto> VTypesAt t, KTypes \<mapsto> VTypes (n + 1)))"

abbreviation vsteps :: "string \<Rightarrow> view \<Rightarrow> view \<Rightarrow> bool" where
  "vsteps ow \<equiv> (vstep ow)\<^sup>*\<^sup>*"

section \<open>The owner\<close>

text \<open>
  A space that has begun: its settings name the owner, who is a member with the role \<open>owner\<close>,
  the only one, has no entry in any sub-space and is banned nowhere.
\<close>

definition owned :: "view \<Rightarrow> string \<Rightarrow> bool" where
  "owned v ow \<longleftrightarrow>
     (\<exists>m. get_meta v None = Some m \<and> mt_owner m = Some ow) \<and>
     (\<exists>x. get_member v None ow = Some x \<and> mb_role x = ''owner'') \<and>
     (\<forall>s. get_banned v s ow = None) \<and>
     (\<forall>h. get_member v (Some h) ow = None) \<and>
     (\<forall>s i x. get_member v s i = Some x \<longrightarrow> mb_role x = ''owner'' \<longrightarrow> i = ow)"

lemma ownedD:
  assumes "owned v ow"
  shows "\<exists>m. get_meta v None = Some m \<and> mt_owner m = Some ow"
    "\<exists>x. get_member v None ow = Some x \<and> mb_role x = ''owner''"
    "get_banned v s ow = None"
    "get_member v (Some h) ow = None"
    "get_member v s i = Some x \<Longrightarrow> mb_role x = ''owner'' \<Longrightarrow> i = ow"
  using assms unfolding owned_def by blast+

lemma owned_own_in:
  assumes "owned v ow"
  shows "\<exists>x. own_in v chain ow = Some x \<and> mb_role x = ''owner''"
proof (induction chain)
  case Nil
  show ?case using ownedD(2) [OF assms] by simp
next
  case (Cons s rest)
  then show ?case using ownedD(4) [OF assms, of s] by auto
qed

lemma owned_role:
  assumes "owned v ow"
  shows "roleIn v chain ow = Some ''owner''"
proof -
  have "\<not> bannedIn v chain ow"
    using ownedD(3) [OF assms] by (simp add: bannedIn_def list_ex_iff)
  with owned_own_in [OF assms, of chain] show ?thesis
    by (auto simp: roleIn_def memberIn_def)
qed

lemma own_in_source:
  "own_in v chain i = Some x \<Longrightarrow> \<exists>s. get_member v s i = Some x"
  by (induction v chain i rule: own_in.induct) (auto split: option.splits if_splits)

lemma owned_only:
  assumes "owned v ow" "roleIn v chain i = Some ''owner''"
  shows "i = ow"
proof -
  from assms(2) obtain x where "own_in v chain i = Some x" "mb_role x = ''owner''"
    by (auto simp: roleIn_def memberIn_def split: if_splits)
  with own_in_source ownedD(5) [OF assms(1)] show ?thesis by blast
qed

lemma owned_frame:
  assumes "owned v ow"
    and "\<And>k. is_KMember k \<or> is_KBanned k \<or> k = KMeta None \<Longrightarrow> w k = v k"
  shows "owned w ow"
proof -
  have "get_member w = get_member v" "get_banned w = get_banned v" "get_meta w None = get_meta v None"
    using assms(2) by (simp_all add: fun_eq_iff getters)
  note same = this
  show ?thesis using assms(1) unfolding owned_def same .
qed

lemma get_member_upd:
  "get_member (v(KMember s i \<mapsto> VMember m)) s' i' = (if s' = s \<and> i' = i then Some m else get_member v s' i')"
  "get_member (v(KMember s i := None)) s' i' = (if s' = s \<and> i' = i then None else get_member v s' i')"
  "get_banned (v(KMember s i := x)) s' i' = get_banned v s' i'"
  "get_meta (v(KMember s i := y)) s' = get_meta v s'"
  "get_banned (v(KBanned s i \<mapsto> VBanned b)) s' i' = (if s' = s \<and> i' = i then Some b else get_banned v s' i')"
  "get_banned (v(KBanned s i := None)) s' i' = (if s' = s \<and> i' = i then None else get_banned v s' i')"
  "get_member (v(KBanned s i := z)) s' i' = get_member v s' i'"
  "get_meta (v(KBanned s i := u)) s' = get_meta v s'"
  "get_meta (v(KMeta s \<mapsto> VMeta mt)) s' = (if s' = s then Some mt else get_meta v s')"
  "get_member (v(KMeta s \<mapsto> a)) s' i' = get_member v s' i'"
  "get_banned (v(KMeta s \<mapsto> a)) s' i' = get_banned v s' i'"
  by (simp_all add: getters)

lemma owned_upd:
  "owned v ow \<Longrightarrow> \<not> is_KMember k \<Longrightarrow> \<not> is_KBanned k \<Longrightarrow> k \<noteq> KMeta None \<Longrightarrow> owned (v(k := x)) ow"
  by (erule owned_frame) auto

lemma ownedI:
  assumes "get_meta v None = Some m" "mt_owner m = Some ow"
    and "get_member v None ow = Some x" "mb_role x = ''owner''"
    and "\<And>s. get_banned v s ow = None" "\<And>h. get_member v (Some h) ow = None"
    and "\<And>s i x. get_member v s i = Some x \<Longrightarrow> mb_role x = ''owner'' \<Longrightarrow> i = ow"
  shows "owned v ow"
  unfolding owned_def using assms by blast

lemma owned_member_upd:
  assumes "owned v ow" "i \<noteq> ow" and "\<And>m. y = Some m \<Longrightarrow> mb_role m \<noteq> ''owner''"
    and w: "\<And>s' j. get_member w s' j = (if s' = s \<and> j = i then y else get_member v s' j)"
    and same: "get_meta w None = get_meta v None" "\<And>s. get_banned w s ow = get_banned v s ow"
  shows "owned w ow"
proof -
  from ownedD(1,2) [OF assms(1)] obtain m x where m: "get_meta v None = Some m" "mt_owner m = Some ow"
    and x: "get_member v None ow = Some x" "mb_role x = ''owner''" by blast
  show ?thesis
  proof (rule ownedI)
    show "get_meta w None = Some m" "mt_owner m = Some ow" by (simp_all add: m same)
    show "get_member w None ow = Some x" "mb_role x = ''owner''" using assms(2) by (simp_all add: x w)
    show "get_banned w s ow = None" for s using ownedD(3) [OF assms(1)] by (simp add: same)
    show "get_member w (Some h) ow = None" for h
      using ownedD(4) [OF assms(1)] assms(2) by (simp add: w)
    show "j = ow" if "get_member w s' j = Some z" "mb_role z = ''owner''" for s' j z
    proof (cases "s' = s \<and> j = i")
      case True
      with that assms(3) show ?thesis by (simp add: w)
    next
      case False
      with that(1) have "get_member v s' j = Some z" by (simp only: w if_False)
      then show ?thesis using ownedD(5) [OF assms(1)] that(2) by blast
    qed
  qed
qed

lemma owned_member_put:
  "owned v ow \<Longrightarrow> i \<noteq> ow \<Longrightarrow> mb_role m \<noteq> ''owner'' \<Longrightarrow> owned (v(KMember s i \<mapsto> VMember m)) ow"
  by (rule owned_member_upd [where y = "Some m" and s = s and i = i and v = v])
    (simp_all add: get_member_upd)

lemma owned_member_del: "owned v ow \<Longrightarrow> i \<noteq> ow \<Longrightarrow> owned (v(KMember s i := None)) ow"
  by (rule owned_member_upd [where y = None and s = s and i = i and v = v])
    (simp_all add: get_member_upd)

lemma owned_same_members:
  assumes "owned v ow" "\<And>s j. get_member w s j = get_member v s j"
    and "\<And>s. get_banned w s ow = None" "\<exists>m. get_meta w None = Some m \<and> mt_owner m = Some ow"
  shows "owned w ow"
  unfolding owned_def assms(2) using assms(3,4) ownedD(2,4,5) [OF assms(1)] by blast

lemma owned_ban_put:
  assumes "owned v ow" "i \<noteq> ow"
  shows "owned (v(KBanned s i \<mapsto> VBanned b)) ow"
  by (rule owned_same_members [OF assms(1)])
    (use assms(2) ownedD(1,3) [OF assms(1)] in \<open>simp_all add: get_member_upd\<close>)

lemma owned_ban_del:
  assumes "owned v ow"
  shows "owned (v(KBanned s i := None)) ow"
  by (rule owned_same_members [OF assms])
    (use ownedD(1,3) [OF assms] in \<open>simp_all add: get_member_upd\<close>)

lemma owned_meta_put:
  assumes "owned v ow" "\<And>m. get_meta v s = Some m \<Longrightarrow> mt_owner m' = mt_owner m"
  shows "owned (v(KMeta s \<mapsto> VMeta m')) ow"
proof -
  from ownedD(1) [OF assms(1)] obtain m where m: "get_meta v None = Some m" "mt_owner m = Some ow"
    by blast
  show ?thesis
    by (rule owned_same_members [OF assms(1)])
      (use ownedD(3) [OF assms(1)] m assms(2) in \<open>auto simp: get_member_upd\<close>)
qed

lemma owned_kinds: "is_KMember k \<or> is_KBanned k \<or> k = KMeta None \<Longrightarrow> \<not> cut_kind k \<and> \<not> writer_kind k \<and> \<not> is_KGone k"
  by (elim disjE) (cases k; simp add: cut_kind_def writer_kind_def)+

lemma vstep_owned:
  assumes "vstep ow v w" "owned v ow"
  shows "owned w ow"
  using assms
proof (cases rule: vstep.cases)
  case cuts
  show ?thesis by (rule owned_frame [OF assms(2)]) (drule owned_kinds, rule cuts(1), elim conjE)
next
  case keys
  show ?thesis by (rule owned_frame [OF assms(2)]) (drule owned_kinds, elim conjE, rule keys(1))
next
  case (meta_put s m')
  then show ?thesis using assms(2) by (blast intro: owned_meta_put)
next
  case (member_put i m s)
  show ?thesis unfolding member_put(1) by (rule owned_member_put [OF assms(2) member_put(2,3)])
next
  case (member_del i s)
  show ?thesis unfolding member_del(1) by (rule owned_member_del [OF assms(2) member_del(2)])
next
  case (ban_put i s b)
  show ?thesis unfolding ban_put(1) by (rule owned_ban_put [OF assms(2) ban_put(2)])
next
  case (ban_out i s b)
  show ?thesis unfolding ban_out(1)
    by (rule owned_member_del [OF owned_ban_put [OF assms(2) ban_out(2)] ban_out(2)])
next
  case (ban_del s i)
  show ?thesis unfolding ban_del by (rule owned_ban_del [OF assms(2)])
qed (simp_all only: owned_upd assms(2) vkey.disc vkey.distinct not_False_eq_True)

lemma vsteps_owned: "vsteps ow v w \<Longrightarrow> owned v ow \<Longrightarrow> owned w ow"
  by (induction rule: rtranclp_induct) (auto intro: vstep_owned)

end
