(* ===== verification/Apply_Steps.thy ===== *)
theory Apply_Steps
  imports Steps
begin

text \<open>
  Every handler of lib/decisions/apply.js is a sequence of the permitted writes of theory Steps:
  \<open>applyOne_steps\<close>. The rules collected in \<open>steps\<close> read backwards along a handler: what leads to
  the state before an operation leads to the state after it.
\<close>

named_theorems steps \<open>from the steps before an operation to those after it\<close>

lemma well_typed_updI [simp]: "well_typed v \<Longrightarrow> typed k x \<Longrightarrow> well_typed (v(k \<mapsto> x))"
  by (rule well_typed_put)

lemma well_typed_delI [simp]: "well_typed v \<Longrightarrow> well_typed (v(k := None))"
  by (rule well_typed_del)

section \<open>Cuts\<close>

lemma recordCut_typed: "well_typed (vw st) \<Longrightarrow> well_typed (vw (recordCut s i es n st))"
  by (simp add: recordCut_def Let_def)

lemma recordEditCuts_typed: "well_typed (vw st) \<Longrightarrow> well_typed (vw (recordEditCuts s i ps es st))"
  by (simp add: recordEditCuts_def Let_def)

lemma admit_typed: "well_typed (vw st) \<Longrightarrow> well_typed (vw (admit s i r custom code st))"
  by (simp add: admit_def)

lemma drop_scopes_typed: "well_typed (vw st) \<Longrightarrow> well_typed (vw (fold (drop_scope s0 i ns n) ss st))"
  by (induction ss arbitrary: st) (auto simp: drop_scope_def Let_def split: option.splits)

lemma dropAll_typed: "well_typed (vw st) \<Longrightarrow> well_typed (vw (dropAll s i es n st))"
  by (simp add: dropAll_def Let_def drop_scopes_typed del: fold.simps)

lemma steps_snoc: "vsteps ow v w \<Longrightarrow> vstep ow w w' \<Longrightarrow> vsteps ow v w'"
  by (rule rtranclp.rtrancl_into_rtrancl)

lemma recordCut_steps [steps]:
  "vsteps ow v (vw st) \<Longrightarrow> vsteps ow v (vw (recordCut s i es n st))"
  by (erule steps_snoc) (intro vstep.cuts recordCut_frame recordCut_tighten recordCut_typed)

lemma recordEditCuts_steps [steps]:
  "vsteps ow v (vw st) \<Longrightarrow> vsteps ow v (vw (recordEditCuts s i ps es st))"
  by (erule steps_snoc) (intro vstep.cuts recordEditCuts_frame recordEditCuts_tighten recordEditCuts_typed)

lemma admit_steps [steps]:
  "vsteps ow v (vw st) \<Longrightarrow> vsteps ow v (vw (admit s i r custom code st))"
  by (erule steps_snoc) (intro vstep.cuts admit_frame admit_tighten admit_typed)

lemma dropAll_steps [steps]:
  "vsteps ow v (vw st) \<Longrightarrow> vsteps ow v (vw (dropAll s i es n st))"
  by (erule steps_snoc) (intro vstep.cuts dropAll_frame dropAll_tighten dropAll_typed)

section \<open>Keys\<close>

lemma addKey_typed: "well_typed (vw st) \<Longrightarrow> well_typed (vw (snd (addKey i key dev st)))"
  by (simp add: addKey_def Let_def split: option.splits)

lemma forget_typed: "well_typed (vw st) \<Longrightarrow> well_typed (vw (forget i key st))"
  by (simp add: forget_def Let_def)

lemma forgets_typed:
  "well_typed (vw st) \<Longrightarrow> well_typed (vw (fold (\<lambda>key s. removeFromBase E key (forget i key s)) keys st))"
  by (induction keys arbitrary: st) (simp_all add: forget_typed)

lemma settle_typed: "well_typed (vw st) \<Longrightarrow> well_typed (vw (fst (settle E i custom st)))"
  by (rule settle_cases [of E i custom st]) (simp_all add: forgets_typed)

lemma keys_step:
  assumes "\<And>k. \<not> writer_kind k \<Longrightarrow> w k = v k"
    and "writers_ok v \<Longrightarrow> writers_ok w" "well_typed v \<Longrightarrow> well_typed w"
  shows "vstep ow v w"
proof (rule vstep.keys)
  have "get_gone w = get_gone v"
    using assms(1) by (simp add: fun_eq_iff getters writer_kind_def)
  then show "get_gone v i d = Some x \<Longrightarrow> get_gone w i d = Some x" for i d x by simp
qed (use assms in blast)+

lemma addKey_steps [steps]:
  "vsteps ow v (vw st) \<Longrightarrow> vsteps ow v (vw (snd (addKey i key dev st)))"
  by (erule steps_snoc) (intro keys_step addKey_frame addKey_writers_ok addKey_typed)

lemma settle_steps [steps]:
  "vsteps ow v (vw st) \<Longrightarrow> vsteps ow v (vw (fst (settle E i custom st)))"
  by (erule steps_snoc) (intro keys_step settle_frame settle_writers_ok settle_typed)

section \<open>Members and bans\<close>

lemma put_member_steps [steps]:
  "vsteps ow v (vw st) \<Longrightarrow> i \<noteq> ow \<Longrightarrow> mb_role m \<noteq> ''owner'' \<Longrightarrow> mb_role m \<noteq> [] \<Longrightarrow>
    (s = None \<Longrightarrow> get_banned (vw st) None i = None) \<Longrightarrow>
    vsteps ow v (vw (put (KMember s i) (VMember m) st))"
  unfolding vw_put by (erule steps_snoc) (rule vstep.member_put)

lemma del_member_steps [steps]:
  "vsteps ow v (vw st) \<Longrightarrow> i \<noteq> ow \<Longrightarrow> vsteps ow v (vw (del (KMember s i) st))"
  unfolding vw_del by (erule steps_snoc) (rule vstep.member_del)

lemma put_ban_steps [steps]:
  "vsteps ow v (vw st) \<Longrightarrow> i \<noteq> ow \<Longrightarrow> (\<And>m. s = None \<Longrightarrow> get_member (vw st) None i = Some m \<Longrightarrow> mb_role m = []) \<Longrightarrow>
    vsteps ow v (vw (put (KBanned s i) (VBanned b) st))"
  unfolding vw_put by (erule steps_snoc) (rule vstep.ban_put)

lemma ban_out_steps [steps]:
  "vsteps ow v (vw st) \<Longrightarrow> i \<noteq> ow \<Longrightarrow>
    vsteps ow v (vw (del (KMember s i) (put (KBanned s i) (VBanned b) st)))"
  unfolding vw_put vw_del by (erule steps_snoc) (rule vstep.ban_out)

lemma del_ban_steps [steps]:
  "vsteps ow v (vw st) \<Longrightarrow> vsteps ow v (vw (del (KBanned s i) st))"
  unfolding vw_del by (erule steps_snoc) (rule vstep.ban_del)

lemma dropBelow_steps_fold:
  "vsteps ow v (vw st) \<Longrightarrow> i \<noteq> ow \<Longrightarrow>
   vsteps ow v (vw (fold (\<lambda>(key, _) st. if below subs key s \<and> get_member (vw st) (Some key) i \<noteq> None
      then del (KMember (Some key) i) st else st) ks st))"
proof (induction ks arbitrary: st)
  case (Cons a ks)
  show ?case
    unfolding fold_simps o_apply
    by (rule Cons.IH) (use Cons.prems in \<open>auto simp del: vw_del intro: del_member_steps split: prod.splits\<close>)
qed simp

lemma dropBelow_steps [steps]:
  "vsteps ow v (vw st) \<Longrightarrow> i \<noteq> ow \<Longrightarrow> vsteps ow v (vw (dropBelow s i st))"
  unfolding dropBelow_def Let_def by (rule dropBelow_steps_fold)

lemma if_steps [steps]:
  "(b \<Longrightarrow> vsteps ow v (vw x)) \<Longrightarrow> (\<not> b \<Longrightarrow> vsteps ow v (vw y)) \<Longrightarrow> vsteps ow v (vw (if b then x else y))"
  by simp

lemma not_owner:
  assumes "owned v ow" "roleIn v chain i \<noteq> Some ''owner''"
  shows "i \<noteq> ow"
  using assms owned_role by blast

lemma do_member_add_steps:
  assumes "owned (vw st) ow"
  shows "vsteps ow (vw st) (vw (do_member_add cx n identity code st))"
proof -
  have "hex identity \<noteq> ow" if "\<not> truthy (roleIn (vw st) (cx_chain cx) (hex identity))"
    using that owned_role [OF assms] by (auto simp: truthy_def)
  then show ?thesis
    unfolding do_member_add_def Let_def by (intro steps rtranclp.rtrancl_refl) auto
qed

lemma do_member_remove_steps:
  assumes "owned (vw st) ow"
  shows "vsteps ow (vw st) (vw (do_member_remove E cx n identity ct st))"
proof -
  have "hex identity \<noteq> ow" if "mayRemove a (roleIn (vw st) (cx_chain cx) (hex identity)) p custom" for a p custom
    using mayRemove_not_owner [OF that] by (rule not_owner [OF assms])
  then show ?thesis
    unfolding do_member_remove_def Let_def by (intro steps rtranclp.rtrancl_refl) blast+
qed

lemma do_role_set_steps:
  assumes "owned (vw st) ow"
  shows "vsteps ow (vw st) (vw (do_role_set E cx n identity role ct code st))"
proof -
  have i: "hex identity \<noteq> ow" if "mayAssign a (map_option mb_role (memberIn (vw st) (cx_chain cx) (hex identity))) r custom"
    for a r custom
    using mayAssign_not_owner [OF that] not_owner [OF assms, of "cx_chain cx"] by (simp add: roleIn_def)
  have r: "role \<noteq> ''owner''" if "mayAssign a c role custom" for a c custom
    using mayAssign_not_owner [OF that] by simp
  have p: "role \<noteq> []" if "mayAssign a c role custom" for a c custom
    using that by (auto simp: mayAssign_def permissionsOf_def split: if_splits)
  have b: "get_banned (vw st) None i = None" if "\<not> bannedIn (vw st) (cx_chain cx) i" for i
    using that by (simp add: bannedIn_def)
  have addKeys: "vsteps ow v (vw (case wr of None \<Rightarrow> st4
       | Some key \<Rightarrow> if b then snd (addKey i key wd st4) else st4))" if "vsteps ow v (vw st4)" for v wr st4 i wd b
    using that by (cases wr) (simp_all add: addKey_steps)
  show ?thesis
    unfolding do_role_set_def Let_def
    by (intro steps addKeys rtranclp.rtrancl_refl) (use i r p b in auto)
qed

lemma do_role_define_steps: "vsteps ow (vw st) (vw (do_role_define cx n name perms st))"
proof -
  have "vstep ow (vw st) ((vw st)(KRole name \<mapsto> VRole \<lparr>re_permissions = ps, re_by = a, re_stamp = n\<rparr>))"
    if "ROLES name = None" "name \<noteq> []"
      and "\<not> (case get_role (vw st) name of None \<Rightarrow> False
            | Some e \<Rightarrow> list_ex (\<lambda>p. p \<notin> set OWN \<and> p \<notin> set ps) (re_permissions e))" for ps a
    by (rule vstep.role_put) (use that in \<open>auto simp: list_ex_iff\<close>)
  then show ?thesis
    unfolding do_role_define_def Let_def by (auto intro!: r_into_rtranclp)
qed

section \<open>Moderation\<close>

lemma ban_effect_steps:
  assumes "hex t \<noteq> ow" "\<And>m. cx_scope cx = None \<Longrightarrow> \<not> truthy role \<Longrightarrow> get_member (vw st) None (hex t) = Some m \<Longrightarrow> mb_role m = []"
  shows "vsteps ow (vw st) (vw (ban_effect E cx n (hex t) reason ct drp role custom st))"
  unfolding ban_effect_def Let_def by (intro steps rtranclp.rtrancl_refl assms)

lemma do_moderate_steps:
  assumes "owned (vw st) ow" "scope_of (cx_chain cx) = cx_scope cx" "do_moderate E cx n action target reason ct drp st = Inr st1"
  shows "vsteps ow (vw st) (vw st1)"
proof -
  have i: "hex t \<noteq> ow" if "mayRemove a (roleIn (vw st) (cx_chain cx) (hex t)) p custom" for a p custom t
    using mayRemove_not_owner [OF that] by (rule not_owner [OF assms(1)])
  have r: "mb_role m = []" if "cx_scope cx = None" "\<not> truthy (roleIn (vw st) (cx_chain cx) (hex t))"
    "get_banned (vw st) (cx_scope cx) (hex t) = None" "get_member (vw st) None (hex t) = Some m" for m t
  proof -
    have "cx_chain cx = []" using assms(2) that(1) by (cases "cx_chain cx") (simp_all add: scope_of_def)
    with that show ?thesis by (auto simp: roleIn_def memberIn_top truthy_def)
  qed
  have ban: "vsteps ow (vw st) (vw st1)" if "do_ban E cx n target reason ct drp st = Inr st1"
    using that unfolding do_ban_def Let_def
    by (auto split: option.splits if_splits intro!: dropAll_steps ban_effect_steps i dest: r)
  have unban: "vsteps ow (vw st) (vw st1)" if "do_unban cx target st = Inr st1"
    using that unfolding do_unban_def Let_def
    by (auto simp del: vw_del split: option.splits if_splits intro!: del_ban_steps)
  have "vsteps ow (vw st) (vw (do_mark E cx action target st))"
    unfolding do_mark_def Let_def
    by (auto split: option.splits intro!: r_into_rtranclp vstep.mod_put simp: not_moderated_def)
  with assms(3) ban unban show ?thesis
    by (auto simp: do_moderate_def split: if_splits)
qed

section \<open>Invites\<close>

lemma mayInvite_role: "mayInvite m r custom \<Longrightarrow> r \<noteq> []"
  by (auto simp: mayInvite_def permissionsOf_def split: if_splits)

lemma owner_no_room:
  assumes "owned v ow" "memberIn v chain ow = m"
  shows "m \<noteq> None \<and> rankOf (map_option mb_role m) = 5"
  using owned_role [OF assms(1), of chain] assms(2) by (auto simp: roleIn_def)

lemma redeem_here_steps:
  assumes "owned (vw st) ow" "iv_role (rd_invite r) \<noteq> ''owner''" "iv_role (rd_invite r) \<noteq> []"
    and "\<not> bannedIn (vw st) (cx_chain cx) (hex (rd_identity r))"
  shows "vsteps ow (vw st) (vw (fst (redeem_here E cx n r device code custom st)))"
proof -
  let ?m = "memberIn (vw st) (cx_chain cx) (hex (rd_identity r))"
  have i: "hex (rd_identity r) \<noteq> ow"
    if "?m = None \<or> rankOf (map_option mb_role ?m) < rankOf (Some (iv_role (rd_invite r)))"
  proof
    assume "hex (rd_identity r) = ow"
    from owner_no_room [OF assms(1) refl, of "cx_chain cx"] this that
      rank_less_5 [of "Some (iv_role (rd_invite r))"] assms(2)
    show False by auto
  qed
  have fstif: "fst (if b then x else y) = (if b then fst x else fst y)" for b and x y :: "vstate \<times> roles"
    by simp
  show ?thesis
    unfolding redeem_here_def Let_def fstif fst_conv
    by (intro steps rtranclp.rtrancl_refl i) (use assms(2-4) in \<open>auto simp: bannedIn_def\<close>)
qed

text \<open>A sub-space an invite lets someone into: its maker may invite there, and they gain.\<close>

lemma route_cases:
  fixes E :: env and iv st subs s key i n custom code
  defines "new \<equiv> route iv s subs i n custom code key st"
  obtains (same) "new = st"
  | (let_in) chain mk where "below subs key s" "chainOf (vw st) (Some key) = Some chain"
      "\<not> bannedIn (vw st) chain i" "memberIn (vw st) chain (hex (iv_maker iv)) = Some mk"
      "mayInvite (Some (mb_role mk)) (iv_role iv) custom"
      "\<And>m. memberIn (vw st) chain i = Some m \<Longrightarrow> rankOf (Some (mb_role m)) < rankOf (Some (iv_role iv))"
      "new = admit (Some key) i (iv_role iv) custom code
         (put (KMember (Some key) i) (VMember \<lparr>mb_role = iv_role iv, mb_by = hex (iv_maker iv),
            mb_stamp = n, mb_writer = None, mb_writerDevice = None\<rparr>) st)"
proof (cases "new = st")
  case False
  then have below: "below subs key s" by (cases "below subs key s") (simp_all add: new_def route_def)
  with False obtain chain where chain: "chainOf (vw st) (Some key) = Some chain"
    by (cases "chainOf (vw st) (Some key)") (simp_all add: new_def route_def)
  with False below have ban: "\<not> bannedIn (vw st) chain i"
    by (cases "bannedIn (vw st) chain i") (simp_all add: new_def route_def)
  with False below chain obtain mk where mk: "memberIn (vw st) chain (hex (iv_maker iv)) = Some mk"
    by (cases "memberIn (vw st) chain (hex (iv_maker iv))") (simp_all add: new_def route_def)
  with False below chain ban have may: "mayInvite (Some (mb_role mk)) (iv_role iv) custom"
    by (cases "mayInvite (Some (mb_role mk)) (iv_role iv) custom") (simp_all add: new_def route_def)
  let ?low = "case memberIn (vw st) chain i of None \<Rightarrow> False
              | Some m \<Rightarrow> rankOf (Some (mb_role m)) \<ge> rankOf (Some (iv_role iv))"
  let ?low2 = "case get_member (vw st) (Some key) i of None \<Rightarrow> False
              | Some m \<Rightarrow> rankOf (Some (mb_role m)) \<ge> rankOf (Some (iv_role iv))"
  from False below chain ban mk may have low: "\<not> ?low"
    by (cases ?low) (simp_all add: new_def route_def)
  from False below chain ban mk may low have low2: "\<not> ?low2"
    by (cases ?low2) (simp_all add: new_def route_def)
  from low have gain: "rankOf (Some (mb_role m)) < rankOf (Some (iv_role iv))"
    if "memberIn (vw st) chain i = Some m" for m
    using that by simp
  have eq: "new = admit (Some key) i (iv_role iv) custom code
         (put (KMember (Some key) i) (VMember \<lparr>mb_role = iv_role iv, mb_by = hex (iv_maker iv),
            mb_stamp = n, mb_writer = None, mb_writerDevice = None\<rparr>) st)"
    using below chain ban mk may low low2 by (simp add: new_def route_def)
  show thesis by (rule let_in [OF below chain ban mk may _ eq]) (rule gain)
qed (rule same)

lemma route_steps:
  assumes "owned (vw st) ow"
  shows "vsteps ow (vw st) (vw (route iv s subs i n custom code key st))"
proof (rule route_cases [of iv s subs i n custom code key st])
  show ?thesis if "route iv s subs i n custom code key st = st" using that by simp
next
  fix chain mk
  assume may: "mayInvite (Some (mb_role mk)) (iv_role iv) custom"
    and low: "\<And>m. memberIn (vw st) chain i = Some m \<Longrightarrow> rankOf (Some (mb_role m)) < rankOf (Some (iv_role iv))"
    and r: "route iv s subs i n custom code key st = admit (Some key) i (iv_role iv) custom code
         (put (KMember (Some key) i) (VMember \<lparr>mb_role = iv_role iv, mb_by = hex (iv_maker iv),
            mb_stamp = n, mb_writer = None, mb_writerDevice = None\<rparr>) st)"
  have own: "iv_role iv \<noteq> ''owner''" "iv_role iv \<noteq> []"
    using mayInvite_not_owner [OF may] mayInvite_role [OF may] by simp_all
  have "i \<noteq> ow"
    using owner_no_room [OF assms refl, of chain] low rank_less_5 [of "Some (iv_role iv)"] own by auto
  then show ?thesis unfolding r using own by (intro steps rtranclp.rtrancl_refl) auto
qed

lemma routes_steps:
  "owned (vw st) ow \<Longrightarrow> vsteps ow (vw st) (vw (fold (route iv s subs i n custom code) keys st))"
proof (induction keys arbitrary: st)
  case (Cons k ks)
  let ?st = "route iv s subs i n custom code k st"
  have one: "vsteps ow (vw st) (vw ?st)" by (rule route_steps [OF Cons.prems])
  have "vsteps ow (vw ?st) (vw (fold (route iv s subs i n custom code) ks ?st))"
    by (rule Cons.IH) (rule vsteps_owned [OF one Cons.prems])
  with one show ?case by simp
qed simp

text \<open>What redeeming touches before it counts the use.\<close>

definition member_like :: "vkey \<Rightarrow> bool" where
  "member_like k \<longleftrightarrow> is_KMember k \<or> cut_kind k \<or> writer_kind k"

lemma redeem_here_frame:
  assumes "\<not> member_like k"
  shows "vw (fst (redeem_here E cx n r device code custom st)) k = vw st k"
proof -
  have "\<not> cut_kind k" "\<not> writer_kind k" "\<And>s i. k \<noteq> KMember s i"
    using assms by (auto simp: member_like_def)
  then show ?thesis
    by (simp add: redeem_here_def Let_def settle_frame addKey_frame admit_frame)
qed

lemma route_frame:
  assumes "\<not> member_like k"
  shows "vw (route iv s subs i n custom code key st) k = vw st k"
proof -
  have "\<not> cut_kind k" "\<And>s i. k \<noteq> KMember s i"
    using assms by (auto simp: member_like_def)
  then show ?thesis
    by (simp add: route_def admit_frame split: option.split)
qed

lemma routes_frame:
  "\<not> member_like k \<Longrightarrow> vw (fold (route iv s subs i n custom code) keys st) k = vw st k"
  by (induction keys arbitrary: st) (simp_all add: route_frame)

lemma not_member_like [simp]: "\<not> member_like (KRedeemed s n i)" "\<not> member_like (KUses s n)"
  by (simp_all add: member_like_def cut_kind_def writer_kind_def)

lemma redeem_effect_steps:
  assumes "owned (vw st) ow" "iv_role (rd_invite r) \<noteq> ''owner'' \<and> iv_role (rd_invite r) \<noteq> [] \<and>
      \<not> bannedIn (vw st) (cx_chain cx) (hex (rd_identity r))"
    and "get_redeemed (vw st) (cx_scope cx) n (hex (rd_identity r)) = None"
    and "used = (case get_uses (vw st) (cx_scope cx) n of None \<Rightarrow> 0 | Some k \<Rightarrow> k)"
  shows "vsteps ow (vw st) (vw (redeem_effect E cx t r device code n used custom st))"
proof -
  obtain st1 c1 where here: "redeem_here E cx t r device code custom st = (st1, c1)" by force
  let ?st2 = "fold (route (rd_invite r) (cx_scope cx) (subspacesOf (vw st1)) (hex (rd_identity r)) t c1 code)
     (map hex (iv_subspaces (rd_invite r))) st1"
  have one: "vsteps ow (vw st) (vw st1)"
    using redeem_here_steps [OF assms(1), of r cx E t device code custom] assms(2) here by simp
  have "vsteps ow (vw st1) (vw ?st2)" by (rule routes_steps [OF vsteps_owned [OF one assms(1)]])
  with one have two: "vsteps ow (vw st) (vw ?st2)" by (rule rtranclp_trans)
  have same: "vw ?st2 k = vw st k" if "\<not> member_like k" for k
    using routes_frame [OF that] redeem_here_frame [OF that, of E cx t r device code custom st] here by simp
  have "get_redeemed (vw ?st2) (cx_scope cx) n (hex (rd_identity r)) = None"
    "used = (case get_uses (vw ?st2) (cx_scope cx) n of None \<Rightarrow> 0 | Some k \<Rightarrow> k)"
    using assms(3,4) by (simp_all add: getters same)
  from vstep.redeem [OF this] show ?thesis
    unfolding redeem_effect_def Let_def here prod.case vw_put by (rule steps_snoc [OF two])
qed

text \<open>A redemption that changes anything passed every check.\<close>

definition uses_of :: "view \<Rightarrow> scope \<Rightarrow> string \<Rightarrow> nat" where
  "uses_of v s n = (case get_uses v s n of None \<Rightarrow> 0 | Some k \<Rightarrow> k)"

lemma do_redeem_cases:
  assumes "do_redeem E cx n rb code st = Inr st1" "st1 \<noteq> st"
  obtains (given) r idb identity device custom where
    "can (cx_role cx) ''decide'' (cx_custom cx)"
    "Option.bind rb (e_decode_redemption E) = Some r"
    "verifyRedemption E r (e_space E) = Inr (Some (identity, device))"
    "iv_space (rd_invite r) = scope_key E (cx_scope cx)" "iv_id (rd_invite r) = Some idb"
    "\<not> redeem_refused E cx n r (hex idb) st"
    "custom = load (vw st) [roleIn (vw st) (cx_chain cx) (hex (iv_maker (rd_invite r))), Some (iv_role (rd_invite r))] (cx_custom cx)"
    "mayInvite (roleIn (vw st) (cx_chain cx) (hex (iv_maker (rd_invite r)))) (iv_role (rd_invite r)) custom"
    "st1 = redeem_effect E cx n r device code (hex idb) (uses_of (vw st) (cx_scope cx) (hex idb)) custom st"
  | (counted) r idb identity device custom where
    "can (cx_role cx) ''decide'' (cx_custom cx)"
    "Option.bind rb (e_decode_redemption E) = Some r"
    "verifyRedemption E r (e_space E) = Inr (Some (identity, device))"
    "iv_space (rd_invite r) = scope_key E (cx_scope cx)" "iv_id (rd_invite r) = Some idb"
    "\<not> redeem_refused E cx n r (hex idb) st" "iv_role (rd_invite r) \<in> set INHERITED"
    "roleIn (vw st) (cx_chain cx) (hex (iv_maker (rd_invite r))) = Some ''owner''"
    "st1 = put (KUses (cx_scope cx) (hex idb)) (VUses (uses_of (vw st) (cx_scope cx) (hex idb) + 1))
       (put (KRedeemed (cx_scope cx) (hex idb) (hex (rd_identity r))) (VRedeemed n (cx_author cx)) st)"
proof -
  from assms have can: "can (cx_role cx) ''decide'' (cx_custom cx)"
    by (cases "can (cx_role cx) ''decide'' (cx_custom cx)") (simp_all add: do_redeem_def)
  from assms can obtain r where r: "Option.bind rb (e_decode_redemption E) = Some r"
    by (cases "Option.bind rb (e_decode_redemption E)") (simp_all add: do_redeem_def)
  from assms can r obtain identity device where
    vr: "verifyRedemption E r (e_space E) = Inr (Some (identity, device))"
    by (cases "verifyRedemption E r (e_space E)") (auto simp: do_redeem_def split: option.splits)
  from assms can r vr have sp: "iv_space (rd_invite r) = scope_key E (cx_scope cx)"
    by (cases "iv_space (rd_invite r) = scope_key E (cx_scope cx)") (simp_all add: do_redeem_def Let_def)
  from assms can r vr sp obtain idb where idb: "iv_id (rd_invite r) = Some idb"
    by (cases "iv_id (rd_invite r)") (simp_all add: do_redeem_def Let_def)
  from assms can r vr sp idb have ref: "\<not> redeem_refused E cx n r (hex idb) st"
    by (cases "redeem_refused E cx n r (hex idb) st") (simp_all add: do_redeem_def Let_def)
  let ?maker = "roleIn (vw st) (cx_chain cx) (hex (iv_maker (rd_invite r)))"
  let ?custom = "load (vw st) [?maker, Some (iv_role (rd_invite r))] (cx_custom cx)"
  show thesis
  proof (cases "iv_role (rd_invite r) \<in> set INHERITED")
    case True
    with assms can r vr sp idb ref
    have e: "redeem_inherited cx n r (hex idb) (uses_of (vw st) (cx_scope cx) (hex idb)) ?maker ?custom st = Inr st1"
      by (simp add: do_redeem_def Let_def uses_of_def)
    from e assms(2) show thesis
      by (intro counted [OF can r vr sp idb ref True])
        (auto simp: redeem_inherited_def Let_def split: if_splits option.splits)
  next
    case False
    from assms can r vr sp idb ref False have may: "mayInvite ?maker (iv_role (rd_invite r)) ?custom"
      by (cases "mayInvite ?maker (iv_role (rd_invite r)) ?custom") (simp_all add: do_redeem_def Let_def)
    from assms(1) can r vr sp idb ref may False have
      "st1 = redeem_effect E cx n r device code (hex idb) (uses_of (vw st) (cx_scope cx) (hex idb)) ?custom st"
      by (simp add: do_redeem_def Let_def uses_of_def)
    then show thesis by (rule given [OF can r vr sp idb ref refl may])
  qed
qed

lemma do_redeem_steps:
  assumes "owned (vw st) ow" "do_redeem E cx n rb code st = Inr st1"
  shows "vsteps ow (vw st) (vw st1)"
proof (cases "st1 = st")
  case False
  from assms(2) False show ?thesis
  proof (rule do_redeem_cases)
    fix r idb
    assume "\<not> redeem_refused E cx n r (hex idb) st"
    then have "get_redeemed (vw st) (cx_scope cx) (hex idb) (hex (rd_identity r)) = None" by (simp add: redeem_refused_def Let_def)
    from vstep.redeem [OF this uses_of_def]
    show "st1 = put (KUses (cx_scope cx) (hex idb)) (VUses (uses_of (vw st) (cx_scope cx) (hex idb) + 1))
       (put (KRedeemed (cx_scope cx) (hex idb) (hex (rd_identity r))) (VRedeemed n (cx_author cx)) st) \<Longrightarrow> ?thesis"
      by auto
  next
    fix r idb device custom
    assume "\<not> redeem_refused E cx n r (hex idb) st"
      and may: "mayInvite (roleIn (vw st) (cx_chain cx) (hex (iv_maker (rd_invite r)))) (iv_role (rd_invite r)) custom"
      and e: "st1 = redeem_effect E cx n r device code (hex idb) (uses_of (vw st) (cx_scope cx) (hex idb)) custom st"
    then show ?thesis
      by (simp add: redeem_refused_def Let_def
          mayInvite_not_owner [OF may] mayInvite_role [OF may] redeem_effect_steps [OF assms(1) _ _ uses_of_def])
  qed
qed simp

lemma do_revoke_steps:
  assumes "do_revoke E cx n ib st = Inr st1"
  shows "vsteps ow (vw st) (vw st1)"
  using assms unfolding do_revoke_def
  by (auto split: if_splits option.splits intro!: r_into_rtranclp vstep.revoke)

section \<open>Devices, settings, types, logs, sub-spaces, keys\<close>

lemma do_writer_add_steps: "vsteps ow (vw st) (vw (do_writer_add E cx key proof st))"
proof -
  have "vsteps ow (vw st) (vw (case addKey i k dev st of (added, st1) \<Rightarrow>
      if added then fst (settle E i c st1) else st1))" for i k dev c
    using addKey_steps [of ow "vw st" st i k dev]
    by (cases "addKey i k dev st") (simp add: settle_steps)
  then show ?thesis
    unfolding do_writer_add_def Let_def by (auto split: option.splits prod.splits)
qed

lemma forget_fold_reads:
  "get_gone (vw (fold (forget i) ks st)) j d = get_gone (vw st) j d"
  by (induction ks arbitrary: st) (simp_all add: forget_reads)

lemma forget_fold_frame: "\<not> writer_kind k \<Longrightarrow> vw (fold (forget i) ks st) k = vw st k"
  by (induction ks arbitrary: st) (simp_all add: forget_frame)

lemma forget_fold_typed: "well_typed (vw st) \<Longrightarrow> well_typed (vw (fold (forget i) ks st))"
  by (induction ks arbitrary: st) (simp_all add: forget_typed)

lemma removes_vw [simp]: "vw (fold (removeFromBase E) ks st) = vw st"
  by (induction ks arbitrary: st) simp_all

text \<open>The rest of \<open>writers_ok\<close>, which holds while a removed device's keys go one by one.\<close>

definition gone_device :: "string \<Rightarrow> string \<Rightarrow> view \<Rightarrow> string \<Rightarrow> bool" where
  "gone_device i d v k \<longleftrightarrow> (case get_writer v k of None \<Rightarrow> False | Some w \<Rightarrow> w_identity w = i \<and> w_device w = Some d)"

lemma forget_fold_writers_reads:
  "get_writer (vw (fold (forget i) ks st)) k = (if k \<in> set ks then None else get_writer (vw st) k)"
  "writersOf (vw (fold (forget i) ks st)) j =
     (if j = i then filter (\<lambda>k. k \<notin> set ks) (writersOf (vw st) i) else writersOf (vw st) j)"
  by (induction ks arbitrary: st) (auto simp: forget_reads intro: filter_cong)

lemma device_removed_writers_ok:
  assumes "writers_ok v"
    and st1: "vw st1 = v(KGone i d \<mapsto> VGone a t)"
    and dropped: "dropped = filter (\<lambda>k. case get_writer v k of None \<Rightarrow> False | Some w \<Rightarrow> w_device w = Some d) (writersOf v i)"
  shows "writers_ok (vw (fold (forget i) dropped st1))"
proof -
  let ?w = "vw (fold (forget i) dropped st1)"
  note ok = writers_okD [OF assms(1)]
  have v1: "get_writer (vw st1) = get_writer v" "writersOf (vw st1) = writersOf v"
    "get_gone (vw st1) j e = (if j = i \<and> e = d then Some (a, t) else get_gone v j e)" for j e
    by (simp_all add: st1 fun_eq_iff getters writersOf_def)
  have w: "get_writer ?w k = (if k \<in> set dropped then None else get_writer v k)" for k
    by (simp add: forget_fold_writers_reads v1)
  have ws: "writersOf ?w j = (if j = i then filter (\<lambda>k. k \<notin> set dropped) (writersOf v i) else writersOf v j)" for j
    by (simp add: forget_fold_writers_reads v1)
  have g: "get_gone ?w j e = (if j = i \<and> e = d then Some (a, t) else get_gone v j e)" for j e
    by (simp add: forget_fold_reads v1)
  have own: "k \<in> set dropped \<Longrightarrow> \<exists>w. get_writer v k = Some w \<and> w_identity w = i" for k
    using ok(2) by (auto simp: dropped)
  show ?thesis
    unfolding writers_ok_def
  proof (intro conjI allI impI)
    show "distinct (writersOf ?w j)" for j using ok(1) by (simp add: ws)
    show "k \<in> set (writersOf ?w j) \<longleftrightarrow> (\<exists>w. get_writer ?w k = Some w \<and> w_identity w = j)" for j k
      using ok(2) own [of k] by (auto simp: ws w)
    show "get_gone ?w (w_identity x) e = None" if "get_writer ?w k = Some x" "w_device x = Some e" for k x e
    proof -
      from that(1) have k: "k \<notin> set dropped" "get_writer v k = Some x" by (auto simp: w split: if_splits)
      have "\<not> (w_identity x = i \<and> e = d)"
        using k ok(2) [of k i] that(2) by (auto simp: dropped)
      then show ?thesis using ok(3) [OF k(2) that(2)] by (simp add: g)
    qed
    show "k = k'" if "get_writer ?w k = Some x" "get_writer ?w k' = Some x'" "w_identity x = w_identity x'"
      "w_indexer x" "w_indexer x'" for k k' x x'
      using ok(4) that by (auto simp: w split: if_splits)
  qed
qed

lemma do_device_remove_cases:
  assumes "do_device_remove E cx n device ct proof st = Inr st1"
  obtains (same) "st1 = st"
  | (removed) data identity dropped where "cx_scope cx = None" "removalSignable (e_space E) device ct = Inr data"
      "Identity_verify E proof data = Some (identity, identity)"
      "get_gone (vw st) (hex identity) (hex device) = None"
      "dropped = filter (\<lambda>k. case get_writer (vw st) k of None \<Rightarrow> False
         | Some w \<Rightarrow> w_device w = Some (hex device)) (writersOf (vw st) (hex identity))"
      "vw st1 = vw (fst (settle E (hex identity) (cx_custom cx) (fold (forget (hex identity)) dropped
         (put (KGone (hex identity) (hex device)) (VGone (cx_author cx) n) st))))"
proof (cases "st1 = st")
  case False
  from False assms have scope: "cx_scope cx = None"
    by (cases "cx_scope cx") (simp_all add: do_device_remove_def)
  from False assms scope obtain data where data: "removalSignable (e_space E) device ct = Inr data"
    by (cases "removalSignable (e_space E) device ct") (simp_all add: do_device_remove_def)
  from False assms scope data obtain identity where iv: "Identity_verify E proof data = Some (identity, identity)"
    by (cases "Identity_verify E proof data") (auto simp: do_device_remove_def split: if_splits)
  let ?i = "hex identity" and ?d = "hex device"
  from False assms scope data iv have new: "get_gone (vw st) ?i ?d = None"
    by (cases "get_gone (vw st) ?i ?d") (simp_all add: do_device_remove_def Let_def)
  have same: "get_writer (vw (put (KGone ?i ?d) x st)) = get_writer (vw st)"
    "writersOf (vw (put (KGone ?i ?d) x st)) = writersOf (vw st)" for x
    by (simp_all add: fun_eq_iff getters writersOf_def)
  show thesis
    by (rule removed [OF scope data iv new refl])
      (use assms scope data iv new in \<open>auto simp: do_device_remove_def Let_def same simp del: vw_put split: prod.splits\<close>)
qed (rule same)

lemma do_device_remove_steps:
  assumes "do_device_remove E cx n device ct proof st = Inr st1"
  shows "vsteps ow (vw st) (vw st1)"
  using assms
proof (cases rule: do_device_remove_cases)
  case same
  then show ?thesis by simp
next
  case (removed data identity dropped)
  let ?i = "hex identity" and ?d = "hex device"
  let ?st1 = "put (KGone ?i ?d) (VGone (cx_author cx) n) st"
  let ?st2 = "fold (forget ?i) dropped ?st1"
  have "vstep ow (vw st) (vw ?st2)"
  proof (rule vstep.keys)
    show "vw ?st2 k = vw st k" if "\<not> writer_kind k" "\<not> is_KGone k" for k
      using that by (cases k) (simp_all add: forget_fold_frame)
    show "get_gone (vw ?st2) i d = Some x" if "get_gone (vw st) i d = Some x" for i d x
    proof -
      from that removed(4) have "i \<noteq> ?i \<or> d \<noteq> ?d" by auto
      then have "get_gone (vw ?st1) i d = get_gone (vw st) i d" by (auto simp: getters)
      with that show ?thesis unfolding forget_fold_reads by simp
    qed
    show "writers_ok (vw ?st2)" if "writers_ok (vw st)"
      using that vw_put removed(5) by (rule device_removed_writers_ok)
    show "well_typed (vw ?st2)" if "well_typed (vw st)"
      using that by (intro forget_fold_typed) simp
  qed
  then show ?thesis unfolding removed(6) by (intro settle_steps) (rule r_into_rtranclp)
qed

lemma do_settings_set_steps:
  assumes "owned (vw st) ow" "\<And>p. cx_scope cx = Some p \<Longrightarrow> get_subspace (vw st) p \<noteq> None"
  shows "vsteps ow (vw st) (vw (do_settings_set cx p l r h hs pb st))"
proof -
  let ?v = "vw st" and ?s = "cx_scope cx"
  have priv: "(case ?s of None \<Rightarrow> (case get_meta ?v ?s of None \<Rightarrow> False | Some m \<Rightarrow> mt_private m)
     | Some h \<Rightarrow> (case get_subspace ?v h of None \<Rightarrow> False | Some info \<Rightarrow> ss_private info)) = private_scope ?v ?s"
    by (simp add: private_scope_def split: option.splits)
  have begun: "?s = None \<Longrightarrow> get_meta ?v None \<noteq> None"
    using ownedD(1) [OF assms(1)] by auto
  have step: "vsteps ow ?v (?v(KMeta ?s \<mapsto> VMeta ((case get_meta ?v ?s of None \<Rightarrow> no_meta | Some m \<Rightarrow> m)
      \<lparr>mt_policy := a, mt_rules := b, mt_history := c, mt_helpers := d,
       mt_public := (e \<or> mt_public (case get_meta ?v ?s of None \<Rightarrow> no_meta | Some m \<Rightarrow> m)),
       mt_writeLimit := f\<rparr>)))" if "e \<Longrightarrow> \<not> private_scope ?v ?s" for a b c d e f
    by (intro r_into_rtranclp vstep.meta_put)
      (use that begun assms(2) in \<open>auto simp: no_meta_def split: option.splits\<close>)
  show ?thesis
    unfolding do_settings_set_def Let_def priv
    by (auto simp only: vw_put rtranclp.rtrancl_refl split: if_split intro!: step)
qed

lemma do_types_set_steps: "vsteps ow (vw st) (vw (do_types_set E cx n types st))"
proof -
  have "vstep ow (vw st) ((vw st)(KTypesAt n \<mapsto> VTypesAt t, KTypes \<mapsto> VTypes n))"
    if "n = (case get_types (vw st) of None \<Rightarrow> 0 | Some k \<Rightarrow> k) + 1" for t
    unfolding that by (rule vstep.types) simp
  then show ?thesis
    unfolding do_types_set_def Let_def by (auto split: option.splits intro!: r_into_rtranclp)
qed

lemma listed_step:
  "vsteps ow v (vw st) \<Longrightarrow> get_listed (vw st) l = None \<Longrightarrow> vsteps ow v ((vw st)(KListed l \<mapsto> VListed x))"
  by (erule steps_snoc) (rule vstep.listed)

lemma listed_fold_steps:
  "vsteps ow v (vw st) \<Longrightarrow> vsteps ow v (vw (fold (\<lambda>(space, log) st.
     if get_listed (vw st) (hex log) = None then put (KListed (hex log)) (VListed (hex space)) st else st) ls st))"
proof (induction ls arbitrary: st)
  case (Cons a ls)
  show ?case
    unfolding fold_simps o_apply
    by (rule Cons.IH, cases a) (use Cons.prems in \<open>simp del: fun_upd_apply add: listed_step\<close>)
qed simp

lemma do_logs_list_steps: "vsteps ow (vw st) (vw (do_logs_list cx logs st))"
  unfolding do_logs_list_def by (intro if_steps listed_fold_steps rtranclp.rtrancl_refl)

lemma do_subspace_create_steps:
  assumes "\<And>p. cx_scope cx = Some p \<Longrightarrow> get_subspace (vw st) p \<noteq> None"
  shows "vsteps ow (vw st) (vw (do_subspace_create E cx n k name priv wr st))"
proof -
  have "sub_keys ((vw st)(KSubspace h \<mapsto> x)) = sub_keys (vw st)" for h x
    by (simp add: sub_keys_def getters)
  then show ?thesis
    unfolding do_subspace_create_def Let_def vw_put
    by (auto intro!: r_into_rtranclp vstep.subspace assms)
qed

lemma do_key_rotate_steps: "vsteps ow (vw st) (vw (do_key_rotate cx epoch c st))"
proof -
  let ?ep = "case get_epochs (vw st) (cx_scope cx) of None \<Rightarrow> no_epochs | Some e \<Rightarrow> e"
  have "vstep ow (vw st) ((vw st)(KEpochs (cx_scope cx) \<mapsto>
     VEpochs (?ep\<lparr>ep_current := int epoch, ep_commits := (ep_commits ?ep)(epoch \<mapsto> hex c)\<rparr>)))"
    if "int epoch = ep_current ?ep + 1"
    by (rule vstep.epochs [OF refl, where n = epoch and c = "hex c"]) (use that in simp)
  moreover have "vstep ow (vw st) ((vw st)(KEpochs (cx_scope cx) \<mapsto> VEpochs (?ep\<lparr>ep_others := x\<rparr>)))" for x
    by (rule vstep.epochs [OF refl]) simp
  ultimately show ?thesis
    unfolding do_key_rotate_def Let_def
    by (auto simp del: split_paired_All intro!: r_into_rtranclp split: if_split)
qed

section \<open>Any decision\<close>

lemma scope_of_chain:
  assumes "chainOf v s = Some chain"
  shows "scope_of chain = s" and "s = Some p \<Longrightarrow> get_subspace v p \<noteq> None"
proof -
  have ext: "chain_fuel n v c s = Some (Some r) \<Longrightarrow> \<exists>rest. r = c @ rest" for n c s r
    by (induction n v c s rule: chain_fuel.induct) (auto split: option.splits if_splits)
  from assms have f: "chain_fuel (Suc (length (sub_keys v))) v [] s = Some (Some chain)"
    by (auto simp: chainOf_def split: option.splits)
  show "scope_of chain = s" "s = Some p \<Longrightarrow> get_subspace v p \<noteq> None"
    using f by (cases s; auto simp: scope_of_def split: option.splits dest!: ext)+
qed

theorem dispatch_steps:
  assumes "owned (vw st) ow" "chainOf (vw st) s = Some chain"
    and "dispatch E d (ctx_of (vw st) chain author) code st = Inr st1"
  shows "vsteps ow (vw st) (vw st1)"
proof -
  let ?cx = "ctx_of (vw st) chain author"
  have sub: "get_subspace (vw st) p \<noteq> None" if "cx_scope ?cx = Some p" for p
    using scope_of_chain [OF assms(2)] that by (simp add: ctx_of_def Let_def)
  have cx: "scope_of (cx_chain ?cx) = cx_scope ?cx" by (simp add: ctx_of_def Let_def)
  note hs = do_member_add_steps [OF assms(1)] do_member_remove_steps [OF assms(1)] do_role_define_steps
    do_role_set_steps [OF assms(1)] do_writer_add_steps do_settings_set_steps [OF assms(1) sub]
    do_types_set_steps do_logs_list_steps do_subspace_create_steps [OF sub] do_key_rotate_steps
  show ?thesis
    using assms(3) hs do_moderate_steps [OF assms(1) cx] do_redeem_steps [OF assms(1)] do_revoke_steps do_device_remove_steps
    unfolding dispatch_def Let_def by (cases "d_body d") (auto split: if_splits)
qed

end
