(* ===== verification/Invariants.thy ===== *)
theory Invariants
  imports Apply_Steps
begin

text \<open>
  From one permitted write to everything a space's log can do: \<open>applyNode_cases\<close> says what one
  node of the log does to the view, and two locales carry a fact about single writes to every
  reachable state: \<open>view_invariant\<close> (what always holds) and \<open>view_monotone\<close> (what applying more
  decisions never takes back). Both are interpreted below on the model's own facts.
\<close>

section \<open>One node\<close>

definition listing :: "vkey \<Rightarrow> bool" where
  "listing k \<longleftrightarrow> is_KLog k \<or> k = KCount"

text \<open>Before \<open>space/init\<close> the view holds the decision list only.\<close>

definition fresh :: "view \<Rightarrow> bool" where
  "fresh v \<longleftrightarrow> (\<forall>k. \<not> listing k \<longrightarrow> v k = None)"

definition listed_to :: "view \<Rightarrow> view \<Rightarrow> bool" where
  "listed_to v w \<longleftrightarrow> (\<forall>k. \<not> listing k \<longrightarrow> w k = v k) \<and>
     (\<forall>k x. listing k \<longrightarrow> w k = Some x \<longrightarrow> typed k x \<or> v k = Some x)"

inductive begins :: "view \<Rightarrow> string \<Rightarrow> view \<Rightarrow> bool" where
  "get_meta v None = None \<Longrightarrow> mb_role m = ''owner'' \<Longrightarrow> mt_owner mt = Some ow \<Longrightarrow> \<not> mt_public mt \<Longrightarrow>
   w_identity wi = ow \<Longrightarrow>
   begins v ow (v(KMeta None \<mapsto> VMeta mt, KMember None ow \<mapsto> VMember m,
     KWriter key \<mapsto> VWriter wi, KWriters ow \<mapsto> VWriters [key]))"

lemma listed_to_refl [simp]: "listed_to v v"
  by (simp add: listed_to_def)

lemma listing_None [simp]: "\<not> listing (KMeta s)" "\<not> listing (KWriter a)" "\<not> listing (KMember s a)"
  "\<not> listing (KBanned s a)"
  by (simp_all add: listing_def)

lemma fresh_key: "fresh v \<Longrightarrow> \<not> listing k \<Longrightarrow> v k = None"
  by (simp add: fresh_def)

lemma begins_owned:
  assumes "fresh v" "begins v ow w"
  shows "owned w ow"
  using assms(2)
proof cases
  case (1 m mt wi key)
  have fr: "\<not> listing k \<Longrightarrow> v k = None" for k using assms(1) by (simp add: fresh_def)
  show ?thesis
    by (rule ownedI [of _ mt _ m]) (simp_all add: 1 getters fr split: if_splits)
qed

lemma fresh_listed: "fresh v \<Longrightarrow> listed_to v w \<Longrightarrow> fresh w"
  by (simp add: fresh_def listed_to_def)

lemma owned_listed: "owned v ow \<Longrightarrow> listed_to v w \<Longrightarrow> owned w ow"
proof (erule owned_frame)
  fix k assume "listed_to v w" "is_KMember k \<or> is_KBanned k \<or> k = KMeta None"
  then show "w k = v k" by (cases k) (simp_all add: listed_to_def listing_def)
qed

lemma listed_to_entry: "listed_to v (v(KLog n \<mapsto> VLog e, KCount \<mapsto> VCount m))"
  unfolding listed_to_def
proof (intro conjI allI impI)
  show "(v(KLog n \<mapsto> VLog e, KCount \<mapsto> VCount m)) k = v k" if "\<not> listing k" for k
    using that by (cases k) (simp_all add: listing_def)
  show "typed k x \<or> v k = Some x" if "(v(KLog n \<mapsto> VLog e, KCount \<mapsto> VCount m)) k = Some x" for k x
    using that by (auto split: if_splits)
qed

lemma listDecision_listed:
  assumes "listDecision E d wr w counted s st = Inr st1"
  shows "listed_to (vw st) (vw st1)"
proof -
  from assms obtain e where "vw st1 = (vw st)(KLog (case get_count (vw st) of None \<Rightarrow> 0 | Some k \<Rightarrow> k) \<mapsto> VLog e,
      KCount \<mapsto> VCount ((case get_count (vw st) of None \<Rightarrow> 0 | Some k \<Rightarrow> k) + 1))"
    unfolding listDecision_def Let_def by (cases "details_of E (d_body d)") auto
  then show ?thesis by (simp only: listed_to_entry)
qed

text \<open>What applying one decision does: nothing, the beginning of the space, or permitted steps.\<close>

inductive node_effect :: "view \<Rightarrow> view \<Rightarrow> bool" where
  same: "node_effect v v"
| starts: "fresh v \<Longrightarrow> begins v ow w \<Longrightarrow> node_effect v w"
| steps: "owned v ow \<Longrightarrow> vsteps ow v w \<Longrightarrow> node_effect v w"

lemma do_space_init_cases:
  obtains (no) "do_space_init E wr n name parent priv policy version pf st = st"
  | (yes) identity where "begins (vw st) (hex identity) (vw (do_space_init E wr n name parent priv policy version pf st))"
proof (cases "get_meta (vw st) None \<noteq> None \<or> wr \<noteq> e_space E
    \<or> Identity_verify E pf (writerSignable wr (e_space E)) = None")
  case True
  then show thesis by (intro no) (auto simp: do_space_init_def)
next
  case False
  then obtain identity device where iv: "Identity_verify E pf (writerSignable wr (e_space E)) = Some (identity, device)"
    by auto
  with False show thesis
    by (intro yes [of identity]) (simp add: do_space_init_def Let_def begins.simps no_meta_def, fastforce)
qed

lemma applyOne_effect:
  assumes "fresh (vw st) \<or> (\<exists>ow. owned (vw st) ow)" "chainOf (vw st) s = Some chain"
    and "applyOne E d wr chain code st = Inr st1"
  shows "node_effect (vw st) (vw st1)"
proof (cases "\<exists>a b c d' e f. d_body d = SpaceInit a b c d' e f")
  case True
  then obtain name parent priv policy version pf where
    st1: "st1 = do_space_init E wr (d_stamp d) name parent priv policy version pf st"
    using assms(3) by (auto simp: applyOne_def)
  show ?thesis
  proof (rule do_space_init_cases [of E wr "d_stamp d" name parent priv policy version pf st])
    assume "do_space_init E wr (d_stamp d) name parent priv policy version pf st = st"
    then show ?thesis unfolding st1 by (simp add: node_effect.same)
  next
    fix identity assume b: "begins (vw st) (hex identity) (vw (do_space_init E wr (d_stamp d) name parent priv policy version pf st))"
    then have "get_meta (vw st) None = None" by cases
    with assms(1) have "fresh (vw st)" using ownedD(1) by fastforce
    with b show ?thesis unfolding st1 by (rule node_effect.starts [rotated])
  qed
next
  case False
  then have a: "applyOne E d wr chain code st = (case get_writer (vw st) (hex wr) of None \<Rightarrow> Inr st
     | Some w \<Rightarrow> dispatch E d (ctx_of (vw st) chain (w_identity w)) code st)"
    by (cases "d_body d") (simp_all add: applyOne_def)
  show ?thesis
  proof (cases "get_writer (vw st) (hex wr)")
    case None
    with a assms(3) show ?thesis by (simp add: node_effect.same)
  next
    case (Some w)
    have "get_writer (vw st) (hex wr) = None" if "fresh (vw st)"
      using fresh_key [OF that, of "KWriter (hex wr)"] by (simp add: getters)
    with Some have "\<not> fresh (vw st)" by fastforce
    with assms(1) obtain ow where ow: "owned (vw st) ow" by blast
    from Some a assms(3) have "dispatch E d (ctx_of (vw st) chain (w_identity w)) code st = Inr st1" by simp
    from node_effect.steps [OF ow dispatch_steps [OF ow assms(2) this]] show ?thesis .
  qed
qed

lemma applyNode_cases:
  assumes "applyNode E n st = Inr st1"
  obtains (same) "st1 = st"
  | (ran) d0 s d ignored mid counted where "e_decode_decision E (fst n) = Some d0" "unwrap E d0 = Some (s, d, ignored)"
      "(case chainOf (vw st) s of None \<Rightarrow> Inr st
        | Some chain \<Rightarrow> if ignored then Inr st
            else applyOne E d (snd n) chain (hex (e_hash E (snd n @ fst n))) (st\<lparr>writes := 0\<rparr>)) = Inr mid"
      "st1 = mid \<or> listDecision E d (snd n) (get_writer (vw st) (hex (snd n))) counted s mid = Inr st1"
proof (cases "e_decode_decision E (fst n)")
  case None
  with assms show thesis by (intro same) (simp add: applyNode_def)
next
  case d0: (Some d0)
  show thesis
  proof (cases "unwrap E d0")
    case None
    with d0 assms show thesis by (intro same) (simp add: applyNode_def)
  next
    case (Some x)
    obtain s d ignored where x: "x = (s, d, ignored)" by (cases x)
    let ?mid = "case chainOf (vw st) s of None \<Rightarrow> Inr st
        | Some chain \<Rightarrow> if ignored then Inr st
            else applyOne E d (snd n) chain (hex (e_hash E (snd n @ fst n))) (st\<lparr>writes := 0\<rparr>)"
    from assms d0 Some x obtain mid where mid: "?mid = Inr mid"
      by (cases ?mid) (simp_all add: applyNode_def Let_def)
    from assms d0 Some x mid show thesis
      by (intro ran [OF d0 _ mid]) (auto simp: applyNode_def Let_def split: if_splits)
  qed
qed

lemma applyNode_effect:
  assumes "fresh (vw st) \<or> (\<exists>ow. owned (vw st) ow)" "applyNode E n st = Inr st1"
  shows "\<exists>v. node_effect (vw st) v \<and> listed_to v (vw st1)"
  using assms(2)
proof (cases rule: applyNode_cases)
  case same
  then show ?thesis using node_effect.same listed_to_refl by blast
next
  case (ran d0 s d ignored mid counted)
  have "node_effect (vw st) (vw mid)"
  proof (cases "chainOf (vw st) s = None \<or> ignored")
    case True
    with ran(3) show ?thesis by (auto simp: node_effect.same split: option.splits)
  next
    case False
    then obtain chain where chain: "chainOf (vw st) s = Some chain" by auto
    with False ran(3) have "applyOne E d (snd n) chain (hex (e_hash E (snd n @ fst n))) (st\<lparr>writes := 0\<rparr>) = Inr mid"
      by simp
    from applyOne_effect [OF _ _ this] assms(1) chain show ?thesis by simp
  qed
  moreover have "listed_to (vw mid) (vw st1)"
    using ran(4) listDecision_listed by auto
  ultimately show ?thesis by blast
qed

section \<open>The owner of a space\<close>

lemma node_effect_owned:
  "node_effect v w \<Longrightarrow> owned v ow \<Longrightarrow> owned w ow"
proof (induction rule: node_effect.induct)
  case (starts v ow' w)
  then show ?case using ownedD(1) [of v ow] by (auto simp: fresh_def getters)
next
  case (steps v ow' w)
  have "ow' = ow" using ownedD(1) [OF steps(1)] ownedD(1) [OF steps(3)] by auto
  with steps vsteps_owned show ?case by blast
qed simp

lemma node_effect_begun:
  "node_effect v w \<Longrightarrow> fresh v \<or> (\<exists>ow. owned v ow) \<Longrightarrow> fresh w \<or> (\<exists>ow. owned w ow)"
proof (induction rule: node_effect.induct)
  case (starts v ow w)
  then show ?case using begins_owned by blast
next
  case (steps v ow w)
  then show ?case using vsteps_owned by blast
qed simp

text \<open>Every space a log can describe has either not begun or has its one owner.\<close>

lemma reachable_begun: "reachable E st \<Longrightarrow> fresh (vw st) \<or> (\<exists>ow. owned (vw st) ow)"
proof (induction rule: reachable.induct)
  case empty
  show ?case by (simp add: fresh_def empty_vstate_def)
next
  case (node st n st1)
  obtain v where v: "node_effect (vw st) v" "listed_to v (vw st1)"
    using applyNode_effect [OF node.IH node.hyps(2)] by blast
  show ?case
    using node_effect_begun [OF v(1) node.IH] fresh_listed [OF _ v(2)] owned_listed [OF _ v(2)] by blast
qed

lemma applyNode_owned:
  assumes "applyNode E n st = Inr st1" "owned (vw st) ow"
  shows "owned (vw st1) ow"
proof -
  obtain v where v: "node_effect (vw st) v" "listed_to v (vw st1)"
    using applyNode_effect [OF _ assms(1)] assms(2) by blast
  show ?thesis by (rule owned_listed [OF node_effect_owned [OF v(1) assms(2)] v(2)])
qed

lemma applyNodes_owned:
  "applyNodes E ns st = Inr st1 \<Longrightarrow> owned (vw st) ow \<Longrightarrow> owned (vw st1) ow"
  by (induction ns arbitrary: st) (auto split: sum.splits dest: applyNode_owned)

section \<open>Facts that always hold\<close>

locale view_invariant =
  fixes I :: "view \<Rightarrow> bool"
  assumes empty: "I Map.empty"
    and begins: "I v \<Longrightarrow> fresh v \<Longrightarrow> begins v ow w \<Longrightarrow> I w"
    and step: "I v \<Longrightarrow> owned v ow \<Longrightarrow> vstep ow v w \<Longrightarrow> I w"
    and listed: "I v \<Longrightarrow> listed_to v w \<Longrightarrow> I w"
begin

lemma vsteps_inv: "vsteps ow v w \<Longrightarrow> owned v ow \<Longrightarrow> I v \<Longrightarrow> I w \<and> owned w ow"
  by (induction rule: rtranclp_induct) (blast intro: step vstep_owned)+

lemma effect_inv: "node_effect v w \<Longrightarrow> I v \<Longrightarrow> I w"
  by (induction rule: node_effect.induct) (blast intro: begins dest: vsteps_inv)+

lemma node_inv: "reachable E st \<Longrightarrow> I (vw st) \<Longrightarrow> applyNode E n st = Inr st1 \<Longrightarrow> I (vw st1)"
  using applyNode_effect [OF reachable_begun] effect_inv listed by blast

lemma reachable_inv: "reachable E st \<Longrightarrow> I (vw st)"
  by (induction rule: reachable.induct) (auto simp: empty_vstate_def empty intro: node_inv)

end

section \<open>What is never taken back\<close>

locale view_monotone = view_invariant I for I +
  fixes R :: "view \<Rightarrow> view \<Rightarrow> bool"
  assumes refl: "R v v"
    and trans: "R u v \<Longrightarrow> R v w \<Longrightarrow> R u w"
    and begins_rel: "I v \<Longrightarrow> fresh v \<Longrightarrow> begins v ow w \<Longrightarrow> R v w"
    and step_rel: "I v \<Longrightarrow> owned v ow \<Longrightarrow> vstep ow v w \<Longrightarrow> R v w"
    and listed_rel: "I v \<Longrightarrow> listed_to v w \<Longrightarrow> R v w"
begin

lemma vsteps_rel: "vsteps ow v w \<Longrightarrow> owned v ow \<Longrightarrow> I v \<Longrightarrow> R v w"
proof (induction rule: rtranclp_induct)
  case (step u w)
  have "I u" "owned u ow" using vsteps_inv [OF step.hyps(1) step.prems] by simp_all
  with step show ?case using step_rel trans by blast
qed (rule refl)

lemma effect_rel: "node_effect v w \<Longrightarrow> I v \<Longrightarrow> R v w"
  by (induction rule: node_effect.induct) (auto intro: refl begins_rel vsteps_rel)

lemma node_rel:
  assumes "reachable E st" "applyNode E n st = Inr st1"
  shows "R (vw st) (vw st1)"
proof -
  obtain v where v: "node_effect (vw st) v" "listed_to v (vw st1)"
    using applyNode_effect [OF reachable_begun [OF assms(1)] assms(2)] by blast
  have I: "I (vw st)" by (rule reachable_inv [OF assms(1)])
  show ?thesis
    using effect_rel [OF v(1) I] listed_rel [OF effect_inv [OF v(1) I] v(2)] by (rule trans)
qed

lemma nodes_rel:
  "reachable E st \<Longrightarrow> applyNodes E ns st = Inr st1 \<Longrightarrow> R (vw st) (vw st1)"
proof (induction ns arbitrary: st)
  case (Cons n ns)
  then obtain st' where st': "applyNode E n st = Inr st'" "applyNodes E ns st' = Inr st1"
    by (auto split: sum.splits)
  have "R (vw st') (vw st1)"
    by (rule Cons.IH [OF reachable.node [OF Cons.prems(1) st'(1)] st'(2)])
  with node_rel [OF Cons.prems(1) st'(1)] show ?case by (rule trans)
qed (simp add: refl)

end

end
