(* ===== verification/Promises.thy ===== *)
theory Promises
  imports Invariants
begin

text \<open>
  What always holds of a space's decisions, and what more decisions never take back: the
  interpretations of \<open>view_invariant\<close> and \<open>view_monotone\<close>.
\<close>

section \<open>What a step does to each kind of key\<close>

lemma kind_keys [simp]:
  "\<not> cut_kind (KMeta s)" "\<not> cut_kind (KMember s i)" "\<not> cut_kind (KBanned s i)" "\<not> cut_kind (KMod s i)"
  "\<not> cut_kind (KRedeemed s n i)" "\<not> cut_kind (KUses s n)" "\<not> cut_kind (KRevoked s n)" "\<not> cut_kind (KEpochs s)"
  "\<not> cut_kind (KWriter k)" "\<not> cut_kind (KWriters i)" "\<not> cut_kind (KGone i d)" "\<not> cut_kind (KRole r)"
  "\<not> cut_kind (KSubspace h)" "\<not> cut_kind KSubspaces" "\<not> cut_kind (KListed l)" "\<not> cut_kind KTypes"
  "\<not> cut_kind (KTypesAt m)" "\<not> cut_kind (KLog m)" "\<not> cut_kind KCount"
  "\<not> writer_kind (KMeta s)" "\<not> writer_kind (KMember s i)" "\<not> writer_kind (KBanned s i)" "\<not> writer_kind (KMod s i)"
  "\<not> writer_kind (KRedeemed s n i)" "\<not> writer_kind (KUses s n)" "\<not> writer_kind (KRevoked s n)" "\<not> writer_kind (KEpochs s)"
  "\<not> writer_kind (KCut s i)" "\<not> writer_kind (KEditcut s i)" "\<not> writer_kind (KAdmit s i)" "\<not> writer_kind (KRole r)"
  "\<not> writer_kind (KSubspace h)" "\<not> writer_kind KSubspaces" "\<not> writer_kind (KListed l)" "\<not> writer_kind KTypes"
  "\<not> writer_kind (KTypesAt m)" "\<not> writer_kind (KLog m)" "\<not> writer_kind KCount"
  by (simp_all add: cut_kind_def writer_kind_def)

lemma vstep_typed: "vstep ow v w \<Longrightarrow> well_typed v \<Longrightarrow> well_typed w"
  by (induction rule: vstep.induct) simp_all

lemma vstep_mod:
  "vstep ow v w \<Longrightarrow> get_mod v s r = Some m \<Longrightarrow> md_removed m \<Longrightarrow> get_mod w s r = Some m"
  by (induction rule: vstep.induct) (auto simp: getters)

lemma vstep_revoked:
  "vstep ow v w \<Longrightarrow> get_revoked v s n = Some x \<Longrightarrow> get_revoked w s n = Some x"
  by (induction rule: vstep.induct) (auto simp: getters)

lemma vstep_redeemed:
  "vstep ow v w \<Longrightarrow> get_redeemed v s n i = Some x \<Longrightarrow> get_redeemed w s n i = Some x"
  by (induction rule: vstep.induct) (auto simp: getters)

lemma vstep_gone:
  "vstep ow v w \<Longrightarrow> get_gone v i d = Some x \<Longrightarrow> get_gone w i d = Some x"
proof (induction rule: vstep.induct)
  case (cuts w v)
  then have "get_gone w i d = get_gone v i d" by (simp add: getters)
  with cuts.prems show ?case by simp
qed (auto simp: getters)

lemma vstep_listed:
  "vstep ow v w \<Longrightarrow> get_listed v l = Some x \<Longrightarrow> get_listed w l = Some x"
  by (induction rule: vstep.induct) (auto simp: getters)

lemma vstep_subspace:
  "vstep ow v w \<Longrightarrow> get_subspace v h = Some x \<Longrightarrow> get_subspace w h = Some x"
  by (induction rule: vstep.induct) (auto simp: getters)

lemma vstep_meta:
  "vstep ow v w \<Longrightarrow> get_meta v s = Some m \<Longrightarrow>
    \<exists>m'. get_meta w s = Some m' \<and> mt_owner m' = mt_owner m \<and> mt_private m' = mt_private m \<and>
      (mt_public m \<longrightarrow> mt_public m')"
proof (induction rule: vstep.induct)
  case (meta_put v s' m')
  then show ?case by (cases "s' = s") (auto simp: getters)
qed (simp_all add: getters)

lemma vstep_role:
  "vstep ow v w \<Longrightarrow> get_role v r = Some e \<Longrightarrow>
    \<exists>e'. get_role w r = Some e' \<and> set (re_permissions e) - set OWN \<subseteq> set (re_permissions e')"
proof (induction rule: vstep.induct)
  case (role_put r' v x)
  then show ?case by (cases "r' = r") (auto simp: getters)
qed (auto simp: getters)

lemma writers_ok_reads:
  "get_writer w = get_writer v \<Longrightarrow> get_writers w = get_writers v \<Longrightarrow> get_gone w = get_gone v \<Longrightarrow>
    writers_ok w = writers_ok v"
  by (simp add: writers_ok_def writersOf_def)

lemma vstep_cuts: "vstep ow v w \<Longrightarrow> cuts_tighten v w"
proof (induction rule: vstep.induct)
  case (keys w v)
  then show ?case by (intro cuts_tighten_reads) (simp_all add: fun_eq_iff getters)
qed (assumption | rule cuts_tighten_reads; simp add: fun_eq_iff getters)+

lemma vstep_writers_ok: "vstep ow v w \<Longrightarrow> writers_ok v \<Longrightarrow> writers_ok w"
proof (induction rule: vstep.induct)
  case (cuts w v)
  then have "writers_ok w = writers_ok v"
    by (intro writers_ok_reads) (simp_all add: fun_eq_iff getters)
  with cuts show ?case by simp
next
  case (keys w v)
  then show ?case by blast
qed (erule iffD2 [OF writers_ok_reads, rotated -1]; simp add: fun_eq_iff getters)+

section \<open>Invariants\<close>

text \<open>An invite's uses are the identities that redeemed it.\<close>

definition redeemers :: "view \<Rightarrow> scope \<Rightarrow> string \<Rightarrow> string set" where
  "redeemers v s n = {i. get_redeemed v s n i \<noteq> None}"

definition uses_ok :: "view \<Rightarrow> bool" where
  "uses_ok v \<longleftrightarrow> (\<forall>s n. finite (redeemers v s n) \<and> uses_of v s n = card (redeemers v s n))"

lemma uses_ok_reads: "get_redeemed w = get_redeemed v \<Longrightarrow> get_uses w = get_uses v \<Longrightarrow> uses_ok w = uses_ok v"
  by (simp add: uses_ok_def redeemers_def uses_of_def)

lemma vstep_uses_ok: "vstep ow v w \<Longrightarrow> uses_ok v \<Longrightarrow> uses_ok w"
proof (induction rule: vstep.induct)
  case (cuts w v)
  then have "uses_ok w = uses_ok v" by (intro uses_ok_reads) (simp_all add: fun_eq_iff getters)
  with cuts show ?case by simp
next
  case (keys w v)
  then have "uses_ok w = uses_ok v" by (intro uses_ok_reads) (simp_all add: fun_eq_iff getters)
  with keys show ?case by simp
next
  case (redeem v s n i u t a)
  define w where "w = v(KRedeemed s n i \<mapsto> VRedeemed t a, KUses s n \<mapsto> VUses (u + 1))"
  have r: "redeemers w s' n' = (if s' = s \<and> n' = n then insert i (redeemers v s n) else redeemers v s' n')" for s' n'
    by (auto simp: w_def redeemers_def getters)
  have u: "uses_of w s' n' = (if s' = s \<and> n' = n then u + 1 else uses_of v s' n')" for s' n'
    by (simp add: w_def uses_of_def getters)
  have "i \<notin> redeemers v s n" using redeem(1) by (simp add: redeemers_def)
  moreover have "u = uses_of v s n" using redeem(2) by (simp add: uses_of_def)
  ultimately have "uses_ok w" using redeem.prems by (simp add: uses_ok_def r u)
  then show ?case by (simp only: w_def)
qed (erule iffD2 [OF uses_ok_reads, rotated -1]; simp add: fun_eq_iff getters)+

text \<open>The sub-spaces: each listed once, after its parent.\<close>

definition subs_ok :: "view \<Rightarrow> bool" where
  "subs_ok v \<longleftrightarrow>
     distinct (sub_keys v) \<and>
     (\<forall>h. get_subspace v h \<noteq> None \<longleftrightarrow> h \<in> set (sub_keys v)) \<and>
     (\<forall>xs h ys info p. sub_keys v = xs @ h # ys \<longrightarrow> get_subspace v h = Some info \<longrightarrow>
        ss_parent info = Some p \<longrightarrow> p \<in> set xs)"

lemma subs_ok_reads:
  "get_subspace w = get_subspace v \<Longrightarrow> get_subspaces w = get_subspaces v \<Longrightarrow> subs_ok w = subs_ok v"
  by (simp add: subs_ok_def sub_keys_def)

lemma subs_ok_add:
  assumes "subs_ok v" "get_subspace v h = None" "\<And>p. ss_parent info = Some p \<Longrightarrow> get_subspace v p \<noteq> None"
    and k: "sub_keys w = sub_keys v @ [h]"
    and g: "\<And>x. get_subspace w x = (if x = h then Some info else get_subspace v x)"
  shows "subs_ok w"
proof -
  have old: "distinct (sub_keys v)" "\<And>x. get_subspace v x \<noteq> None \<longleftrightarrow> x \<in> set (sub_keys v)"
    and up: "\<And>xs x ys i p. sub_keys v = xs @ x # ys \<Longrightarrow> get_subspace v x = Some i \<Longrightarrow> ss_parent i = Some p \<Longrightarrow> p \<in> set xs"
    using assms(1) unfolding subs_ok_def by blast+
  have new: "h \<notin> set (sub_keys v)" using assms(2) old(2) by blast
  have "p \<in> set xs" if e: "sub_keys v @ [h] = xs @ x # ys" and i: "get_subspace w x = Some i" and p: "ss_parent i = Some p" for xs x ys i p
  proof (cases ys rule: rev_cases)
    case Nil
    with e have x: "xs = sub_keys v" "x = h" by simp_all
    with i have "i = info" by (simp add: g)
    with assms(3) p old(2) x show ?thesis by blast
  next
    case (snoc zs z)
    with e have "sub_keys v = xs @ x # zs" by simp
    moreover from this new have "x \<noteq> h" by auto
    ultimately show ?thesis using up i p by (auto simp: g)
  qed
  then show ?thesis
    unfolding subs_ok_def k using old new by (auto simp: g)
qed

lemma vstep_subs_ok: "vstep ow v w \<Longrightarrow> subs_ok v \<Longrightarrow> subs_ok w"
proof (induction rule: vstep.induct)
  case (cuts w v)
  then have "subs_ok w = subs_ok v" by (intro subs_ok_reads) (simp_all add: fun_eq_iff getters)
  with cuts show ?case by simp
next
  case (keys w v)
  then have "subs_ok w = subs_ok v" by (intro subs_ok_reads) (simp_all add: fun_eq_iff getters)
  with keys show ?case by simp
next
  case (subspace v h info)
  define w where "w = v(KSubspace h \<mapsto> VSubspace info, KSubspaces \<mapsto> VSubspaces (sub_keys v @ [h]))"
  have "subs_ok w"
  proof (rule subs_ok_add [OF subspace.prems subspace(1,2)])
    show "sub_keys w = sub_keys v @ [h]" by (simp add: w_def sub_keys_def getters)
    show "get_subspace w x = (if x = h then Some info else get_subspace v x)" for x
      by (simp add: w_def getters)
  qed
  then show ?case by (simp only: w_def)
qed (erule iffD2 [OF subs_ok_reads, rotated -1]; simp add: fun_eq_iff getters)+

text \<open>The declarations of types: one for each version up to the current one.\<close>

definition types_version :: "view \<Rightarrow> nat" where
  "types_version v = (case get_types v of None \<Rightarrow> 0 | Some k \<Rightarrow> k)"

definition types_ok :: "view \<Rightarrow> bool" where
  "types_ok v \<longleftrightarrow> (\<forall>k. get_types_at v k \<noteq> None \<longleftrightarrow> 1 \<le> k \<and> k \<le> types_version v)"

lemma types_ok_reads: "get_types w = get_types v \<Longrightarrow> get_types_at w = get_types_at v \<Longrightarrow> types_ok w = types_ok v"
  by (simp add: types_ok_def types_version_def)

lemma vstep_types_ok: "vstep ow v w \<Longrightarrow> types_ok v \<Longrightarrow> types_ok w"
proof (induction rule: vstep.induct)
  case (cuts w v)
  then have "types_ok w = types_ok v" by (intro types_ok_reads) (simp_all add: fun_eq_iff getters)
  with cuts show ?case by simp
next
  case (keys w v)
  then have "types_ok w = types_ok v" by (intro types_ok_reads) (simp_all add: fun_eq_iff getters)
  with keys show ?case by simp
next
  case (types n v t)
  let ?w = "v(KTypesAt (n + 1) \<mapsto> VTypesAt t, KTypes \<mapsto> VTypes (n + 1))"
  have "types_version ?w = n + 1" "types_version v = n"
    using types(1) by (simp_all add: types_version_def getters)
  moreover have "get_types_at ?w k = (if k = n + 1 then Some t else get_types_at v k)" for k
    by (simp add: getters)
  ultimately show ?case using types.prems unfolding types_ok_def by auto
qed (erule iffD2 [OF types_ok_reads, rotated -1]; simp add: fun_eq_iff getters)+

text \<open>The epochs of a scope's key: each from the first to the current one has its commitment.\<close>

definition epochs_ok :: "view \<Rightarrow> bool" where
  "epochs_ok v \<longleftrightarrow> (\<forall>s e. get_epochs v s = Some e \<longrightarrow> ep_current e \<ge> -1 \<and>
     (\<forall>n. ep_commits e n \<noteq> None \<longleftrightarrow> int n \<le> ep_current e))"

lemma epochs_ok_reads: "get_epochs w = get_epochs v \<Longrightarrow> epochs_ok w = epochs_ok v"
  by (simp add: epochs_ok_def)

lemma vstep_epochs_ok: "vstep ow v w \<Longrightarrow> epochs_ok v \<Longrightarrow> epochs_ok w"
proof (induction rule: vstep.induct)
  case (cuts w v)
  then have "epochs_ok w = epochs_ok v" by (intro epochs_ok_reads) (simp_all add: fun_eq_iff getters)
  with cuts show ?case by simp
next
  case (keys w v)
  then have "epochs_ok w = epochs_ok v" by (intro epochs_ok_reads) (simp_all add: fun_eq_iff getters)
  with keys show ?case by simp
next
  case (epochs e v s e' n c)
  let ?ok = "\<lambda>e. ep_current e \<ge> -1 \<and> (\<forall>n. ep_commits e n \<noteq> None \<longleftrightarrow> int n \<le> ep_current e)"
  have "?ok e"
    using epochs.prems epochs(1) by (auto simp: epochs_ok_def no_epochs_def split: option.splits)
  then have "?ok e'"
    using epochs(2)
  proof (elim disjE)
    assume "?ok e" "int n = ep_current e + 1 \<and> ep_current e' = int n \<and> ep_commits e' = (ep_commits e)(n \<mapsto> c)"
    then show "?ok e'" by (simp add: order_le_less)
  qed simp
  define w where "w = v(KEpochs s \<mapsto> VEpochs e')"
  have "get_epochs w s' = (if s' = s then Some e' else get_epochs v s')" for s'
    by (simp add: w_def getters)
  with \<open>?ok e'\<close> have "epochs_ok w" using epochs.prems by (simp add: epochs_ok_def)
  then show ?case by (simp only: w_def)
qed (erule iffD2 [OF epochs_ok_reads, rotated -1]; simp add: fun_eq_iff getters)+

text \<open>Nothing private is public.\<close>

definition public_ok :: "view \<Rightarrow> bool" where
  "public_ok v \<longleftrightarrow>
     (\<forall>s m. get_meta v s = Some m \<longrightarrow> mt_public m \<longrightarrow> \<not> private_scope v s) \<and>
     (\<forall>h. get_meta v (Some h) \<noteq> None \<longrightarrow> get_subspace v h \<noteq> None)"

lemma private_scope_reads:
  "get_meta w None = get_meta v None \<Longrightarrow> get_subspace w = get_subspace v \<Longrightarrow> private_scope w = private_scope v"
  by (simp add: private_scope_def fun_eq_iff split: option.split)

lemma public_ok_reads: "get_meta w = get_meta v \<Longrightarrow> get_subspace w = get_subspace v \<Longrightarrow> public_ok w = public_ok v"
  using private_scope_reads [of w v] by (simp add: public_ok_def)

lemma vstep_public_ok: "vstep ow v w \<Longrightarrow> public_ok v \<Longrightarrow> public_ok w"
proof (induction rule: vstep.induct)
  case (cuts w v)
  then have "public_ok w = public_ok v" by (intro public_ok_reads) (simp_all add: fun_eq_iff getters)
  with cuts show ?case by simp
next
  case (keys w v)
  then have "public_ok w = public_ok v" by (intro public_ok_reads) (simp_all add: fun_eq_iff getters)
  with keys show ?case by simp
next
  case (meta_put v s m')
  define w where "w = v(KMeta s \<mapsto> VMeta m')"
  have m: "get_meta w s' = (if s' = s then Some m' else get_meta v s')" for s' by (simp add: w_def getters)
  have g: "get_subspace w = get_subspace v" by (simp add: w_def getters fun_eq_iff)
  have p: "private_scope w s' = private_scope v s'" for s'
  proof (cases s')
    case None
    show ?thesis
    proof (cases "s = None")
      case True
      then obtain m0 where "get_meta v None = Some m0" using meta_put(2) by blast
      with meta_put(1) True None show ?thesis by (simp add: private_scope_def m)
    qed (use None in \<open>auto simp: private_scope_def m\<close>)
  qed (simp add: private_scope_def g)
  have "\<not> private_scope v s" if "mt_public m'"
    using meta_put(4) [OF that] meta_put.prems by (auto simp: public_ok_def)
  then have "public_ok w"
    using meta_put.prems meta_put(3) by (auto simp: public_ok_def m g p)
  then show ?case by (simp only: w_def)
next
  case (subspace v h info)
  define w where "w = v(KSubspace h \<mapsto> VSubspace info, KSubspaces \<mapsto> VSubspaces (sub_keys v @ [h]))"
  have m: "get_meta w = get_meta v" by (simp add: w_def getters fun_eq_iff)
  have g: "get_subspace w x = (if x = h then Some info else get_subspace v x)" for x by (simp add: w_def getters)
  have none: "get_meta v (Some h) = None" using subspace by (auto simp: public_ok_def)
  have "public_ok w"
    unfolding public_ok_def m
  proof (intro conjI allI impI)
    fix s x assume x: "get_meta v s = Some x" "mt_public x"
    then have "s \<noteq> Some h" using none by auto
    with x subspace.prems show "\<not> private_scope w s"
      by (auto simp: public_ok_def private_scope_def m g split: option.splits)
  next
    fix h' assume "get_meta v (Some h') \<noteq> None"
    with subspace.prems show "get_subspace w h' \<noteq> None" by (auto simp: public_ok_def g)
  qed
  then show ?case by (simp only: w_def)
qed (erule iffD2 [OF public_ok_reads, rotated -1]; simp add: fun_eq_iff getters)+

text \<open>Nobody banned has an entry of their own in the top space, and no role is empty.\<close>

definition bans_ok :: "view \<Rightarrow> bool" where
  "bans_ok v \<longleftrightarrow>
     (\<forall>i. get_banned v None i \<noteq> None \<longrightarrow> get_member v None i = None) \<and>
     (\<forall>s i m. get_member v s i = Some m \<longrightarrow> mb_role m \<noteq> [])"

lemma bans_ok_reads: "get_member w = get_member v \<Longrightarrow> get_banned w = get_banned v \<Longrightarrow> bans_ok w = bans_ok v"
  by (simp add: bans_ok_def)

lemma bans_okI:
  assumes "bans_ok v"
    and "\<And>s j m. get_member w s j = Some m \<Longrightarrow> get_member v s j = Some m \<or> mb_role m \<noteq> [] \<and> (s = None \<longrightarrow> get_banned w None j = None)"
    and "\<And>j. get_banned w None j \<noteq> None \<Longrightarrow> get_banned v None j \<noteq> None \<or> get_member w None j = None"
  shows "bans_ok w"
  unfolding bans_ok_def
proof (intro conjI allI impI)
  fix j assume b: "get_banned w None j \<noteq> None"
  show "get_member w None j = None"
  proof (cases "get_member w None j")
    case (Some m)
    with assms(2) [OF Some] b have "get_member v None j = Some m" by auto
    moreover have "get_banned v None j \<noteq> None" using assms(3) [OF b] Some by simp
    ultimately show ?thesis using assms(1) by (simp add: bans_ok_def)
  qed
next
  fix s j m assume m: "get_member w s j = Some m"
  then show "mb_role m \<noteq> []" using assms(1,2) unfolding bans_ok_def by blast
qed

lemma vstep_bans_ok: "vstep ow v w \<Longrightarrow> bans_ok v \<Longrightarrow> bans_ok w"
proof (induction rule: vstep.induct)
  case (cuts w v)
  then have "bans_ok w = bans_ok v" by (intro bans_ok_reads) (simp_all add: fun_eq_iff getters)
  with cuts show ?case by simp
next
  case (keys w v)
  then have "bans_ok w = bans_ok v" by (intro bans_ok_reads) (simp_all add: fun_eq_iff getters)
  with keys show ?case by simp
next
  case (member_put i m s v)
  show ?case
    by (rule bans_okI [OF member_put.prems], unfold get_member_upd)
      (use member_put.hyps in \<open>auto split: if_splits\<close>)
next
  case (member_del i v s)
  show ?case
    by (rule bans_okI [OF member_del.prems], unfold get_member_upd) (auto split: if_splits)
next
  case (ban_put i s v b)
  have "get_member v None i = None" if "s = None"
    using ban_put.hyps(2) [OF that] ban_put.prems unfolding bans_ok_def by (meson not_None_eq)
  then show ?case
    by (intro bans_okI [OF ban_put.prems], unfold get_member_upd) (auto split: if_splits)
next
  case (ban_out i v s b)
  show ?case
    by (rule bans_okI [OF ban_out.prems], unfold get_member_upd) (auto split: if_splits)
next
  case (ban_del v s i)
  show ?case
    by (rule bans_okI [OF ban_del.prems], unfold get_member_upd) (auto split: if_splits)
qed (erule iffD2 [OF bans_ok_reads, rotated -1]; simp add: fun_eq_iff getters)+

section \<open>What a fresh view and the decision list say of it\<close>

lemma listed_getters:
  assumes "listed_to v w"
  shows "get_writer w = get_writer v" "get_writers w = get_writers v" "get_gone w = get_gone v"
    "get_meta w = get_meta v" "get_mod w = get_mod v" "get_redeemed w = get_redeemed v"
    "get_uses w = get_uses v" "get_revoked w = get_revoked v" "get_epochs w = get_epochs v"
    "get_role w = get_role v" "get_subspace w = get_subspace v" "get_subspaces w = get_subspaces v"
    "get_listed w = get_listed v" "get_types w = get_types v" "get_types_at w = get_types_at v"
    "get_cut w = get_cut v" "get_editcut w = get_editcut v"
    "get_member w = get_member v" "get_banned w = get_banned v" "get_admit w = get_admit v"
  using assms by (simp_all add: fun_eq_iff getters listed_to_def listing_def)

lemma begins_getters:
  assumes "fresh v" "begins v ow w"
  shows "get_gone w i d = None" "get_meta w (Some h) = None" "get_mod w s r = None"
    "get_redeemed w s n i = None" "get_uses w s n = None" "get_epochs w s = None"
    "get_subspace w h = None" "get_subspaces w = None" "get_types w = None" "get_types_at w m = None"
    "\<exists>mt. get_meta w None = Some mt \<and> \<not> mt_public mt"
  using assms(2) fresh_key [OF assms(1)] by (cases, simp add: getters listing_def)+

lemma fresh_getters:
  assumes "fresh v"
  shows "get_gone v i d = None" "get_meta v s = None" "get_mod v s r = None"
    "get_redeemed v s n i = None" "get_uses v s n = None" "get_revoked v s n = None"
    "get_epochs v s = None" "get_role v r = None" "get_subspace v h = None" "get_listed v l = None"
    "get_types_at v m = None" "get_cut v s i = None" "get_editcut v s i = None"
  using fresh_key [OF assms] by (simp_all add: getters listing_def)

lemma begins_writers_ok:
  assumes "fresh v" "begins v ow w"
  shows "writers_ok w"
  using assms(2)
proof cases
  case (1 m mt wi key)
  have wr: "get_writer w k = (if k = key then Some wi else None)" for k
    using fresh_key [OF assms(1), of "KWriter k"] by (simp add: 1(1) getters)
  have ws: "writersOf w i = (if i = ow then [key] else [])" for i
    using fresh_key [OF assms(1), of "KWriters i"] by (simp add: 1(1) getters writersOf_def listing_def)
  show ?thesis
    using 1(6) begins_getters(1) [OF assms] by (auto simp: writers_ok_def wr ws)
qed

section \<open>The invariants, on every reachable view\<close>

interpretation typed: view_invariant well_typed
proof
  show "well_typed Map.empty" by (simp add: well_typed_def)
  show "well_typed w" if "well_typed v" "begins v ow w" for v ow w
    using that(2,1) by cases simp
  show "well_typed w" if "well_typed v" "listed_to v w" for v w
    using that unfolding well_typed_def listed_to_def by metis
qed (rule vstep_typed)

interpretation keys: view_invariant writers_ok
proof
  show "writers_ok Map.empty" by (simp add: writers_ok_def writersOf_def getters)
  show "writers_ok w" if "writers_ok v" "listed_to v w" for v w
    using that writers_ok_reads [of w v] by (simp add: listed_getters)
qed (auto intro: begins_writers_ok vstep_writers_ok)

interpretation uses: view_invariant uses_ok
proof
  show "uses_ok Map.empty" by (simp add: uses_ok_def redeemers_def uses_of_def getters)
  show "uses_ok w" if "fresh v" "begins v ow w" for v ow w
    by (simp add: uses_ok_def redeemers_def uses_of_def begins_getters [OF that])
  show "uses_ok w" if "uses_ok v" "listed_to v w" for v w
    using that uses_ok_reads [of w v] by (simp add: listed_getters)
qed (rule vstep_uses_ok)

interpretation subs: view_invariant subs_ok
proof
  show "subs_ok Map.empty" by (simp add: subs_ok_def sub_keys_def getters)
  show "subs_ok w" if "fresh v" "begins v ow w" for v ow w
    by (simp add: subs_ok_def sub_keys_def begins_getters [OF that])
  show "subs_ok w" if "subs_ok v" "listed_to v w" for v w
    using that subs_ok_reads [of w v] by (simp add: listed_getters)
qed (rule vstep_subs_ok)

interpretation bans: view_invariant bans_ok
proof
  show "bans_ok Map.empty" by (simp add: bans_ok_def getters)
  show "bans_ok w" if "fresh v" "begins v ow w" for v ow w
    using that(2) fresh_key [OF that(1)]
    by cases (auto simp: bans_ok_def getters listing_def split: if_splits)
  show "bans_ok w" if "bans_ok v" "listed_to v w" for v w
    using that bans_ok_reads [of w v] by (simp add: listed_getters)
qed (rule vstep_bans_ok)

text \<open>Types, epochs and public scopes: with what each promises never to change.\<close>

definition types_kept :: "view \<Rightarrow> view \<Rightarrow> bool" where
  "types_kept v w \<longleftrightarrow> (\<forall>k t. get_types_at v k = Some t \<longrightarrow> get_types_at w k = Some t)"

definition commits_kept :: "view \<Rightarrow> view \<Rightarrow> bool" where
  "commits_kept v w \<longleftrightarrow> (\<forall>s e n c. get_epochs v s = Some e \<longrightarrow> ep_commits e n = Some c \<longrightarrow>
     (\<exists>e'. get_epochs w s = Some e' \<and> ep_current e \<le> ep_current e' \<and> ep_commits e' n = Some c))"

definition settings_kept :: "view \<Rightarrow> view \<Rightarrow> bool" where
  "settings_kept v w \<longleftrightarrow> (\<forall>s m. get_meta v s = Some m \<longrightarrow>
     (\<exists>m'. get_meta w s = Some m' \<and> mt_owner m' = mt_owner m \<and> mt_private m' = mt_private m \<and>
        (mt_public m \<longrightarrow> mt_public m')))"

definition roles_kept :: "view \<Rightarrow> view \<Rightarrow> bool" where
  "roles_kept v w \<longleftrightarrow> (\<forall>r e. get_role v r = Some e \<longrightarrow>
     (\<exists>e'. get_role w r = Some e' \<and> set (re_permissions e) - set OWN \<subseteq> set (re_permissions e')))"

text \<open>What is written once: removed records, revoked invites, redemptions, removed devices,
  the logs listed and the sub-spaces created.\<close>

definition records_kept :: "view \<Rightarrow> view \<Rightarrow> bool" where
  "records_kept v w \<longleftrightarrow>
     (\<forall>s r m. get_mod v s r = Some m \<longrightarrow> md_removed m \<longrightarrow> get_mod w s r = Some m) \<and>
     (\<forall>s n x. get_revoked v s n = Some x \<longrightarrow> get_revoked w s n = Some x) \<and>
     (\<forall>s n i x. get_redeemed v s n i = Some x \<longrightarrow> get_redeemed w s n i = Some x) \<and>
     (\<forall>i d x. get_gone v i d = Some x \<longrightarrow> get_gone w i d = Some x) \<and>
     (\<forall>l x. get_listed v l = Some x \<longrightarrow> get_listed w l = Some x) \<and>
     (\<forall>h x. get_subspace v h = Some x \<longrightarrow> get_subspace w h = Some x)"

lemma vstep_types_kept:
  assumes "types_ok v" "vstep ow v w"
  shows "types_kept v w"
proof -
  have "get_types_at w k = Some t" if k: "get_types_at v k = Some t" for k t
    using assms(2)
  proof (cases rule: vstep.cases)
    case (types n t')
    have "get_types_at v k \<noteq> None" using k by simp
    then have "k \<le> types_version v" using assms(1) unfolding types_ok_def by blast
    then have "k \<noteq> n + 1" using types(2) by (simp add: types_version_def)
    with k show ?thesis by (simp add: types(1) getters)
  qed (use k in \<open>simp_all add: getters\<close>)
  then show ?thesis by (simp add: types_kept_def)
qed

lemma vstep_commits_kept:
  assumes "epochs_ok v" "vstep ow v w"
  shows "commits_kept v w"
proof -
  have "\<exists>e'. get_epochs w s = Some e' \<and> ep_current e \<le> ep_current e' \<and> ep_commits e' n = Some c"
    if e: "get_epochs v s = Some e" "ep_commits e n = Some c" for s e n c
    using assms(2)
  proof (cases rule: vstep.cases)
    case (epochs e0 s' e' n' c')
    show ?thesis
    proof (cases "s' = s")
      case True
      then have "e0 = e" using epochs(2) e by simp
      have n: "int n \<le> ep_current e" using assms(1) e unfolding epochs_ok_def by blast
      have "get_epochs w s = Some e'" by (simp add: epochs(1) True getters)
      moreover have "ep_current e \<le> ep_current e' \<and> ep_commits e' n = Some c"
        using epochs(3) \<open>e0 = e\<close> e(2) n by auto
      ultimately show ?thesis by blast
    qed (use e in \<open>simp add: epochs(1) getters\<close>)
  qed (use e in \<open>simp_all add: getters\<close>)
  then show ?thesis by (simp add: commits_kept_def)
qed

lemma vstep_records_kept: "vstep ow v w \<Longrightarrow> records_kept v w"
  unfolding records_kept_def
  using vstep_mod vstep_revoked vstep_redeemed vstep_gone vstep_listed vstep_subspace by meson

interpretation types: view_monotone types_ok types_kept
proof
  show "types_ok Map.empty" by (simp add: types_ok_def types_version_def getters)
  show "types_ok w" if "fresh v" "begins v ow w" for v ow w
    by (simp add: types_ok_def types_version_def begins_getters [OF that])
  show "types_ok w" if "types_ok v" "listed_to v w" for v w
    using that types_ok_reads [of w v] by (simp add: listed_getters)
  show "types_kept v w" if "fresh v" for v w
    by (simp add: types_kept_def fresh_getters [OF that])
  show "types_kept v w" if "listed_to v w" for v w
    by (simp add: types_kept_def listed_getters [OF that])
  show "types_kept v v" for v by (simp add: types_kept_def)
  show "types_kept u w" if "types_kept u v" "types_kept v w" for u v w
    using that by (simp add: types_kept_def)
qed (rule vstep_types_ok vstep_types_kept; assumption)+

interpretation epochs: view_monotone epochs_ok commits_kept
proof
  show "epochs_ok Map.empty" by (simp add: epochs_ok_def getters)
  show "epochs_ok w" if "fresh v" "begins v ow w" for v ow w
    by (simp add: epochs_ok_def begins_getters [OF that])
  show "epochs_ok w" if "epochs_ok v" "listed_to v w" for v w
    using that epochs_ok_reads [of w v] by (simp add: listed_getters)
  show "commits_kept v w" if "fresh v" for v w
    by (simp add: commits_kept_def fresh_getters [OF that])
  show "commits_kept v w" if "listed_to v w" for v w
    by (auto simp: commits_kept_def listed_getters [OF that])
  show "commits_kept u w" if "commits_kept u v" "commits_kept v w" for u v w
    using that unfolding commits_kept_def by (meson order_trans)
  show "commits_kept v v" for v by (auto simp: commits_kept_def)
qed (rule vstep_epochs_ok vstep_commits_kept; assumption)+

interpretation settings: view_monotone public_ok settings_kept
proof
  show "public_ok Map.empty" by (simp add: public_ok_def getters)
  show "public_ok w" if "fresh v" "begins v ow w" for v ow w
    unfolding public_ok_def using begins_getters [OF that] by (metis not_None_eq option.sel)
  show "public_ok w" if "public_ok v" "listed_to v w" for v w
    using that public_ok_reads [of w v] by (simp add: listed_getters)
  show "settings_kept v w" if "fresh v" for v w
    by (simp add: settings_kept_def fresh_getters [OF that])
  show "settings_kept v w" if "listed_to v w" for v w
    by (auto simp: settings_kept_def listed_getters [OF that])
  show "settings_kept u w" if "settings_kept u v" "settings_kept v w" for u v w
    using that unfolding settings_kept_def by metis
  show "settings_kept v v" for v by (auto simp: settings_kept_def)
  show "settings_kept v w" if "vstep ow v w" for ow v w
    using vstep_meta [OF that] unfolding settings_kept_def by blast
qed (rule vstep_public_ok; assumption)

interpretation roles: view_monotone "\<lambda>_. True" roles_kept
proof
  show "roles_kept v w" if "fresh v" for v w
    by (simp add: roles_kept_def fresh_getters [OF that])
  show "roles_kept v w" if "listed_to v w" for v w
    by (auto simp: roles_kept_def listed_getters [OF that])
  show "roles_kept u w" if "roles_kept u v" "roles_kept v w" for u v w
    using that unfolding roles_kept_def by (meson Diff_iff subset_iff)
  show "roles_kept v v" for v by (auto simp: roles_kept_def)
  show "roles_kept v w" if "vstep ow v w" for ow v w
    using vstep_role [OF that] unfolding roles_kept_def by blast
qed simp_all

interpretation cuts: view_monotone "\<lambda>_. True" cuts_tighten
proof
  show "cuts_tighten v w" if "fresh v" for v w
    by (simp add: cuts_tighten_def cuts_of_def editcuts_of_def fresh_getters [OF that])
  show "cuts_tighten v w" if "listed_to v w" for v w
    by (rule cuts_tighten_reads) (simp_all add: listed_getters [OF that])
qed (auto intro: cuts_tighten_trans vstep_cuts)

interpretation records: view_monotone "\<lambda>_. True" records_kept
proof
  show "records_kept v w" if "fresh v" for v w
    by (simp add: records_kept_def fresh_getters [OF that])
  show "records_kept v w" if "listed_to v w" for v w
    by (simp add: records_kept_def listed_getters [OF that])
  show "records_kept v w" if "vstep ow v w" for ow v w
    using that by (rule vstep_records_kept)
qed (simp_all add: records_kept_def)

end
