(* ===== verification/Example.thy ===== *)
theory Example
  imports Apply_Nodes
begin

text \<open>
  A concrete space: an environment whose codec is a table, and a log in two parts that uses
  every decision. The witnesses of the properties are evaluated on it.
\<close>

definition ex_owner :: bytes where "ex_owner = [1]"
definition ex_banned :: bytes where "ex_banned = replicate 32 3"

definition ex_invite :: invite where
  "ex_invite = \<lparr>iv_space = [0], iv_id = Some [40], iv_role = ''member'', iv_uses = 1, iv_expires = 0,
     iv_subspaces = [[7]], iv_maker = [1], iv_proof = Some [1, 9]\<rparr>"

definition ex_redemption :: redemption where
  "ex_redemption = \<lparr>rd_invite = ex_invite, rd_identity = [4], rd_writer = [41], rd_proof = Some [4, 6]\<rparr>"

definition ex_bodies :: "decision_body list" where
  "ex_bodies = [
     SpaceInit ''space'' None False ''auto'' 1 (Some [1, 9]),
     MemberAdd [2],
     RoleDefine ''reviewer'' [''post'', ''review''],
     RoleSet [2] ''moderator'' [],
     SubspaceCreate [7] ''sub'' True [''member''],
     WriterAdd [21] (Some [2, 8]),
     Moderate ''ban'' (Some ex_banned) ''spam'' [([30], 5)] None,
     InviteRedeem (Some [40]),
     SettingsSet (Some ''everything'') (Some (3, 60)) None (Some ''hidden'') None (Some True),
     TypesSet 1 ''one'',
     LogsList [([7], [50])],
     Scoped [7] (Some [16]),
     Moderate ''remove'' (Some [60]) '''' [] None,
     InviteRevoke (Some [40]),
     Moderate ''hide'' (Some [60]) '''' [] None,
     DeviceRemove [8] (Some [1]) (Some [2, 2]),
     KeyRotate 0 [99],
     RoleSet [2] ''reviewer'' [([31], 2)],
     InviteRedeem (Some [40]),
     TypesSet 2 ''two'',
     RoleSet [1] ''member'' [],
     MemberRemove [4] [([32], 1)]]"

definition ex_env :: env where
  "ex_env = \<lparr>e_space = [0],
     e_proof_chain = (\<lambda>p. Some 1),
     e_key_verify = (\<lambda>p data. case p of [i, d] \<Rightarrow> Some ([i], [d]) | _ \<Rightarrow> None),
     e_hash = take 2,
     e_encode_inviteBody = (\<lambda>iv. iv_space iv),
     e_decode_decision = (\<lambda>b. case b of
        [n] \<Rightarrow> if unat n < length ex_bodies then Some \<lparr>d_stamp = unat n, d_body = ex_bodies ! unat n\<rparr> else None
      | _ \<Rightarrow> None),
     e_decode_invite = (\<lambda>b. if b = [40] then Some ex_invite else None),
     e_decode_redemption = (\<lambda>b. if b = [40] then Some ex_redemption else None),
     e_decode_recordId = (\<lambda>b. True),
     e_types_next = (\<lambda>old new. Some new),
     e_removeable = (\<lambda>calls k. True)\<rparr>"

definition ex_log1 :: "(bytes \<times> bytes) list" where
  "ex_log1 = map (\<lambda>n. ([n], [0])) [0, 1, 2, 3, 4, 5, 6, 7, 8, 9, 10, 11, 12]"

definition ex_log2 :: "(bytes \<times> bytes) list" where
  "ex_log2 = map (\<lambda>n. ([n], [0])) [13, 14, 15, 17, 18, 19, 20, 21]"

definition ex_st1 :: vstate where
  "ex_st1 = (case applyNodes ex_env ex_log1 empty_vstate of Inr st \<Rightarrow> st | Inl _ \<Rightarrow> empty_vstate)"

definition ex_st2 :: vstate where
  "ex_st2 = (case applyNodes ex_env ex_log2 ex_st1 of Inr st \<Rightarrow> st | Inl _ \<Rightarrow> empty_vstate)"

text \<open>The whole run, evaluated once: the log applies, and what it leaves.\<close>

definition ex_first :: "view \<Rightarrow> bool" where
  "ex_first v \<longleftrightarrow>
     map_option mt_owner (get_meta v None) = Some (Some ''01'') \<and>
     map_option mt_public (get_meta v None) = Some True \<and>
     map_option md_removed (get_mod v None ''3c'') = Some True \<and>
     get_uses v None ''28'' = Some 1 \<and>
     get_redeemed v None ''28'' ''04'' = Some (7, ''01'') \<and>
     map_option re_permissions (get_role v ''reviewer'') = Some [''post'', ''review''] \<and>
     cuts_of v None (hex ex_banned) ''1e'' = Some 5 \<and>
     map_option ep_current (get_epochs v (Some ''07'')) = Some 0 \<and>
     (case get_epochs v (Some ''07'') of None \<Rightarrow> None | Some e \<Rightarrow> ep_commits e 0) = Some ''63'' \<and>
     get_types_at v 1 = Some ''one'' \<and>
     get_listed v ''32'' = Some ''07'' \<and>
     get_writer v ''15'' = Some \<lparr>w_identity = ''02'', w_device = Some ''08'', w_indexer = False\<rparr> \<and>
     roleIn v [] ''04'' = Some ''member'' \<and>
     roleIn v [''07''] ''02'' = None \<and>
     sub_keys v = [''07'']"

definition ex_second :: "view \<Rightarrow> bool" where
  "ex_second v \<longleftrightarrow>
     get_gone v ''02'' ''08'' = Some (''01'', 15) \<and>
     get_writer v ''15'' = None \<and>
     get_revoked v None ''28'' = Some (''01'', 13) \<and>
     get_types_at v 2 = Some ''two'' \<and>
     roleIn v [] ''02'' = Some ''reviewer'' \<and>
     roleIn v [] ''04'' = None"

text \<open>Single decisions, on what a part of the log left: by the owner, and by the member \<open>04\<close>.\<close>

definition ex_decide :: "vstate \<Rightarrow> string \<Rightarrow> decision_body \<Rightarrow> js_error + vstate" where
  "ex_decide st author b = dispatch ex_env \<lparr>d_stamp = 30, d_body = b\<rparr> (ctx_of (vw st) [] author) ''aa'' st"

definition ex_roles :: "view \<Rightarrow> roles" where
  "ex_roles v r = map_option re_permissions (get_role v r)"

definition ex_single :: "vstate \<Rightarrow> bool" where
  "ex_single st \<longleftrightarrow>
     map_option mb_role (get_member (vw st) None ''02'') = Some ''moderator'' \<and>
     map_option mb_role (get_member (vw st) None ''04'') = Some ''member'' \<and>
     (case ex_decide st ''01'' (RoleSet [2] ''reviewer'' []) of Inl _ \<Rightarrow> False
      | Inr st' \<Rightarrow> map_option mb_role (get_member (vw st') None ''02'') = Some ''reviewer'') \<and>
     (case ex_decide st ''01'' (MemberRemove [4] []) of Inl _ \<Rightarrow> False
      | Inr st' \<Rightarrow> get_member (vw st') None ''04'' = None) \<and>
     (case ex_decide st ''04'' (DeviceRemove [8] (Some [1]) (Some [2, 2])) of Inl _ \<Rightarrow> False
      | Inr st' \<Rightarrow> get_writer (vw st') ''15'' = None) \<and>
     list_all (\<lambda>p. \<not> can (roleIn (vw st) [] ''04'') p (ex_roles (vw st))) [''decide'', ''moderate'', ''roles'']"

definition ex_st0 :: vstate where
  "ex_st0 = (case applyNodes ex_env (take 5 ex_log1) empty_vstate of Inr st \<Rightarrow> st | Inl _ \<Rightarrow> empty_vstate)"

lemma ex_run0:
  "case applyNodes ex_env (take 5 ex_log1) empty_vstate of Inl _ \<Rightarrow> False
   | Inr st \<Rightarrow> (case ex_decide st ''01'' (InviteRedeem (Some [40])) of Inl _ \<Rightarrow> False
       | Inr st' \<Rightarrow> get_member (vw st) None ''04'' = None \<and> get_member (vw st') None ''04'' \<noteq> None)"
  by code_simp

lemma ex_run:
  "case applyNodes ex_env ex_log1 empty_vstate of Inl _ \<Rightarrow> False
   | Inr st1 \<Rightarrow> ex_first (vw st1) \<and> ex_single st1 \<and>
       (case applyNodes ex_env ex_log2 st1 of Inl _ \<Rightarrow> False | Inr st2 \<Rightarrow> ex_second (vw st2))"
  by code_simp

lemma ex_runs:
  "applyNodes ex_env ex_log1 empty_vstate = Inr ex_st1" "ex_first (vw ex_st1)"
  "applyNodes ex_env ex_log2 ex_st1 = Inr ex_st2" "ex_second (vw ex_st2)"
  "ex_single ex_st1" "applyNodes ex_env (take 5 ex_log1) empty_vstate = Inr ex_st0"
  using ex_run ex_run0 by (simp_all add: ex_st0_def ex_st1_def ex_st2_def split: sum.splits)

lemma ex_reachable: "reachable ex_env ex_st1" "reachable ex_env ex_st2" "reachable ex_env ex_st0"
  using applyNodes_reachable [OF _ ex_runs(1)] applyNodes_reachable [OF _ ex_runs(3)]
    applyNodes_reachable [OF _ ex_runs(6)]
  by (simp_all add: reachable.empty)

lemma ex_redeemed:
  "\<exists>st'. ex_decide ex_st0 ''01'' (InviteRedeem (Some [40])) = Inr st' \<and> st' \<noteq> ex_st0"
  using ex_run0 by (auto simp: ex_st0_def split: sum.splits)

text \<open>The beginning of the log, with the views it leaves written out: one decision, then two.\<close>

definition ex_begun :: vstate where
  "ex_begun = (case applyNodes ex_env (take 1 ex_log1) empty_vstate of Inr st \<Rightarrow> st | Inl _ \<Rightarrow> empty_vstate)"

definition ex_added :: vstate where
  "ex_added = (case applyNodes ex_env (take 2 ex_log1) empty_vstate of Inr st \<Rightarrow> st | Inl _ \<Rightarrow> empty_vstate)"

definition ex_entries :: "(vkey \<times> vval) list" where
  "ex_entries = [
     (KMember None ''01'', VMember \<lparr>mb_role = ''owner'', mb_by = ''01'', mb_stamp = 0, mb_writer = None, mb_writerDevice = None\<rparr>),
     (KMeta None, VMeta \<lparr>mt_name = Some ''space'', mt_owner = Some ''01'', mt_policy = Some ''auto'',
        mt_private = False, mt_version = Some 1, mt_parent = None, mt_stamp = Some 0, mt_rules = None,
        mt_writeLimit = None, mt_history = None, mt_helpers = None, mt_public = False\<rparr>),
     (KWriter ''00'', VWriter \<lparr>w_identity = ''01'', w_device = Some (concat (map hexbyte [9])), w_indexer = True\<rparr>),
     (KWriters ''01'', VWriters [''00''])]"

definition ex_member :: "vkey \<times> vval" where
  "ex_member = (KMember None ''02'', VMember \<lparr>mb_role = ''member'', mb_by = ''01'', mb_stamp = 1, mb_writer = None, mb_writerDevice = None\<rparr>)"

definition ex_listed :: "nat \<Rightarrow> string \<Rightarrow> details \<Rightarrow> log_entry" where
  "ex_listed n type d = \<lparr>le_type = type, le_at = n, le_writer = ''00'', le_by = Some ''01'', le_device = Some ''09'',
     le_counted = True, le_details = d, le_space = None\<rparr>"

definition ex_begins :: bool where
  "ex_begins \<longleftrightarrow>
     (case applyNodes ex_env (take 1 ex_log1) empty_vstate of Inl _ \<Rightarrow> False
      | Inr st \<Rightarrow> (case applyNodes ex_env (take 2 ex_log1) empty_vstate of Inl _ \<Rightarrow> False | Inr st2 \<Rightarrow> True))"

lemma ex_begin_run: "ex_begins" by code_simp

lemma ex_begin_runs:
  "applyNodes ex_env (take 1 ex_log1) empty_vstate = Inr ex_begun"
  "applyNodes ex_env (take 2 ex_log1) empty_vstate = Inr ex_added"
  using ex_begin_run by (simp_all add: ex_begins_def ex_begun_def ex_added_def split: sum.splits)

lemma ex_begin_reachable: "reachable ex_env ex_begun" "reachable ex_env ex_added"
  using applyNodes_reachable [OF reachable.empty] ex_begin_runs by blast+

text \<open>The two views, evaluated (a predicate stands for the view, which has no decidable equality).\<close>

lemma ex_views:
  fixes Q :: "view \<Rightarrow> view \<Rightarrow> bool"
  assumes "Q (\<lambda>x. if x = KCount then Some (VCount 1)
     else if x = KLog 0 then Some (VLog (ex_listed 0 ''space/init'' (DInit ''space'' ''auto'')))
     else if x = KWriters ''01'' then Some (VWriters [''00''])
     else if x = KWriter ''00'' then Some (VWriter \<lparr>w_identity = ''01'', w_device = Some (concat (map hexbyte [9])), w_indexer = True\<rparr>)
     else if x = KMember None ''01'' then Some (VMember \<lparr>mb_role = ''owner'', mb_by = ''01'', mb_stamp = 0, mb_writer = None, mb_writerDevice = None\<rparr>)
     else if x = KMeta None then Some (VMeta \<lparr>mt_name = Some ''space'', mt_owner = Some ''01'', mt_policy = Some ''auto'',
       mt_private = False, mt_version = Some 1, mt_parent = None, mt_stamp = Some 0, mt_rules = None,
       mt_writeLimit = None, mt_history = None, mt_helpers = None, mt_public = False\<rparr>)
     else None)
    (\<lambda>x. if x = KCount then Some (VCount 2)
     else if x = KLog 1 then Some (VLog (ex_listed 1 ''member/add'' (DIdentity ''02'')))
     else if x = KMember None ''02'' then Some (VMember \<lparr>mb_role = ''member'', mb_by = ''01'', mb_stamp = 1, mb_writer = None, mb_writerDevice = None\<rparr>)
     else if x = KCount then Some (VCount 1)
     else if x = KLog 0 then Some (VLog (ex_listed 0 ''space/init'' (DInit ''space'' ''auto'')))
     else if x = KWriters ''01'' then Some (VWriters [''00''])
     else if x = KWriter ''00'' then Some (VWriter \<lparr>w_identity = ''01'', w_device = Some (concat (map hexbyte [9])), w_indexer = True\<rparr>)
     else if x = KMember None ''01'' then Some (VMember \<lparr>mb_role = ''owner'', mb_by = ''01'', mb_stamp = 0, mb_writer = None, mb_writerDevice = None\<rparr>)
     else if x = KMeta None then Some (VMeta \<lparr>mt_name = Some ''space'', mt_owner = Some ''01'', mt_policy = Some ''auto'',
       mt_private = False, mt_version = Some 1, mt_parent = None, mt_stamp = Some 0, mt_rules = None,
       mt_writeLimit = None, mt_history = None, mt_helpers = None, mt_public = False\<rparr>)
     else None)"
  shows "Q (vw ex_begun) (vw ex_added)"
  using assms unfolding ex_listed_def by (code_simp, intro impI)

lemma ex_begun_at: "vw ex_begun k = (if k = KCount then Some (VCount 1)
     else if k = KLog 0 then Some (VLog (ex_listed 0 ''space/init'' (DInit ''space'' ''auto''))) else map_of ex_entries k)" (is "_ = ?x")
  by (rule ex_views [of "\<lambda>v w. v k = ?x"]) (simp add: ex_entries_def)

lemma ex_added_at: "vw ex_added k = (if k = KCount then Some (VCount 2)
     else if k = KLog 1 then Some (VLog (ex_listed 1 ''member/add'' (DIdentity ''02''))) else
     map_of (ex_member # (KLog 0, VLog (ex_listed 0 ''space/init'' (DInit ''space'' ''auto''))) # ex_entries) k)" (is "_ = ?x")
  by (rule ex_views [of "\<lambda>v w. w k = ?x"]) (simp add: ex_entries_def ex_member_def)

end
