(* ===== verification/Space_Properties.thy ===== *)
theory Space_Properties
  imports Promises Example
begin

text \<open>
  What every log of decisions promises a space, whoever wrote it and in whatever order its
  decisions came: the properties of lib/decisions/apply.js that rest on the invariants of
  theory Promises, each with a witness on the log of theory Example.
\<close>

lemma owner_owned:
  assumes "reachable E st" "get_meta (vw st) None = Some m" "mt_owner m = Some ow"
  shows "owned (vw st) ow"
proof -
  have "\<not> fresh (vw st)" using assms(2) fresh_getters(2) [of "vw st" None] by auto
  then obtain ow' where o: "owned (vw st) ow'" using reachable_begun [OF assms(1)] by blast
  with ownedD(1) [OF o] assms(2,3) show ?thesis by auto
qed

text \<open>C1: A space has one owner for good: once a space has begun, its owner, and nobody else, has
  the role \<open>owner\<close>, in the space and every sub-space, after any further decisions.\<close>

theorem owner_for_good:
  assumes "reachable E st" "get_meta (vw st) None = Some m" "mt_owner m = Some ow"
    and "applyNodes E ns st = Inr st1"
  shows "roleIn (vw st1) chain i = Some ''owner'' \<longleftrightarrow> i = ow"
proof -
  have "owned (vw st1) ow"
    by (rule applyNodes_owned [OF assms(4) owner_owned [OF assms(1-3)]])
  then show ?thesis using owned_role owned_only by blast
qed

lemma ex_owner_meta: "\<exists>m. get_meta (vw ex_st1) None = Some m \<and> mt_owner m = Some ''01''"
  using ex_runs(2) by (auto simp: ex_first_def)

theorem owner_for_good_witness:
  "roleIn (vw ex_st2) [''07''] ''01'' = Some ''owner'' \<and> roleIn (vw ex_st2) [] ''02'' \<noteq> Some ''owner''"
proof -
  obtain m where m: "get_meta (vw ex_st1) None = Some m" "mt_owner m = Some ''01''"
    using ex_owner_meta by blast
  show ?thesis
    using owner_for_good [OF ex_reachable(1) m ex_runs(3), of "[''07'']" "''01''"]
      owner_for_good [OF ex_reachable(1) m ex_runs(3), of "[]" "''02''"] by simp
qed

text \<open>C2: The writer keys agree with the index of each identity's keys, in every view: \<open>writers:<id>\<close>
  lists, once each, the keys whose \<open>writer:<key>\<close> names that identity; no key is of a device the
  identity removed; and at most one key of an identity settles the order.\<close>

theorem writer_keys_consistent:
  assumes "reachable E st"
  shows "distinct (writersOf (vw st) i) \<and>
    (k \<in> set (writersOf (vw st) i) \<longleftrightarrow> (\<exists>w. get_writer (vw st) k = Some w \<and> w_identity w = i)) \<and>
    (get_writer (vw st) k = Some w \<longrightarrow> w_device w = Some d \<longrightarrow> get_gone (vw st) (w_identity w) d = None) \<and>
    (get_writer (vw st) k = Some w \<longrightarrow> get_writer (vw st) k' = Some w' \<longrightarrow>
      w_identity w = w_identity w' \<longrightarrow> w_indexer w \<longrightarrow> w_indexer w' \<longrightarrow> k = k')"
  using writers_okD [OF keys.reachable_inv [OF assms]] by blast+

theorem writer_keys_consistent_witness:
  "''15'' \<in> set (writersOf (vw ex_st1) ''02'') \<and> get_gone (vw ex_st1) ''02'' ''08'' = None"
proof -
  have w: "get_writer (vw ex_st1) ''15'' = Some \<lparr>w_identity = ''02'', w_device = Some ''08'', w_indexer = False\<rparr>"
    using ex_runs(2) by (simp add: ex_first_def)
  show ?thesis
    using writer_keys_consistent [OF ex_reachable(1), of "''02''" "''15''" "\<lparr>w_identity = ''02'', w_device = Some ''08'', w_indexer = False\<rparr>" "''08''"] w by simp
qed

text \<open>C3: What is decided once stays: a removed record keeps its removal (and its other marks), a
  revoked invite stays revoked, a redemption stays recorded, a removed device stays removed, a
  listed log keeps the space it was listed for and a sub-space keeps what it was created with.\<close>

theorem decided_once:
  assumes "reachable E st" "applyNodes E ns st = Inr st1"
  shows "(get_mod (vw st) s r = Some m \<longrightarrow> md_removed m \<longrightarrow> get_mod (vw st1) s r = Some m) \<and>
    (get_revoked (vw st) s n = Some x \<longrightarrow> get_revoked (vw st1) s n = Some x) \<and>
    (get_redeemed (vw st) s n i = Some y \<longrightarrow> get_redeemed (vw st1) s n i = Some y) \<and>
    (get_gone (vw st) i d = Some z \<longrightarrow> get_gone (vw st1) i d = Some z) \<and>
    (get_listed (vw st) l = Some u \<longrightarrow> get_listed (vw st1) l = Some u) \<and>
    (get_subspace (vw st) h = Some info \<longrightarrow> get_subspace (vw st1) h = Some info)"
  using records.nodes_rel [OF assms] unfolding records_kept_def by blast+

theorem decided_once_witness:
  "get_redeemed (vw ex_st2) None ''28'' ''04'' = Some (7, ''01'') \<and> get_listed (vw ex_st2) ''32'' = Some ''07'' \<and>
   (\<exists>m. get_mod (vw ex_st2) None ''3c'' = Some m \<and> md_removed m)"
proof -
  obtain m where m: "get_mod (vw ex_st1) None ''3c'' = Some m" "md_removed m"
    using ex_runs(2) by (auto simp: ex_first_def)
  show ?thesis
    using decided_once [OF ex_reachable(1) ex_runs(3), where s = None and r = "''3c''" and m = m and n = "''28''"
        and i = "''04''" and y = "(7, ''01'')" and l = "''32''" and u = "''07''"]
      m ex_runs(2) by (auto simp: ex_first_def)
qed

text \<open>C4: Cuts never give back what they took: a log that a cut or an edit cut names stays named by
  it, at the same length or shorter, whatever is decided after.\<close>

theorem cuts_never_loosen:
  assumes "reachable E st" "applyNodes E ns st = Inr st1"
  shows "(cuts_of (vw st) s i l = Some n \<longrightarrow> (\<exists>k. cuts_of (vw st1) s i l = Some k \<and> k \<le> n)) \<and>
    (editcuts_of (vw st) s i p l = Some n \<longrightarrow> (\<exists>k. editcuts_of (vw st1) s i p l = Some k \<and> k \<le> n))"
  using cuts.nodes_rel [OF assms] by (simp_all add: cuts_tighten_def tighter_def)

theorem cuts_never_loosen_witness: "\<exists>k. cuts_of (vw ex_st2) None (hex ex_banned) ''1e'' = Some k \<and> k \<le> 5"
  using cuts_never_loosen [OF ex_reachable(1) ex_runs(3), of None "hex ex_banned" "''1e''" 5] ex_runs(2)
  by (simp add: ex_first_def)

text \<open>C5: Making a scope public cannot be undone, only a scope that is not private can be public,
  and neither the owner nor the privacy a space was created with changes.\<close>

theorem public_for_good:
  assumes "reachable E st" "applyNodes E ns st = Inr st1" "get_meta (vw st) s = Some m"
  shows "\<exists>m'. get_meta (vw st1) s = Some m' \<and> mt_owner m' = mt_owner m \<and> mt_private m' = mt_private m \<and>
      (mt_public m \<longrightarrow> mt_public m' \<and> \<not> private_scope (vw st1) s)"
proof -
  obtain m' where m': "get_meta (vw st1) s = Some m'" "mt_owner m' = mt_owner m" "mt_private m' = mt_private m"
    "mt_public m \<longrightarrow> mt_public m'"
    using settings.nodes_rel [OF assms(1,2)] assms(3) unfolding settings_kept_def by blast
  have "public_ok (vw st1)"
    by (rule settings.reachable_inv [OF applyNodes_reachable [OF assms(1,2)]])
  then show ?thesis using m' unfolding public_ok_def by blast
qed

theorem public_for_good_witness: "\<exists>m. get_meta (vw ex_st2) None = Some m \<and> mt_public m"
proof -
  obtain m where m: "get_meta (vw ex_st1) None = Some m" "mt_public m"
    using ex_runs(2) by (auto simp: ex_first_def)
  show ?thesis using public_for_good [OF ex_reachable(1) ex_runs(3) m(1)] m(2) by blast
qed

text \<open>A custom role, once defined, stays defined and never loses a permission of the space's own
  making; only Hypergraph's own four (decide, moderate, invite, roles) can be taken from it.\<close>

theorem role_permissions_kept:
  assumes "reachable E st" "applyNodes E ns st = Inr st1" "get_role (vw st) r = Some e"
    and "p \<in> set (re_permissions e)" "p \<notin> set OWN"
  shows "\<exists>e'. get_role (vw st1) r = Some e' \<and> p \<in> set (re_permissions e')"
  using roles.nodes_rel [OF assms(1,2)] assms(3-5) unfolding roles_kept_def by blast

theorem role_permissions_kept_witness:
  "\<exists>e. get_role (vw ex_st2) ''reviewer'' = Some e \<and> ''review'' \<in> set (re_permissions e)"
proof -
  obtain e where e: "get_role (vw ex_st1) ''reviewer'' = Some e" "re_permissions e = [''post'', ''review'']"
    using ex_runs(2) by (auto simp: ex_first_def)
  show ?thesis
    by (rule role_permissions_kept [OF ex_reachable(1) ex_runs(3) e(1)]) (simp_all add: e(2) OWN_def)
qed

text \<open>C6: The commitment to an epoch's key is decided once and the current epoch only grows.\<close>

theorem epoch_commitments_kept:
  assumes "reachable E st" "applyNodes E ns st = Inr st1"
    and "get_epochs (vw st) s = Some e" "ep_commits e n = Some c"
  shows "\<exists>e'. get_epochs (vw st1) s = Some e' \<and> ep_current e \<le> ep_current e' \<and> ep_commits e' n = Some c"
  using epochs.nodes_rel [OF assms(1,2)] assms(3,4) unfolding commits_kept_def by blast

theorem epoch_commitments_kept_witness:
  "\<exists>e. get_epochs (vw ex_st2) (Some ''07'') = Some e \<and> ep_commits e 0 = Some ''63''"
proof -
  obtain e where e: "get_epochs (vw ex_st1) (Some ''07'') = Some e" "ep_commits e 0 = Some ''63''"
    using ex_runs(2) by (auto simp: ex_first_def)
  show ?thesis using epoch_commitments_kept [OF ex_reachable(1) ex_runs(3) e] by blast
qed

text \<open>Declarations of types are versions: each from the first to the current one is there, and
  none changes once decided.\<close>

theorem types_versions:
  assumes "reachable E st" "applyNodes E ns st = Inr st1"
  shows "(get_types_at (vw st) k \<noteq> None \<longleftrightarrow> 1 \<le> k \<and> k \<le> types_version (vw st)) \<and>
    (get_types_at (vw st) k = Some t \<longrightarrow> get_types_at (vw st1) k = Some t)"
  using types.reachable_inv [OF assms(1)] types.nodes_rel [OF assms]
  unfolding types_ok_def types_kept_def by blast+

theorem types_versions_witness: "get_types_at (vw ex_st2) 1 = Some ''one''"
  using types_versions [OF ex_reachable(1) ex_runs(3), of 1 "''one''"] ex_runs(2)
  by (simp add: ex_first_def)

end

