(* ===== verification/Scope_Chains.thy ===== *)
theory Scope_Chains
  imports Promises Example
begin

text \<open>
  The loops of \<open>chainOf\<close> and \<open>below\<close> (lib/decisions/apply.js) end in every view a log can reach,
  with the fuel theory Scopes gives them, and what they return: the chain of parents, and whether
  a space is on it. It rests on \<open>subs_ok\<close>: a sub-space is created after its parent.
\<close>

lemma subs_okD:
  assumes "subs_ok v"
  shows "distinct (sub_keys v)" "get_subspace v h \<noteq> None \<longleftrightarrow> h \<in> set (sub_keys v)"
    "sub_keys v = xs @ h # ys \<Longrightarrow> get_subspace v h = Some info \<Longrightarrow> ss_parent info = Some p \<Longrightarrow> p \<in> set xs"
  using assms unfolding subs_ok_def by blast+

text \<open>The path up from a sub-space, and both loops along it, whatever the fuel beyond its place.\<close>

definition parents_of :: "view \<Rightarrow> string \<rightharpoonup> scope \<times> bool" where
  "parents_of v h = map_option (\<lambda>info. (ss_parent info, ss_private info)) (get_subspace v h)"

lemma path_up:
  assumes "subs_ok v" "sub_keys v = xs @ h # ys"
  shows "\<exists>p. set p \<subseteq> set xs \<and>
    (\<forall>n c. length xs < n \<longrightarrow> set c \<inter> set (h # p) = {} \<longrightarrow> chain_fuel n v c (Some h) = Some (Some (c @ h # p))) \<and>
    (\<forall>n tp. length xs < n \<longrightarrow> below_fuel n (parents_of v) (Some h) tp = Some (tp \<in> set (map Some p @ [None]))) \<and>
    (\<forall>n info. length xs < n \<longrightarrow> get_subspace v h = Some info \<longrightarrow> chain_fuel n v [] (ss_parent info) = Some (Some p))"
  using assms(2)
proof (induction "length xs" arbitrary: xs h ys rule: less_induct)
  case less
  note ok = subs_okD [OF assms(1)]
  have "h \<in> set (sub_keys v)" by (simp add: less.prems)
  then obtain info where info: "get_subspace v h = Some info" using ok(2) [of h] by auto
  have new: "h \<notin> set xs" using ok(1) by (simp add: less.prems)
  have par: "parents_of v h = Some (ss_parent info, ss_private info)" by (simp add: parents_of_def info)
  show ?case
  proof (cases "ss_parent info")
    case None
    show ?thesis
    proof (intro exI [of _ "[]"] conjI allI impI)
      fix n :: nat and c :: "string list" and tp :: scope assume n: "length xs < n"
      then obtain m where m: "n = Suc m" by (cases n) auto
      show "chain_fuel n v c (Some h) = Some (Some (c @ [h]))" if "set c \<inter> set [h] = {}"
        using that by (simp add: m info None)
      show "below_fuel n (parents_of v) (Some h) tp = Some (tp \<in> set (map Some [] @ [None]))"
        by (auto simp: m par None)
    qed (use info None in auto)
  next
    case (Some q)
    then obtain xs1 xs2 where xs: "xs = xs1 @ q # xs2"
      using ok(3) [OF less.prems info] by (auto simp: in_set_conv_decomp)
    have "sub_keys v = xs1 @ q # (xs2 @ h # ys)" by (simp add: less.prems xs)
    have "length xs1 < length xs" by (simp add: xs)
    from less.hyps [OF this \<open>sub_keys v = xs1 @ q # (xs2 @ h # ys)\<close>] obtain p where p: "set p \<subseteq> set xs1"
      and chain: "\<And>n c. length xs1 < n \<Longrightarrow> set c \<inter> set (q # p) = {} \<Longrightarrow> chain_fuel n v c (Some q) = Some (Some (c @ q # p))"
      and bel: "\<And>n tp. length xs1 < n \<Longrightarrow> below_fuel n (parents_of v) (Some q) tp = Some (tp \<in> set (map Some p @ [None]))"
      by blast
    show ?thesis
    proof (intro exI [of _ "q # p"] conjI allI impI)
      show "set (q # p) \<subseteq> set xs" using p by (auto simp: xs)
      fix n :: nat and c :: "string list" and tp :: scope assume n: "length xs < n"
      then obtain m where m: "n = Suc m" "length xs1 < m" by (cases n) (auto simp: xs)
      show "chain_fuel n v c (Some h) = Some (Some (c @ h # q # p))" if c: "set c \<inter> set (h # q # p) = {}"
      proof -
        have "h \<notin> set (q # p)" using new p by (auto simp: xs)
        with c have "set (c @ [h]) \<inter> set (q # p) = {}" by auto
        from chain [OF m(2) this] c show ?thesis by (simp add: m info Some)
      qed
      show "below_fuel n (parents_of v) (Some h) tp = Some (tp \<in> set (map Some (q # p) @ [None]))"
        using bel [OF m(2), of tp] by (auto simp: m par Some)
      show "chain_fuel n v [] (ss_parent i) = Some (Some (q # p))" if "get_subspace v h = Some i" for i
      proof -
        have "ss_parent i = Some q" using that info Some by simp
        moreover have "chain_fuel n v [] (Some q) = Some (Some (q # p))"
          using chain [of n "[]", unfolded append_Nil] m(2) unfolding m(1) by (metis Int_empty_left empty_set less_SucI)
        ultimately show ?thesis by (simp only:)
      qed
    qed
  qed
qed

lemma chain_fuel_missing: "get_subspace v h = None \<Longrightarrow> chain_fuel (Suc n) v c (Some h) = Some None"
  by simp

lemma chainOf_path:
  assumes "subs_ok v" "get_subspace v h = Some info"
  obtains p where "chainOf v (Some h) = Some (h # p)"
    "chain_fuel (Suc (length (sub_keys v))) v [] (Some h) = Some (Some (h # p))"
    "chainOf v (ss_parent info) = Some p"
    "\<And>tp. below_fuel (Suc (length (sub_keys v))) (parents_of v) (Some h) tp = Some (tp \<in> set (map Some p @ [None]))"
    "h \<notin> set p"
proof -
  have "h \<in> set (sub_keys v)" using assms subs_okD(2) [of v h] by simp
  then obtain xs ys where xs: "sub_keys v = xs @ h # ys" by (auto simp: in_set_conv_decomp)
  from path_up [OF assms(1) xs] obtain p where p: "set p \<subseteq> set xs"
    and chain: "\<And>n c. length xs < n \<Longrightarrow> set c \<inter> set (h # p) = {} \<Longrightarrow> chain_fuel n v c (Some h) = Some (Some (c @ h # p))"
    and bel: "\<And>n tp. length xs < n \<Longrightarrow> below_fuel n (parents_of v) (Some h) tp = Some (tp \<in> set (map Some p @ [None]))"
    and up: "\<And>n. length xs < n \<Longrightarrow> chain_fuel n v [] (ss_parent info) = Some (Some p)"
    using assms(2) by blast
  let ?n = "Suc (length (sub_keys v))"
  have len: "length xs < ?n" by (simp add: xs)
  have "h \<notin> set xs" using subs_okD(1) [OF assms(1)] by (simp add: xs)
  with p have hp: "h \<notin> set p" by blast
  have here: "chain_fuel ?n v [] (Some h) = Some (Some (h # p))" using chain [OF len, of "[]"] by simp
  show thesis
  proof (rule that [OF _ here _ bel [OF len] hp])
    show "chainOf v (Some h) = Some (h # p)" using here by (simp only: chainOf_def option.case)
    show "chainOf v (ss_parent info) = Some p" using up [OF len] by (simp only: chainOf_def option.case)
  qed
qed

lemma subspacesOf_some:
  assumes "subs_ok v"
  shows "subspacesOf v = map (\<lambda>k. (k, the (parents_of v k))) (sub_keys v)"
proof -
  have "concat (map (\<lambda>k. case get_subspace v k of None \<Rightarrow> []
      | Some info \<Rightarrow> [(k, ss_parent info, ss_private info)]) ks) = map (\<lambda>k. (k, the (parents_of v k))) ks"
    if "\<And>h. h \<in> set ks \<Longrightarrow> get_subspace v h \<noteq> None" for ks
    using that
  proof (induction ks)
    case (Cons k ks)
    then obtain info where "get_subspace v k = Some info" by (meson list.set_intros(1) not_Some_eq)
    with Cons show ?case by (simp add: parents_of_def)
  qed simp
  then show ?thesis unfolding subspacesOf_def using subs_okD(2) [OF assms] by blast
qed

lemma map_of_keys:
  assumes "distinct ks" "\<And>h. h \<in> set ks \<longleftrightarrow> m h \<noteq> None"
  shows "map_of (rev (map (\<lambda>k. (k, the (m k))) ks)) = m"
proof
  fix h
  let ?xs = "rev (map (\<lambda>k. (k, the (m k))) ks)"
  have d: "distinct (map fst ?xs)"
    using assms(1) by (simp add: rev_map o_def flip: rev_map)
  show "map_of ?xs h = m h"
  proof (cases "m h")
    case None
    then show ?thesis using assms(2) [of h] by (simp add: map_of_eq_None_iff image_iff)
  next
    case (Some x)
    then have "(h, x) \<in> set ?xs" using assms(2) [of h] by force
    with d Some show ?thesis by (simp add: map_of_is_SomeI)
  qed
qed

lemma below_parents:
  assumes "subs_ok v"
  shows "below (subspacesOf v) h tp =
    (case below_fuel (Suc (length (sub_keys v))) (parents_of v) (Some h) tp of None \<Rightarrow> False | Some b \<Rightarrow> b)"
proof -
  have "h \<in> set (sub_keys v) \<longleftrightarrow> parents_of v h \<noteq> None" for h
    using subs_okD(2) [OF assms, of h] by (auto simp: parents_of_def)
  with subs_okD(1) [OF assms] have "map_of (rev (subspacesOf v)) = parents_of v"
    unfolding subspacesOf_some [OF assms] by (rule map_of_keys)
  then show ?thesis
    by (simp add: below_def subspacesOf_some [OF assms] del: below_fuel.simps)
qed

text \<open>C7: The loops over a sub-space's parents end in every view a log reaches, with one step more
  than there are sub-spaces: \<open>chainOf\<close> of a sub-space is itself and then its parent's chain, never
  \<open>null\<close>, and no space is above itself.\<close>

theorem chain_of_parents:
  assumes "reachable E st" "get_subspace (vw st) h = Some info"
  shows "chain_fuel (Suc (length (sub_keys (vw st)))) (vw st) [] (Some h) \<noteq> None \<and>
    (\<exists>rest. chainOf (vw st) (ss_parent info) = Some rest \<and> chainOf (vw st) (Some h) = Some (h # rest) \<and>
       h \<notin> set rest)"
proof (rule chainOf_path [OF subs.reachable_inv [OF assms(1)] assms(2)])
  fix p
  assume "chainOf (vw st) (Some h) = Some (h # p)" "chainOf (vw st) (ss_parent info) = Some p" "h \<notin> set p"
    and f: "chain_fuel (Suc (length (sub_keys (vw st)))) (vw st) [] (Some h) = Some (Some (h # p))"
  then show ?thesis by (simp only: f) simp
qed

lemma ex_sub: "\<exists>info. get_subspace (vw ex_st1) ''07'' = Some info"
proof -
  have "''07'' \<in> set (sub_keys (vw ex_st1))" using ex_runs(2) by (simp add: ex_first_def)
  then show ?thesis
    using subs_okD(2) [OF subs.reachable_inv [OF ex_reachable(1)], of "''07''"] by simp
qed

theorem chain_of_parents_witness: "\<exists>rest. chainOf (vw ex_st1) (Some ''07'') = Some (''07'' # rest)"
  using ex_sub chain_of_parents [OF ex_reachable(1)] by blast

text \<open>C8: \<open>below\<close> decides who is under whom: a sub-space is below \<open>top\<close> just when \<open>top\<close> is the top
  space or one of the spaces on its parent's chain, and what is not a sub-space is below nothing.\<close>

theorem below_is_ancestry:
  assumes "reachable E st"
  shows "below (subspacesOf (vw st)) h tp \<longleftrightarrow>
    (\<exists>info rest. get_subspace (vw st) h = Some info \<and> chainOf (vw st) (ss_parent info) = Some rest \<and>
       tp \<in> set (map Some rest @ [None]))"
proof (cases "get_subspace (vw st) h")
  case None
  then show ?thesis
    using below_parents [OF subs.reachable_inv [OF assms], of h tp] by (simp add: parents_of_def)
next
  case (Some info)
  note ok = subs.reachable_inv [OF assms]
  show ?thesis
  proof (rule chainOf_path [OF ok Some])
    fix p
    assume "chainOf (vw st) (ss_parent info) = Some p"
      and b: "\<And>tp. below_fuel (Suc (length (sub_keys (vw st)))) (parents_of (vw st)) (Some h) tp =
         Some (tp \<in> set (map Some p @ [None]))"
    then show ?thesis by (simp only: below_parents [OF ok] b Some) simp
  qed
qed

theorem below_is_ancestry_witness: "below (subspacesOf (vw ex_st1)) ''07'' None"
proof -
  obtain info where info: "get_subspace (vw ex_st1) ''07'' = Some info" using ex_sub by blast
  obtain rest where "chainOf (vw ex_st1) (ss_parent info) = Some rest"
    using chainOf_path [OF subs.reachable_inv [OF ex_reachable(1)] info] by metis
  with info show ?thesis using below_is_ancestry [OF ex_reachable(1), of "''07''" None] by auto
qed

end
