(* ===== verification/Authority.thy ===== *)
theory Authority
  imports Promises Example
begin

text \<open>
  Who may change what: nobody's decision does more than their role allows (lib/decisions/apply.js,
  lib/decisions/state.js). Roles are judged with the custom roles a decision loads; \<open>roles_of\<close> is
  the whole table of the view, and what is loaded agrees with it.
\<close>

definition roles_of :: "view \<Rightarrow> roles" where
  "roles_of v r = map_option re_permissions (get_role v r)"

section \<open>Loaded roles\<close>

lemma load1_le:
  assumes "c \<subseteq>\<^sub>m roles_of v"
  shows "load1 v name c \<subseteq>\<^sub>m roles_of v"
  using assms by (auto simp: load1_def map_le_def roles_of_def split: option.splits)

lemma load_le: "c \<subseteq>\<^sub>m roles_of v \<Longrightarrow> load v names c \<subseteq>\<^sub>m roles_of v"
  unfolding load_def by (induction names arbitrary: c) (auto intro: load1_le)

lemma load1_keeps: "c r = Some ps \<Longrightarrow> load1 v name c r = Some ps"
  by (auto simp: load1_def split: option.splits)

lemma load_keeps: "c r = Some ps \<Longrightarrow> load v names c r = Some ps"
  unfolding load_def by (induction names arbitrary: c) (auto intro: load1_keeps)

lemma load_loads:
  assumes "c \<subseteq>\<^sub>m roles_of v" "Some r \<in> set names" "r \<noteq> []" "ROLES r = None"
  shows "load v names c r = roles_of v r"
  using assms(1,2)
proof (induction names arbitrary: c)
  case (Cons a names)
  show ?case
  proof (cases "a = Some r")
    case True
    have l: "load v (a # names) c r = load v names (load1 v (Some r) c) r" by (simp add: load_def True)
    show ?thesis
    proof (cases "roles_of v r")
      case None
      then show ?thesis using load_le [OF Cons.prems(1), of "a # names"]
        by (auto simp: map_le_def dom_def)
    next
      case (Some ps)
      have "load1 v (Some r) c r = Some ps"
      proof (cases "c r")
        case None
        then show ?thesis using assms(3,4) Some by (auto simp: load1_def roles_of_def)
      next
        case (Some qs)
        then have "roles_of v r = Some qs" using Cons.prems(1) by (auto simp: map_le_def dom_def)
        with Some \<open>roles_of v r = Some ps\<close> show ?thesis by (simp add: load1_keeps)
      qed
      with l Some load_keeps show ?thesis by simp
    qed
  next
    case False
    have "load v (a # names) c = load v names (load1 v a c)" by (simp add: load_def)
    with Cons.IH [OF load1_le [OF Cons.prems(1)]] Cons.prems(2) False show ?thesis by auto
  qed
qed simp

lemma permissionsOf_mono:
  assumes "c \<subseteq>\<^sub>m t" "permissionsOf r c = Some ps"
  shows "permissionsOf r t = Some ps"
  using assms by (auto simp: permissionsOf_def map_le_def dom_def split: option.splits if_splits)

lemma can_mono: "c \<subseteq>\<^sub>m t \<Longrightarrow> can r p c \<Longrightarrow> can r p t"
  using permissionsOf_mono [of c t r] by (auto simp: can_def split: option.splits)

lemma permissionsOf_loaded:
  assumes "c \<subseteq>\<^sub>m roles_of v" "r \<in> set names"
  shows "permissionsOf r (load v names c) = permissionsOf r (roles_of v)"
  using assms load_loads [OF assms(1)]
  by (cases r) (auto simp: permissionsOf_def split: option.split)

lemma can_loaded:
  assumes "c \<subseteq>\<^sub>m roles_of v" "r \<in> set names"
  shows "can r p (load v names c) \<longleftrightarrow> can r p (roles_of v)"
  by (simp add: can_def permissionsOf_loaded [OF assms])

lemma can_more:
  assumes "c \<subseteq>\<^sub>m roles_of v" "permissionsOf r c = permissionsOf r (roles_of v)"
  shows "permissionsOf r (load v names c) = permissionsOf r (roles_of v)"
proof (cases "permissionsOf r (roles_of v)")
  case None
  then show ?thesis using permissionsOf_mono [OF load_le [OF assms(1)]] by (metis not_None_eq)
next
  case (Some ps)
  have "c \<subseteq>\<^sub>m load v names c" by (auto simp: map_le_def dom_def load_keeps)
  with Some assms(2) permissionsOf_mono show ?thesis by metis
qed

text \<open>The context of a decision knows its author's role in full.\<close>

lemma ctx_custom:
  "cx_custom (ctx_of v chain author) \<subseteq>\<^sub>m roles_of v"
  "permissionsOf (cx_role (ctx_of v chain author)) (cx_custom (ctx_of v chain author)) =
     permissionsOf (roleIn v chain author) (roles_of v)"
  "cx_role (ctx_of v chain author) = roleIn v chain author"
  "cx_scope (ctx_of v chain author) = scope_of chain" "cx_chain (ctx_of v chain author) = chain"
  "cx_author (ctx_of v chain author) = author"
  by (simp_all add: ctx_of_def Let_def load_le permissionsOf_loaded)

lemma ctx_can:
  "can (cx_role (ctx_of v chain author)) p (load v names (cx_custom (ctx_of v chain author))) \<longleftrightarrow>
     can (roleIn v chain author) p (roles_of v)"
proof -
  let ?cx = "ctx_of v chain author"
  have "permissionsOf (cx_role ?cx) (load v names (cx_custom ?cx)) = permissionsOf (cx_role ?cx) (roles_of v)"
    by (rule can_more [OF ctx_custom(1)]) (use ctx_custom(2,3) in simp)
  then show ?thesis by (simp add: can_def ctx_custom(3))
qed

lemma load_Nil [simp]: "load v [] c = c" by (simp add: load_def)

lemma ctx_can0:
  "can (cx_role (ctx_of v chain author)) p (cx_custom (ctx_of v chain author)) \<longleftrightarrow>
     can (roleIn v chain author) p (roles_of v)"
  using ctx_can [of v chain author p "[]"] by simp

lemma ctx_mayWrite:
  "mayWrite (cx_role (ctx_of v chain author)) (cx_custom (ctx_of v chain author)) \<longleftrightarrow>
     mayWrite (roleIn v chain author) (roles_of v)"
  by (simp add: mayWrite_def ctx_can0)

section \<open>Writers without power\<close>

lemma do_writer_add_frame:
  assumes "\<not> writer_kind k"
  shows "vw (do_writer_add E cx key proof st) k = vw st k"
proof -
  have "vw (case addKey i key d st of (added, st1) \<Rightarrow> if added then fst (settle E i c st1) else st1) k = vw st k"
    for i key d c
    using addKey_frame [OF assms, of i key d st]
    by (cases "addKey i key d st") (simp add: settle_frame [OF assms])
  then show ?thesis
    unfolding do_writer_add_def Let_def by (auto split: option.splits prod.splits)
qed

lemma do_device_remove_frame:
  assumes "do_device_remove E cx n device ct proof st = Inr st1" "\<not> writer_kind k" "\<not> is_KGone k"
  shows "vw st1 k = vw st k"
  using assms(1)
proof (cases rule: do_device_remove_cases)
  case (removed data identity dropped)
  have "k \<noteq> KGone i d" for i d using assms(3) by auto
  then show ?thesis
    by (simp add: removed(6) settle_frame [OF assms(2)] forget_fold_frame [OF assms(2)])
qed simp

lemma do_revoke_frame:
  "do_revoke E cx n ib st = Inr st1 \<Longrightarrow> \<not> is_KRevoked k \<Longrightarrow> vw st1 k = vw st k"
  by (auto simp: do_revoke_def split: if_splits option.splits)

lemma do_revoke_own:
  assumes "do_revoke E cx n ib st = Inr st1" "\<not> can (cx_role cx) ''decide'' (cx_custom cx)" "vw st1 k \<noteq> vw st k"
  shows "\<exists>iv idb. Option.bind ib (e_decode_invite E) = Some iv \<and> verifyInvite E iv (e_space E) \<and> iv_space iv = scope_key E (cx_scope cx) \<and>
    hex (iv_maker iv) = cx_author cx \<and> iv_id iv = Some idb \<and> k = KRevoked (cx_scope cx) (hex idb)"
  using assms by (auto simp: do_revoke_def split: if_splits option.splits)

lemma do_writer_add_own:
  assumes "vw (do_writer_add E cx key proof st) k \<noteq> vw st k"
  shows "\<exists>i dev. Identity_verify E proof (writerSignable key (e_space E)) = Some (i, dev) \<and> dev \<noteq> i \<and>
    fst (writesAnywhere (vw st) (hex i) (cx_custom cx)) \<and>
    (k = KWriter (hex key) \<and> get_writer (vw st) (hex key) = None \<or> k \<in> keys_of (vw st) (hex i))"
proof -
  obtain i dev where v: "Identity_verify E proof (writerSignable key (e_space E)) = Some (i, dev)"
    using assms by (cases "Identity_verify E proof (writerSignable key (e_space E))") (auto simp: do_writer_add_def split: if_splits)
  obtain ok c where w: "writesAnywhere (vw st) (hex i) (cx_custom cx) = (ok, c)" by force
  obtain added st1 where a: "addKey (hex i) (hex key) (Some (hex dev)) st = (added, st1)" by force
  from assms v w a have more: "dev \<noteq> i" "ok" "added" "vw (fst (settle E (hex i) c st1)) k \<noteq> vw st k"
    by (auto simp: do_writer_add_def Let_def addKey_def split: if_splits option.splits)
  from more(3) a have new: "get_writer (vw st) (hex key) = None" by (auto simp: addKey_def Let_def split: if_splits)
  have "k = KWriter (hex key) \<or> k \<in> keys_of (vw st) (hex i)"
  proof (rule ccontr)
    assume n: "\<not> (k = KWriter (hex key) \<or> k \<in> keys_of (vw st) (hex i))"
    with addKey_keys [of "hex i" "hex key" "Some (hex dev)" st] a have "k \<notin> keys_of (vw st1) (hex i)" by auto
    with n addKey_own [of k "hex i" "hex key" "Some (hex dev)" st] a more(4) show False by (auto simp: settle_own keys_of_def)
  qed
  with v w more new show ?thesis by auto
qed

lemma forgets_keys: "keys_of (vw (fold (forget i) ks st)) i \<subseteq> keys_of (vw st) i"
  by (induction ks arbitrary: st) (use forget_keys in fastforce)+

lemma do_device_remove_own:
  assumes "do_device_remove E cx n dv ct proof st = Inr st1" "vw st1 k \<noteq> vw st k"
  shows "\<exists>data i. removalSignable (e_space E) dv ct = Inr data \<and> Identity_verify E proof data = Some (i, i) \<and>
    (k = KGone (hex i) (hex dv) \<or> k \<in> keys_of (vw st) (hex i))"
  using assms(1)
proof (cases rule: do_device_remove_cases)
  case same
  with assms(2) show ?thesis by simp
next
  case (removed data i dropped)
  let ?st = "put (KGone (hex i) (hex dv)) (VGone (cx_author cx) n) st"
  have ks: "keys_of (vw ?st) (hex i) = keys_of (vw st) (hex i)" by (simp add: keys_of_def writersOf_def getters)
  have "k = KGone (hex i) (hex dv) \<or> k \<in> keys_of (vw st) (hex i)"
  proof (rule ccontr)
    assume k: "\<not> (k = KGone (hex i) (hex dv) \<or> k \<in> keys_of (vw st) (hex i))"
    have "KWriter ` set dropped \<subseteq> keys_of (vw ?st) (hex i)" unfolding ks removed(5) by (auto simp: keys_of_def)
    from forgets_own [OF _ this, of k] k ks have "vw (fold (forget (hex i)) dropped ?st) k = vw ?st k" by simp
    moreover have "k \<notin> keys_of (vw (fold (forget (hex i)) dropped ?st)) (hex i)" using forgets_keys k ks by blast
    ultimately have "vw st1 k = vw st k" using k by (simp add: removed(6) settle_own)
    with assms(2) show False by simp
  qed
  with removed(2,3) show ?thesis by blast
qed

text \<open>C9: What a writer whose role holds none of decide, moderate and roles can change by deciding. An invite can be
  revoked, in its own scope, if its signature holds and the author made it. The keys of an identity's devices can
  change if the identity (whoever records it) signed for it: a new key, that nobody writes with yet, from one of its
  devices and while its roles let it write somewhere, or the removal of one of its devices; and then only the keys of
  that identity. Nothing else.\<close>

theorem powerless_writers:
  assumes "dispatch E d (ctx_of (vw st) chain author) code st = Inr st1"
    and "\<And>p. p \<in> {''decide'', ''moderate'', ''roles''} \<Longrightarrow> \<not> can (roleIn (vw st) chain author) p (roles_of (vw st))"
    and "vw st1 k \<noteq> vw st k"
  shows "(\<exists>ib iv idb. d_body d = InviteRevoke ib \<and> Option.bind ib (e_decode_invite E) = Some iv \<and> verifyInvite E iv (e_space E) \<and>
      iv_space iv = scope_key E (scope_of chain) \<and> hex (iv_maker iv) = author \<and> iv_id iv = Some idb \<and> k = KRevoked (scope_of chain) (hex idb)) \<or>
    (\<exists>key sig i dev. d_body d = WriterAdd key sig \<and> Identity_verify E sig (writerSignable key (e_space E)) = Some (i, dev) \<and> dev \<noteq> i \<and>
      fst (writesAnywhere (vw st) (hex i) (cx_custom (ctx_of (vw st) chain author))) \<and>
      (k = KWriter (hex key) \<and> get_writer (vw st) (hex key) = None \<or> k \<in> keys_of (vw st) (hex i))) \<or>
    (\<exists>dv ct sig data i. d_body d = DeviceRemove dv ct sig \<and> removalSignable (e_space E) dv ct = Inr data \<and> Identity_verify E sig data = Some (i, i) \<and>
      (k = KGone (hex i) (hex dv) \<or> k \<in> keys_of (vw st) (hex i)))"
proof -
  let ?cx = "ctx_of (vw st) chain author"
  have no: "\<not> can (cx_role ?cx) ''decide'' c" "\<not> can (cx_role ?cx) ''moderate'' c" "\<not> can (cx_role ?cx) ''roles'' c"
    if "c = load (vw st) names (cx_custom ?cx)" for c names
    using assms(2) by (simp_all add: that ctx_can)
  note no0 = no [where names = "[]", simplified]
  have assign: "\<not> mayAssign (cx_role ?cx) cur r (load (vw st) [cur, Some r] (cx_custom ?cx))" for cur r
    using no(3) by (auto simp: mayAssign_def)
  have remove: "\<not> mayRemove (cx_role ?cx) t ''decide'' (load (vw st) [t] (cx_custom ?cx))" for t
    using no(1) by (auto simp: mayRemove_def)
  consider (revoke) ib where "d_body d = InviteRevoke ib" | (add) key sig where "d_body d = WriterAdd key sig"
    | (rem) dv ct sig where "d_body d = DeviceRemove dv ct sig"
    | (other) "\<And>ib. d_body d \<noteq> InviteRevoke ib" "\<And>key sig. d_body d \<noteq> WriterAdd key sig" "\<And>dv ct sig. d_body d \<noteq> DeviceRemove dv ct sig"
    by blast
  then show ?thesis
  proof cases
    case revoke
    with assms(1) have "do_revoke E ?cx (d_stamp d) ib st = Inr st1" by (simp add: dispatch_def Let_def)
    from do_revoke_own [OF this no0(1) assms(3)] revoke show ?thesis by (simp add: ctx_custom)
  next
    case add
    with assms(1,3) have "vw (do_writer_add E ?cx key sig st) k \<noteq> vw st k" by (simp add: dispatch_def Let_def)
    from do_writer_add_own [OF this] add show ?thesis by simp
  next
    case rem
    with assms(1) have "do_device_remove E ?cx (d_stamp d) dv ct sig st = Inr st1" by (simp add: dispatch_def Let_def)
    from do_device_remove_own [OF this assms(3)] rem show ?thesis by simp
  next
    case other
    have "st1 = st"
      using assms(1) other unfolding dispatch_def Let_def
      by (cases "d_body d")
        (auto simp: do_member_add_def do_member_remove_def do_role_define_def do_role_set_def do_moderate_def
          do_redeem_def do_settings_set_def do_types_set_def do_logs_list_def do_subspace_create_def
          do_key_rotate_def mayWrite_def Let_def no0 assign remove split: if_splits)
    with assms(3) show ?thesis by simp
  qed
qed

section \<open>Giving roles\<close>

lemma member_reads:
  "get_member (vw (recordCut s i es n st)) = get_member (vw st)"
  "get_member (vw (recordEditCuts s i ps es st)) = get_member (vw st)"
  "get_member (vw (admit s i r custom code st)) = get_member (vw st)"
  "get_member (vw (dropAll s i es n st)) = get_member (vw st)"
  "get_member (vw (snd (addKey i key dev st))) = get_member (vw st)"
  "get_member (vw (fst (settle E i custom st))) = get_member (vw st)"
  by (simp_all add: fun_eq_iff getters recordCut_frame recordEditCuts_frame admit_frame dropAll_frame
      addKey_frame settle_frame)

lemma get_member_put [simp]:
  "get_member ((vw st)(KMember s i \<mapsto> VMember m)) s' j =
     (if s' = s \<and> j = i then Some m else get_member (vw st) s' j)"
  by (simp add: getters)

lemma do_role_set_cases:
  fixes st :: vstate and E cx n identity role ct code
  defines "i \<equiv> hex identity"
  defines "current \<equiv> roleIn (vw st) (cx_chain cx) i"
  obtains (same) "do_role_set E cx n identity role ct code st = st"
  | (set_to) "\<not> bannedIn (vw st) (cx_chain cx) i"
      "mayAssign (cx_role cx) current role (load (vw st) [current, Some role] (cx_custom cx))"
      "\<And>s j. get_member (vw (do_role_set E cx n identity role ct code st)) s j =
         (if s = cx_scope cx \<and> j = i
          then Some \<lparr>mb_role = role, mb_by = cx_author cx, mb_stamp = n,
            mb_writer = Option.bind (memberIn (vw st) (cx_chain cx) i) mb_writer,
            mb_writerDevice = Option.bind (memberIn (vw st) (cx_chain cx) i) mb_writerDevice\<rparr>
          else get_member (vw st) s j)"
proof (cases "bannedIn (vw st) (cx_chain cx) i \<or>
    \<not> mayAssign (cx_role cx) current role (load (vw st) [current, Some role] (cx_custom cx))")
  case True
  then show thesis
    by (intro same) (auto simp: do_role_set_def Let_def i_def current_def roleIn_def)
next
  case False
  have keys: "get_member (vw (case wr of None \<Rightarrow> st4 | Some key \<Rightarrow> if b then snd (addKey j key wd st4) else st4)) = get_member (vw st4)"
    for wr st4 j wd b by (cases wr) (simp_all add: member_reads)
  have bind: "(case m of None \<Rightarrow> None | Some x \<Rightarrow> f x) = Option.bind m f" for m and f :: "member \<Rightarrow> string option"
    by (cases m) simp_all
  have if_reads: "get_member (vw (if b then x else y)) = (if b then get_member (vw x) else get_member (vw y))" for b x y
    by simp
  show thesis
    using False
    by (intro set_to)
      (auto simp: do_role_set_def Let_def i_def current_def roleIn_def member_reads keys if_reads bind)
qed

text \<open>C10: Giving a role hands on no power its giver lacks: after a role/set the only entry that may
  have changed is the target's in the decision's scope; if it did, the author held \<open>roles\<close>, the role
  is not \<open>owner\<close>, each of Hypergraph's own permissions it carries was the author's, and an author
  other than the owner ranks above both the role given and the one taken.\<close>

theorem role_set_bounded:
  assumes "dispatch E d (ctx_of (vw st) chain author) code st = Inr st1"
    and "d_body d = RoleSet identity role ct"
    and "get_member (vw st1) s i \<noteq> get_member (vw st) s i"
  shows "s = scope_of chain \<and> i = hex identity \<and>
    (\<exists>m. get_member (vw st1) s i = Some m \<and> mb_role m = role) \<and> role \<noteq> ''owner'' \<and>
    can (roleIn (vw st) chain author) ''roles'' (roles_of (vw st)) \<and>
    (\<forall>p. p \<in> set OWN \<longrightarrow> can (Some role) p (roles_of (vw st)) \<longrightarrow> can (roleIn (vw st) chain author) p (roles_of (vw st))) \<and>
    (roleIn (vw st) chain author \<noteq> Some ''owner'' \<longrightarrow>
       rankOf (Some role) < rankOf (roleIn (vw st) chain author) \<and>
       (truthy (roleIn (vw st) chain i) \<longrightarrow> rankOf (roleIn (vw st) chain i) < rankOf (roleIn (vw st) chain author)))"
proof -
  let ?cx = "ctx_of (vw st) chain author"
  from assms(1,2) have st1: "st1 = do_role_set E ?cx (d_stamp d) identity role ct code st"
    by (simp add: dispatch_def Let_def split: if_splits)
  show ?thesis
  proof (rule do_role_set_cases [of E ?cx "d_stamp d" identity role ct code st])
    assume "do_role_set E ?cx (d_stamp d) identity role ct code st = st"
    with assms(3) st1 show ?thesis by simp
  next
    let ?cur = "roleIn (vw st) (cx_chain ?cx) (hex identity)"
    let ?custom = "load (vw st) [?cur, Some role] (cx_custom ?cx)"
    assume may: "mayAssign (cx_role ?cx) ?cur role ?custom"
      and upd: "\<And>s j. get_member (vw (do_role_set E ?cx (d_stamp d) identity role ct code st)) s j =
         (if s = cx_scope ?cx \<and> j = hex identity
          then Some \<lparr>mb_role = role, mb_by = cx_author ?cx, mb_stamp = d_stamp d,
            mb_writer = Option.bind (memberIn (vw st) (cx_chain ?cx) (hex identity)) mb_writer,
            mb_writerDevice = Option.bind (memberIn (vw st) (cx_chain ?cx) (hex identity)) mb_writerDevice\<rparr>
          else get_member (vw st) s j)"
    from upd [of s i] assms(3) have si: "s = scope_of chain" "i = hex identity"
      by (auto simp: st1 ctx_custom split: if_splits)
    have roles: "can (roleIn (vw st) chain author) ''roles'' (roles_of (vw st))"
      using may by (auto simp: mayAssign_def ctx_can split: if_splits)
    have own: "can (roleIn (vw st) chain author) p (roles_of (vw st))"
      if "p \<in> set OWN" "can (Some role) p (roles_of (vw st))" for p
    proof -
      have "can (Some role) p ?custom"
        using that(2) can_loaded [OF ctx_custom(1), of "Some role" "[?cur, Some role]"] by simp
      from mayAssign_own [OF may this that(1)] show ?thesis by (simp only: ctx_can)
    qed
    have low: "rankOf (Some role) < rankOf (roleIn (vw st) chain author)"
      "truthy (roleIn (vw st) chain i) \<Longrightarrow> rankOf (roleIn (vw st) chain i) < rankOf (roleIn (vw st) chain author)"
      if "roleIn (vw st) chain author \<noteq> Some ''owner''"
      using may that by (auto simp: mayAssign_def truthy_def ctx_custom si(2) split: if_splits option.splits)
    have "\<exists>m. get_member (vw st1) s i = Some m \<and> mb_role m = role"
      using upd [of s i] by (simp add: st1 si ctx_custom)
    with si roles own low mayAssign_not_owner [OF may] show ?thesis by blast
  qed
qed

section \<open>Invites\<close>

lemma redeemers_reads: "get_redeemed w = get_redeemed v \<Longrightarrow> redeemers w = redeemers v"
  by (simp add: redeemers_def fun_eq_iff)

lemma redeem_effect_redeemers:
  "redeemers (vw (redeem_effect E cx t r device code n used custom st)) (cx_scope cx) n =
     insert (hex (rd_identity r)) (redeemers (vw st) (cx_scope cx) n)"
proof -
  obtain st1 c1 where here: "redeem_here E cx t r device code custom st = (st1, c1)" by force
  let ?st2 = "fold (route (rd_invite r) (cx_scope cx) (subspacesOf (vw st1)) (hex (rd_identity r)) t c1 code)
     (map hex (iv_subspaces (rd_invite r))) st1"
  have same: "vw ?st2 k = vw st k" if "\<not> member_like k" for k
    using routes_frame [OF that] redeem_here_frame [OF that, of E cx t r device code custom st] here by simp
  have "get_redeemed (vw ?st2) = get_redeemed (vw st)" by (simp add: fun_eq_iff getters same)
  moreover have "vw (redeem_effect E cx t r device code n used custom st) =
      (vw ?st2)(KRedeemed (cx_scope cx) n (hex (rd_identity r)) \<mapsto> VRedeemed t (cx_author cx),
        KUses (cx_scope cx) n \<mapsto> VUses (used + 1))"
    by (simp add: redeem_effect_def Let_def here)
  ultimately show ?thesis
    by (auto simp: redeemers_def getters fun_eq_iff)
qed

text \<open>What a redemption that was not refused had to meet, and how far its invite is used once it counts.\<close>

lemma redeem_guards:
  assumes "reachable E st" "Option.bind rb (e_decode_redemption E) = Some r"
    "verifyRedemption E r (e_space E) = Inr (Some (identity, device))"
    "iv_space (rd_invite r) = scope_key E (cx_scope (ctx_of (vw st) chain author))" "iv_id (rd_invite r) = Some idb"
    "\<not> redeem_refused E (ctx_of (vw st) chain author) n r (hex idb) st"
    "redeemers (vw st1) (scope_of chain) (hex idb) = insert (hex (rd_identity r)) (redeemers (vw st) (scope_of chain) (hex idb))"
  shows "verifyInvite E (rd_invite r) (e_space E) \<and> (\<exists>dev. verifyRedemption E r (e_space E) = Inr (Some (rd_identity r, dev))) \<and>
    (let iv = rd_invite r; s = scope_of chain; i = hex (rd_identity r); n' = hex idb
     in iv_space iv = scope_key E s \<and> \<not> bannedIn (vw st) chain i \<and> get_revoked (vw st) s n' = None \<and>
        (iv_expires iv = 0 \<or> n \<le> iv_expires iv) \<and>
        i \<notin> redeemers (vw st) s n' \<and> redeemers (vw st1) s n' = insert i (redeemers (vw st) s n') \<and>
        (iv_uses iv \<noteq> 0 \<longrightarrow> card (redeemers (vw st1) s n') \<le> iv_uses iv))"
proof -
  let ?iv = "rd_invite r" and ?i = "hex (rd_identity r)" and ?n = "hex idb" and ?s = "scope_of chain"
  have signed: "verifyInvite E ?iv (e_space E)" "identity = rd_identity r"
    using assms(3) by (auto simp: verifyRedemption_def split: if_splits sum.splits option.splits)
  have ref: "\<not> bannedIn (vw st) chain ?i" "get_redeemed (vw st) ?s ?n ?i = None" "get_revoked (vw st) ?s ?n = None"
    "iv_expires ?iv = 0 \<or> n \<le> iv_expires ?iv"
    "iv_uses ?iv = 0 \<or> uses_of (vw st) ?s ?n < iv_uses ?iv"
    using assms(6) by (auto simp: redeem_refused_def Let_def ctx_custom uses_of_def)
  have new: "?i \<notin> redeemers (vw st) ?s ?n" using ref(2) by (simp add: redeemers_def)
  have "uses_of (vw st) ?s ?n = card (redeemers (vw st) ?s ?n)" "finite (redeemers (vw st) ?s ?n)"
    using uses.reachable_inv [OF assms(1)] by (simp_all add: uses_ok_def)
  with ref(5) new have "iv_uses ?iv \<noteq> 0 \<longrightarrow> card (redeemers (vw st1) ?s ?n) \<le> iv_uses ?iv" by (auto simp: assms(7))
  with signed ref new assms(3,4,7) show ?thesis by (simp add: Let_def ctx_custom)
qed

text \<open>C11: A redemption changes something only if it holds: the invite is for this scope and signed by
  its maker, the redemption by the identity it names, who is not banned and had not redeemed it;
  the invite is neither revoked nor expired; its maker may invite, the role is not \<open>owner\<close>,
  carries none of Hypergraph's own permissions its maker lacks, and ranks below the maker's unless that
  is the owner's, or it is \<open>member\<close> or \<open>guest\<close>, or the maker's own role and without power over others;
  and with this use counted, no more people than \<open>uses\<close> have redeemed it.\<close>

theorem redemption_checked:
  assumes "reachable E st" "dispatch E d (ctx_of (vw st) chain author) code st = Inr st1"
    and "d_body d = InviteRedeem rb" "st1 \<noteq> st"
  shows "\<exists>r idb. Option.bind rb (e_decode_redemption E) = Some r \<and> iv_id (rd_invite r) = Some idb \<and>
    verifyInvite E (rd_invite r) (e_space E) \<and>
    (\<exists>dev. verifyRedemption E r (e_space E) = Inr (Some (rd_identity r, dev))) \<and>
    (let iv = rd_invite r; s = scope_of chain; i = hex (rd_identity r); n = hex idb;
         maker = roleIn (vw st) chain (hex (iv_maker iv))
     in iv_space iv = scope_key E s \<and> \<not> bannedIn (vw st) chain i \<and> get_revoked (vw st) s n = None \<and>
        (iv_expires iv = 0 \<or> d_stamp d \<le> iv_expires iv) \<and>
        i \<notin> redeemers (vw st) s n \<and> redeemers (vw st1) s n = insert i (redeemers (vw st) s n) \<and>
        (iv_uses iv \<noteq> 0 \<longrightarrow> card (redeemers (vw st1) s n) \<le> iv_uses iv) \<and>
        iv_role iv \<noteq> ''owner'' \<and> can maker ''invite'' (roles_of (vw st)) \<and>
        (\<forall>p. p \<in> set OWN \<longrightarrow> can (Some (iv_role iv)) p (roles_of (vw st)) \<longrightarrow> can maker p (roles_of (vw st))) \<and>
        (maker = Some ''owner'' \<or> rankOf (Some (iv_role iv)) < rankOf maker \<or> iv_role iv \<in> {''member'', ''guest''} \<or>
         maker = Some (iv_role iv) \<and> (\<forall>p \<in> set POWER. \<not> can maker p (roles_of (vw st)))))"
proof -
  let ?cx = "ctx_of (vw st) chain author"
  from assms(2,3) have "do_redeem E ?cx (d_stamp d) rb code st = Inr st1"
    by (simp add: dispatch_def Let_def)
  from this assms(4) show ?thesis
  proof (rule do_redeem_cases)
    fix r :: redemption and idb identity device custom
    let ?iv = "rd_invite r" and ?n = "hex idb"
    let ?maker = "roleIn (vw st) (cx_chain ?cx) (hex (iv_maker ?iv))"
    assume r: "Option.bind rb (e_decode_redemption E) = Some r"
      "verifyRedemption E r (e_space E) = Inr (Some (identity, device))"
      "iv_space ?iv = scope_key E (cx_scope ?cx)" "iv_id ?iv = Some idb"
      "\<not> redeem_refused E ?cx (d_stamp d) r ?n st"
      and custom: "custom = load (vw st) [?maker, Some (iv_role ?iv)] (cx_custom ?cx)"
      and may: "mayInvite ?maker (iv_role ?iv) custom"
      and st1: "st1 = redeem_effect E ?cx (d_stamp d) r device code ?n (uses_of (vw st) (cx_scope ?cx) ?n) custom st"
    have ins: "redeemers (vw st1) (scope_of chain) ?n = insert (hex (rd_identity r)) (redeemers (vw st) (scope_of chain) ?n)"
      using redeem_effect_redeemers [of E ?cx] by (simp add: st1 ctx_custom)
    have le: "custom \<subseteq>\<^sub>m roles_of (vw st)" unfolding custom by (rule load_le [OF ctx_custom(1)])
    have inv: "can ?maker ''invite'' (roles_of (vw st))"
      using may by (auto simp: mayInvite_def split: if_splits intro: can_mono [OF le])
    have own: "can ?maker p (roles_of (vw st))" if "p \<in> set OWN" "can (Some (iv_role ?iv)) p (roles_of (vw st))" for p
    proof -
      have "can (Some (iv_role ?iv)) p custom"
        using that(2) can_loaded [OF ctx_custom(1), of "Some (iv_role ?iv)" "[?maker, Some (iv_role ?iv)]"]
        by (simp add: custom)
      from can_mono [OF le mayInvite_own [OF may this that(1)]] show ?thesis .
    qed
    have rank: "?maker = Some ''owner'' \<or> rankOf (Some (iv_role ?iv)) < rankOf ?maker \<or> iv_role ?iv \<in> {''member'', ''guest''} \<or>
      ?maker = Some (iv_role ?iv) \<and> (\<forall>p \<in> set POWER. \<not> can ?maker p (roles_of (vw st)))"
      using mayInvite_rank [OF may] can_loaded [OF ctx_custom(1), of ?maker "[?maker, Some (iv_role ?iv)]"] by (auto simp: custom)
    from redeem_guards [OF assms(1) r ins] r(1,4) mayInvite_not_owner [OF may] inv own rank show ?thesis
      by (intro exI [of _ r] exI [of _ idb]) (auto simp: Let_def ctx_custom)
  next
    fix r :: redemption and idb identity device custom
    let ?iv = "rd_invite r" and ?n = "hex idb"
    assume r: "Option.bind rb (e_decode_redemption E) = Some r"
      "verifyRedemption E r (e_space E) = Inr (Some (identity, device))"
      "iv_space ?iv = scope_key E (cx_scope ?cx)" "iv_id ?iv = Some idb"
      "\<not> redeem_refused E ?cx (d_stamp d) r ?n st" and role: "iv_role ?iv \<in> set INHERITED"
      and maker: "roleIn (vw st) (cx_chain ?cx) (hex (iv_maker ?iv)) = Some ''owner''"
      and st1: "st1 = put (KUses (cx_scope ?cx) ?n) (VUses (uses_of (vw st) (cx_scope ?cx) ?n + 1))
        (put (KRedeemed (cx_scope ?cx) ?n (hex (rd_identity r))) (VRedeemed (d_stamp d) (cx_author ?cx)) st)"
    have ins: "redeemers (vw st1) (scope_of chain) ?n = insert (hex (rd_identity r)) (redeemers (vw st) (scope_of chain) ?n)"
      by (auto simp: st1 ctx_custom redeemers_def getters)
    from redeem_guards [OF assms(1) r ins] r(1,4) inherited_not_owner [OF role] maker show ?thesis
      by (intro exI [of _ r] exI [of _ idb]) (auto simp: Let_def ctx_custom)
  qed
qed

section \<open>Taking people out\<close>

definition members_stay :: "view \<Rightarrow> view \<Rightarrow> bool" where
  "members_stay v w \<longleftrightarrow> (\<forall>s i. get_member v s i \<noteq> None \<longrightarrow> get_member w s i \<noteq> None)"

lemma members_stayD: "members_stay v w \<Longrightarrow> get_member v s i \<noteq> None \<Longrightarrow> get_member w s i \<noteq> None"
  by (simp add: members_stay_def)

lemma members_stay_same: "get_member w = get_member v \<Longrightarrow> members_stay v w"
  by (simp add: members_stay_def)

lemma members_stay_trans: "members_stay u v \<Longrightarrow> members_stay v w \<Longrightarrow> members_stay u w"
  by (simp add: members_stay_def)

lemma members_stay_refl [simp]: "members_stay v v"
  by (simp add: members_stay_def)

lemma members_stay_put [simp]: "members_stay (vw st) ((vw st)(KMember s i \<mapsto> VMember m))"
  by (simp add: members_stay_def)

lemma members_stay_other: "\<not> is_KMember k \<Longrightarrow> members_stay v (v(k := x))"
  by (rule members_stay_same) (auto simp: fun_eq_iff getters)

lemma redeem_here_stay: "members_stay (vw st) (vw (fst (redeem_here E cx n r device code custom st)))"
proof -
  have "get_member (vw (if b then snd (addKey i k d x) else x)) = get_member (vw x)" for b i k d x
    by (simp add: member_reads)
  then show ?thesis
    by (auto simp: redeem_here_def Let_def members_stay_def member_reads)
qed

lemma route_stay: "members_stay (vw st) (vw (route iv s subs i n custom code key st))"
  by (rule route_cases [of iv s subs i n custom code key st])
    (simp_all add: members_stay_def member_reads)

lemma routes_stay: "members_stay (vw st) (vw (fold (route iv s subs i n custom code) keys st))"
  by (induction keys arbitrary: st) (auto intro: members_stay_trans route_stay)

lemma do_redeem_stay:
  assumes "do_redeem E cx n rb code st = Inr st1"
  shows "members_stay (vw st) (vw st1)"
proof (cases "st1 = st")
  case False
  from assms False show ?thesis
  proof (rule do_redeem_cases)
    fix r :: redemption and idb
    assume "st1 = put (KUses (cx_scope cx) (hex idb)) (VUses (uses_of (vw st) (cx_scope cx) (hex idb) + 1))
       (put (KRedeemed (cx_scope cx) (hex idb) (hex (rd_identity r))) (VRedeemed n (cx_author cx)) st)"
    then show ?thesis by (simp add: members_stay_def getters)
  next
    fix r :: redemption and idb device custom
    assume e: "st1 = redeem_effect E cx n r device code (hex idb) (uses_of (vw st) (cx_scope cx) (hex idb)) custom st"
    obtain st2 c2 where here: "redeem_here E cx n r device code custom st = (st2, c2)" by force
    let ?st3 = "fold (route (rd_invite r) (cx_scope cx) (subspacesOf (vw st2)) (hex (rd_identity r)) n c2 code)
       (map hex (iv_subspaces (rd_invite r))) st2"
    have "members_stay (vw st) (vw st2)"
      using redeem_here_stay [of st E cx n r device code custom] by (simp add: here)
    from members_stay_trans [OF this routes_stay] have a: "members_stay (vw st) (vw ?st3)" .
    have "get_member (vw st1) = get_member (vw ?st3)"
      unfolding e redeem_effect_def Let_def here prod.case by (simp add: fun_eq_iff getters)
    with a show ?thesis by (simp add: members_stay_def)
  qed
qed simp

lemma listed_fold_stay:
  "get_member (vw (fold (\<lambda>(space, log) st. if get_listed (vw st) (hex log) = None
     then put (KListed (hex log)) (VListed (hex space)) st else st) ls st)) = get_member (vw st)"
proof (induction ls arbitrary: st)
  case (Cons a ls)
  show ?case unfolding fold_simps o_apply Cons.IH
    by (cases a) (simp add: fun_eq_iff getters)
qed simp

lemma if_put:
  "x = st \<or> (\<exists>m. x = put k (f m) st) \<Longrightarrow> y = st \<or> (\<exists>m. y = put k (f m) st) \<Longrightarrow>
    (if b then x else y) = st \<or> (\<exists>m. (if b then x else y) = put k (f m) st)"
  by simp

lemma others_stay:
  "members_stay (vw st) (vw (do_member_add cx n i code st))"
  "members_stay (vw st) (vw (do_role_define cx n name perms st))"
  "members_stay (vw st) (vw (do_writer_add E cx key proof st))"
  "members_stay (vw st) (vw (do_settings_set cx p l r h hs pb st))"
  "members_stay (vw st) (vw (do_types_set E cx m t st))"
  "members_stay (vw st) (vw (do_logs_list cx logs st))"
  "members_stay (vw st) (vw (do_subspace_create E cx n k name priv wr st))"
  "members_stay (vw st) (vw (do_key_rotate cx m c st))"
  "members_stay (vw st) (vw (do_mark E cx action target st))"
proof -
  show "members_stay (vw st) (vw (do_member_add cx n i code st))"
    by (auto simp: do_member_add_def Let_def members_stay_def member_reads)
  show "members_stay (vw st) (vw (do_role_define cx n name perms st))"
    by (auto simp del: fun_upd_apply simp: do_role_define_def Let_def members_stay_other)
  show "members_stay (vw st) (vw (do_writer_add E cx key proof st))"
    by (rule members_stay_same) (simp add: fun_eq_iff getters do_writer_add_frame writer_kind_def)
  show "members_stay (vw st) (vw (do_settings_set cx p l r h hs pb st))"
  proof -
    have "do_settings_set cx p l r h hs pb st = st \<or> (\<exists>m. do_settings_set cx p l r h hs pb st = put (KMeta (cx_scope cx)) (VMeta m) st)"
      unfolding do_settings_set_def Let_def by (intro if_put) blast+
    then show ?thesis by (auto simp del: fun_upd_apply simp: members_stay_other)
  qed
  show "members_stay (vw st) (vw (do_types_set E cx m t st))"
    by (rule members_stay_same)
      (auto simp: fun_eq_iff getters do_types_set_def Let_def split: option.splits)
  show "members_stay (vw st) (vw (do_logs_list cx logs st))"
    by (rule members_stay_same) (simp add: do_logs_list_def listed_fold_stay)
  show "members_stay (vw st) (vw (do_subspace_create E cx n k name priv wr st))"
    by (rule members_stay_same) (auto simp: fun_eq_iff getters do_subspace_create_def Let_def)
  show "members_stay (vw st) (vw (do_key_rotate cx m c st))"
  proof -
    have "do_key_rotate cx m c st = st \<or> (\<exists>e. do_key_rotate cx m c st = put (KEpochs (cx_scope cx)) (VEpochs e) st)"
      unfolding do_key_rotate_def Let_def by (intro if_put) blast+
    then show ?thesis by (auto simp del: fun_upd_apply simp: members_stay_other)
  qed
  show "members_stay (vw st) (vw (do_mark E cx action target st))"
    by (rule members_stay_same)
      (auto simp: fun_eq_iff getters do_mark_def Let_def split: option.splits)
qed

text \<open>Who a removal or a ban takes out.\<close>

lemma do_member_remove_out:
  assumes "get_member (vw st) s i \<noteq> None" "get_member (vw (do_member_remove E cx n identity ct st)) s i = None"
  shows "i = hex identity" "truthy (roleIn (vw st) (cx_chain cx) i)"
    "mayRemove (cx_role cx) (roleIn (vw st) (cx_chain cx) i) ''decide'' (load (vw st) [roleIn (vw st) (cx_chain cx) i] (cx_custom cx))"
proof -
  let ?i = "hex identity"
  have drop: "get_member (vw (dropBelow a ?i x)) s i \<noteq> None" if "i \<noteq> ?i" "get_member (vw x) s i \<noteq> None" for a x
  proof -
    have "vw (dropBelow a ?i x) (KMember s i) = vw x (KMember s i)"
      using that(1) unfolding dropBelow_def Let_def dropBelow_fold by auto
    with that(2) show ?thesis by (simp add: getters)
  qed
  have if_reads: "get_member (vw (if b then x else y)) = (if b then get_member (vw x) else get_member (vw y))" for b x y
    by simp
  show i: "i = ?i"
  proof (rule ccontr)
    assume "i \<noteq> ?i"
    then have "get_member (vw (del (KMember (cx_scope cx) ?i) st)) s i \<noteq> None"
      using assms(1) by (simp add: getters)
    from drop [OF \<open>i \<noteq> ?i\<close> this, of "cx_scope cx"] assms(1) have
      "get_member (vw (do_member_remove E cx n identity ct st)) s i \<noteq> None"
      unfolding do_member_remove_def Let_def if_reads member_reads by (simp split: if_split)
    with assms(2) show False by simp
  qed
  show "truthy (roleIn (vw st) (cx_chain cx) i)"
    "mayRemove (cx_role cx) (roleIn (vw st) (cx_chain cx) i) ''decide'' (load (vw st) [roleIn (vw st) (cx_chain cx) i] (cx_custom cx))"
    using assms i by (auto simp: do_member_remove_def Let_def split: if_splits)
qed

lemma ban_effect_out:
  assumes "get_member (vw st) s i \<noteq> None" "get_member (vw (ban_effect E cx n j reason ct drp role custom st)) s i = None"
  shows "i = j \<and> truthy role"
proof -
  have if_reads: "get_member (vw (if b then x else y)) = (if b then get_member (vw x) else get_member (vw y))" for b x y
    by simp
  have ban: "get_member (vw (put (KBanned a j) b st)) = get_member (vw st)" for a b
    by (simp add: fun_eq_iff getters)
  have del: "get_member (vw (del (KMember a j) x)) s i = (if s = a \<and> i = j then None else get_member (vw x) s i)" for a x
    by (simp add: getters)
  show ?thesis
    using assms by (auto simp: ban_effect_def Let_def member_reads if_reads ban del simp del: vw_put vw_del split: if_splits)
qed

lemma do_moderate_out:
  assumes "do_moderate E cx n action target reason ct drp st = Inr st1"
    and "get_member (vw st) s i \<noteq> None" "get_member (vw st1) s i = None"
  shows "truthy (roleIn (vw st) (cx_chain cx) i)"
    "mayRemove (cx_role cx) (roleIn (vw st) (cx_chain cx) i) ''moderate'' (load (vw st) [roleIn (vw st) (cx_chain cx) i] (cx_custom cx))"
proof -
  have "action = ''ban''"
  proof (rule ccontr)
    assume "action \<noteq> ''ban''"
    moreover have "members_stay (vw st) (vw st1)" if "do_unban cx target st = Inr st1"
      using that by (auto simp: do_unban_def Let_def simp del: fun_upd_apply split: option.splits if_splits intro!: members_stay_other)
    ultimately have "members_stay (vw st) (vw st1)"
      using assms(1) others_stay(9) by (auto simp: do_moderate_def split: if_splits)
    from members_stayD [OF this assms(2)] assms(3) show False by simp
  qed
  with assms have ban: "do_ban E cx n target reason ct drp st = Inr st1"
    by (auto simp: do_moderate_def ACTIONS_def split: if_splits)
  then obtain t where t: "target = Some t" by (cases target) (simp_all add: do_ban_def)
  let ?role = "roleIn (vw st) (cx_chain cx) (hex t)"
  let ?custom = "load (vw st) [?role] (cx_custom cx)"
  have e: "st1 = ban_effect E cx n (hex t) reason ct drp ?role ?custom st" "mayRemove (cx_role cx) ?role ''moderate'' ?custom"
    using ban assms(2,3) by (auto simp: do_ban_def t Let_def member_reads split: if_splits option.splits)
  from ban_effect_out [OF assms(2), of E cx n "hex t" reason ct drp ?role ?custom] assms(3) e
  show "truthy (roleIn (vw st) (cx_chain cx) i)"
    "mayRemove (cx_role cx) (roleIn (vw st) (cx_chain cx) i) ''moderate'' (load (vw st) [roleIn (vw st) (cx_chain cx) i] (cx_custom cx))"
    by auto
qed

lemma mayRemove_rank:
  "mayRemove a t p custom \<Longrightarrow> truthy t \<Longrightarrow> t \<noteq> Some ''owner'' \<and> (a = Some ''owner'' \<or> rankOf t < rankOf a)"
  by (auto simp: mayRemove_def truthy_def split: if_splits)

lemma mayRemove_can: "mayRemove a t p custom \<Longrightarrow> can a p custom"
  by (auto simp: mayRemove_def split: if_splits)

text \<open>C12: Nobody is taken out by their equal: a decision that deletes someone's member entry was made
  by an author who may decide or moderate in its scope; the person was a member there, not the
  owner, and ranked below the author, unless the author is the owner.\<close>

theorem removal_from_above:
  assumes "dispatch E d (ctx_of (vw st) chain author) code st = Inr st1"
    and "get_member (vw st) s i \<noteq> None" "get_member (vw st1) s i = None"
  shows "mayWrite (roleIn (vw st) chain author) (roles_of (vw st)) \<and> truthy (roleIn (vw st) chain i) \<and>
    roleIn (vw st) chain i \<noteq> Some ''owner'' \<and>
    (roleIn (vw st) chain author = Some ''owner'' \<or>
     rankOf (roleIn (vw st) chain i) < rankOf (roleIn (vw st) chain author))"
proof -
  let ?cx = "ctx_of (vw st) chain author" and ?n = "d_stamp d"
  have gone: "\<not> members_stay (vw st) (vw st1)" using members_stayD assms(2,3) by blast
  have "truthy (roleIn (vw st) chain i) \<and>
    (\<exists>p \<in> {''decide'', ''moderate''}. mayRemove (cx_role ?cx) (roleIn (vw st) chain i) p (load (vw st) [roleIn (vw st) chain i] (cx_custom ?cx)))"
  proof (cases "d_body d")
    case (MemberRemove j ct)
    then have st1: "st1 = do_member_remove E ?cx ?n j ct st"
      using assms(1) by (simp add: dispatch_def Let_def)
    show ?thesis
      using do_member_remove_out(2,3) [OF assms(2) assms(3) [unfolded st1]] by (simp add: ctx_custom)
  next
    case (Moderate action target reason ct drp)
    then have "do_moderate E ?cx ?n action target reason ct drp st = Inr st1"
      using assms(1) by (simp add: dispatch_def Let_def)
    from do_moderate_out [OF this assms(2,3)] show ?thesis by (simp add: ctx_custom)
  next
    case (RoleSet j r ct)
    have "members_stay (vw st) (vw (do_role_set E ?cx ?n j r ct code st))"
      by (rule do_role_set_cases [of E ?cx ?n j r ct code st]) (simp_all add: members_stay_def)
    with gone assms(1) RoleSet show ?thesis by (simp add: dispatch_def Let_def split: if_splits)
  next
    case (InviteRedeem rb)
    with gone assms(1) do_redeem_stay show ?thesis by (auto simp: dispatch_def Let_def)
  next
    case (InviteRevoke ib)
    then have "do_revoke E ?cx ?n ib st = Inr st1" using assms(1) by (simp add: dispatch_def Let_def)
    then have "get_member (vw st1) = get_member (vw st)"
      by (simp add: fun_eq_iff getters do_revoke_frame)
    with gone show ?thesis by (simp add: members_stay_def)
  next
    case (DeviceRemove dv ct pf)
    then have "do_device_remove E ?cx ?n dv ct pf st = Inr st1" using assms(1) by (simp add: dispatch_def Let_def)
    then have "get_member (vw st1) = get_member (vw st)"
      by (simp add: fun_eq_iff getters do_device_remove_frame)
    with gone show ?thesis by (simp add: members_stay_def)
  qed (use gone assms(1) others_stay in \<open>auto simp: dispatch_def Let_def\<close>)
  then obtain p where t: "truthy (roleIn (vw st) chain i)" and p: "p \<in> {''decide'', ''moderate''}"
    and may: "mayRemove (cx_role ?cx) (roleIn (vw st) chain i) p (load (vw st) [roleIn (vw st) chain i] (cx_custom ?cx))"
    by blast
  have "mayWrite (roleIn (vw st) chain author) (roles_of (vw st))"
    using mayRemove_can [OF may] p by (auto simp: mayWrite_def ctx_can)
  with t mayRemove_rank [OF may t] show ?thesis by (simp add: ctx_custom)
qed

section \<open>Witnesses\<close>

lemma ex_roles_of: "ex_roles v = roles_of v"
  by (simp add: fun_eq_iff ex_roles_def roles_of_def)

text \<open>A member without power records that somebody removed a device of theirs: its key goes.\<close>

theorem powerless_writers_witness:
  "\<exists>st1 data i. ex_decide ex_st1 ''04'' (DeviceRemove [8] (Some [1]) (Some [2, 2])) = Inr st1 \<and>
     get_writer (vw st1) ''15'' \<noteq> get_writer (vw ex_st1) ''15'' \<and>
     Identity_verify ex_env (Some [2, 2]) data = Some (i, i) \<and> KWriter ''15'' \<in> keys_of (vw ex_st1) (hex i)"
proof -
  let ?b = "DeviceRemove [8] (Some [1]) (Some [2, 2])"
  have e: "ex_single ex_st1" "ex_first (vw ex_st1)" by (rule ex_runs)+
  then obtain st1 where st1: "ex_decide ex_st1 ''04'' ?b = Inr st1" "get_writer (vw st1) ''15'' = None"
    by (auto simp: ex_single_def split: sum.splits)
  have ne: "get_writer (vw st1) ''15'' \<noteq> get_writer (vw ex_st1) ''15''" using st1(2) e(2) by (simp add: ex_first_def)
  then have "vw st1 (KWriter ''15'') \<noteq> vw ex_st1 (KWriter ''15'')" by (auto simp: getters)
  moreover have "\<not> can (roleIn (vw ex_st1) [] ''04'') p (roles_of (vw ex_st1))" if "p \<in> {''decide'', ''moderate'', ''roles''}" for p
    using e(1) that by (auto simp: ex_single_def ex_roles_of)
  ultimately obtain data i where "Identity_verify ex_env (Some [2, 2]) data = Some (i, i)" "KWriter ''15'' \<in> keys_of (vw ex_st1) (hex i)"
    using powerless_writers [OF st1(1) [unfolded ex_decide_def], of "KWriter ''15''"] by auto
  with st1(1) ne show ?thesis by blast
qed

theorem role_set_bounded_witness:
  "can (roleIn (vw ex_st1) [] ''01'') ''roles'' (roles_of (vw ex_st1))"
proof -
  have e: "ex_single ex_st1" by (rule ex_runs(5))
  then obtain st1 where st1: "ex_decide ex_st1 ''01'' (RoleSet [2] ''reviewer'' []) = Inr st1"
    and r: "map_option mb_role (get_member (vw st1) None ''02'') = Some ''reviewer''"
    by (auto simp: ex_single_def split: sum.splits)
  have "map_option mb_role (get_member (vw ex_st1) None ''02'') = Some ''moderator''"
    using e by (simp add: ex_single_def)
  with r have st2: "get_member (vw st1) None ''02'' \<noteq> get_member (vw ex_st1) None ''02''" by auto
  from role_set_bounded [OF st1 [unfolded ex_decide_def] _ st2] show ?thesis by simp
qed

theorem redemption_checked_witness:
  "\<exists>st1 :: vstate. card (redeemers (vw st1) None (hex [40])) \<le> 1 \<and> hex [4] \<in> redeemers (vw st1) None (hex [40])"
proof -
  obtain st1 where st1: "ex_decide ex_st0 ''01'' (InviteRedeem (Some [40])) = Inr st1" "st1 \<noteq> ex_st0"
    using ex_redeemed by blast
  from redemption_checked [OF ex_reachable(3) st1(1) [unfolded ex_decide_def] _ st1(2)]
  obtain r idb where r: "Option.bind (Some [40]) (e_decode_redemption ex_env) = Some r" "iv_id (rd_invite r) = Some idb"
    and u: "let iv = rd_invite r; i = hex (rd_identity r); n = hex idb
      in redeemers (vw st1) None n = insert i (redeemers (vw ex_st0) None n) \<and>
        (iv_uses iv \<noteq> 0 \<longrightarrow> card (redeemers (vw st1) None n) \<le> iv_uses iv)"
    unfolding Let_def by (auto simp: scope_of_def)
  from r(1) have re: "r = ex_redemption" by (simp add: ex_env_def)
  with r(2) have idb: "idb = [40]" by (simp add: ex_redemption_def ex_invite_def)
  have iv: "rd_invite ex_redemption = ex_invite" "rd_identity ex_redemption = [4]" "iv_uses ex_invite = 1"
    by (simp_all add: ex_redemption_def ex_invite_def)
  from u have "redeemers (vw st1) None (hex [40]) = insert (hex [4]) (redeemers (vw ex_st0) None (hex [40])) \<and>
      (1 \<noteq> (0::nat) \<longrightarrow> card (redeemers (vw st1) None (hex [40])) \<le> 1)"
    unfolding Let_def re idb iv .
  then have "card (redeemers (vw st1) None (hex [40])) \<le> 1 \<and> hex [4] \<in> redeemers (vw st1) None (hex [40])"
    by (metis insertI1 one_neq_zero)
  then show ?thesis by blast
qed

theorem removal_from_above_witness: "roleIn (vw ex_st1) [] ''04'' \<noteq> Some ''owner''"
proof -
  have e: "ex_single ex_st1" by (rule ex_runs(5))
  then obtain st1 where st1: "ex_decide ex_st1 ''01'' (MemberRemove [4] []) = Inr st1"
    "get_member (vw ex_st1) None ''04'' \<noteq> None" "get_member (vw st1) None ''04'' = None"
    by (auto simp: ex_single_def split: sum.splits)
  from removal_from_above [OF st1(1) [unfolded ex_decide_def] st1(2,3)] show ?thesis by simp
qed

end
