(* ===== verification/Failures.thy ===== *)
theory Failures
  imports Example
begin

text \<open>
  When applying decisions throws (lib/decisions/apply.js): only on a buffer that decoded to
  \<open>null\<close> because it was empty, and on a role named like a property every object inherits.
  Everything else, malformed decisions included, is skipped.
\<close>

definition plain_entry :: "env \<Rightarrow> decision \<Rightarrow> bool" where
  "plain_entry E d =
     (case d_body d of
        Moderate _ target _ _ _ \<Rightarrow> target \<noteq> None
      | DeviceRemove _ ct _ \<Rightarrow> ct \<noteq> None
      | InviteRedeem rb \<Rightarrow>
          (case Option.bind rb (e_decode_redemption E) of None \<Rightarrow> True
           | Some r \<Rightarrow> iv_id (rd_invite r) \<noteq> None \<and> iv_role (rd_invite r) \<notin> set INHERITED)
      | RoleSet _ role _ \<Rightarrow> role \<notin> set INHERITED
      | InviteRevoke ib \<Rightarrow>
          (case Option.bind ib (e_decode_invite E) of None \<Rightarrow> True | Some iv \<Rightarrow> iv_id iv \<noteq> None)
      | _ \<Rightarrow> True)"

definition applies :: "js_error + 'a \<Rightarrow> bool" where
  "applies r \<longleftrightarrow> (\<exists>x. r = Inr x)"

lemma applies_simps [simp]: "applies (Inr x)" "\<not> applies (Inl e)"
  by (simp_all add: applies_def)

lemma applies_if [simp]: "applies (if b then x else y) \<longleftrightarrow> (if b then applies x else applies y)"
  by simp

lemma verifyRedemption_applies: "iv_id (rd_invite r) \<noteq> None \<Longrightarrow> applies (verifyRedemption E r root)"
  by (auto simp: verifyRedemption_def redemptionSignable_def split: option.splits)

lemma do_redeem_applies:
  assumes "\<And>r. Option.bind rb (e_decode_redemption E) = Some r \<Longrightarrow> iv_id (rd_invite r) \<noteq> None \<and> iv_role (rd_invite r) \<notin> set INHERITED"
  shows "applies (do_redeem E cx n rb code st)"
proof (cases "Option.bind rb (e_decode_redemption E)")
  case (Some r)
  then obtain idb where "iv_id (rd_invite r) = Some idb" using assms by blast
  moreover obtain x where "verifyRedemption E r (e_space E) = Inr x"
    using verifyRedemption_applies [of r] assms [OF Some] by (auto simp: applies_def)
  ultimately show ?thesis using assms [OF Some] by (cases x) (auto simp: do_redeem_def Some Let_def)
qed (simp add: do_redeem_def)

lemma dispatch_applies:
  assumes "plain_entry E d"
  shows "applies (dispatch E d cx code st)"
proof (cases "d_body d")
  case (Moderate action target reason ct drp)
  with assms obtain t where "target = Some t" by (auto simp: plain_entry_def)
  with Moderate show ?thesis
    by (auto simp: dispatch_def Let_def do_moderate_def do_ban_def do_unban_def split: option.splits)
next
  case (RoleSet i role ct)
  with assms show ?thesis by (simp add: plain_entry_def dispatch_def Let_def role_set_throws_def)
next
  case (InviteRedeem rb)
  with assms show ?thesis
    by (auto simp: plain_entry_def dispatch_def Let_def intro!: do_redeem_applies)
next
  case (InviteRevoke ib)
  with assms show ?thesis
    by (auto simp: plain_entry_def dispatch_def Let_def do_revoke_def split: option.splits)
next
  case (DeviceRemove dv ct pf)
  with assms obtain c where "ct = Some c" by (auto simp: plain_entry_def)
  with DeviceRemove show ?thesis
    by (auto simp: dispatch_def Let_def do_device_remove_def removalSignable_def split: option.splits prod.splits)
qed (simp_all add: dispatch_def Let_def)

lemma applyOne_applies: "plain_entry E d \<Longrightarrow> applies (applyOne E d wr chain code st)"
  by (auto simp: applyOne_def dispatch_applies split: decision_body.splits option.splits)

lemma listDecision_applies:
  assumes "plain_entry E d"
  shows "applies (listDecision E d wr w counted s st)"
proof -
  have "applies (details_of E (d_body d))"
    using assms by (cases "d_body d") (auto simp: details_of_def plain_entry_def split: option.splits)
  then show ?thesis by (auto simp: listDecision_def Let_def applies_def)
qed

lemma applyNode_applies:
  assumes "\<And>d0 s d ig. e_decode_decision E (fst n) = Some d0 \<Longrightarrow> unwrap E d0 = Some (s, d, ig) \<Longrightarrow> plain_entry E d"
  shows "applies (applyNode E n st)"
proof (cases "e_decode_decision E (fst n)")
  case (Some d0)
  show ?thesis
  proof (cases "unwrap E d0")
    case u: (Some x)
    obtain s d ig where x: "x = (s, d, ig)" by (cases x)
    have nf: "plain_entry E d" using assms Some u x by blast
    let ?mid = "case chainOf (vw st) s of None \<Rightarrow> Inr st
        | Some chain \<Rightarrow> if ig then Inr st
            else applyOne E d (snd n) chain (hex (e_hash E (snd n @ fst n))) (st\<lparr>writes := 0\<rparr>)"
    have "applies ?mid" using applyOne_applies [OF nf] by (simp split: option.split)
    then obtain mid where "?mid = Inr mid" by (auto simp: applies_def)
    then show ?thesis
      using listDecision_applies [OF nf] by (simp add: applyNode_def Some u x Let_def)
  qed (simp add: applyNode_def Some)
qed (simp add: applyNode_def)

text \<open>C13: Applying decisions to any state a log can reach never throws, if the entries have no empty buffers and name
  no role like a property every object inherits (\<open>constructor\<close>, \<open>toString\<close>): whatever else is in them, undecodable
  entries included, every entry is applied or skipped and the rest still apply.\<close>

theorem applies_without_nulls:
  assumes "\<And>n d0 s d ig. n \<in> set ns \<Longrightarrow> e_decode_decision E (fst n) = Some d0 \<Longrightarrow>
      unwrap E d0 = Some (s, d, ig) \<Longrightarrow> plain_entry E d"
    and "reachable E st"
  shows "\<exists>st1. applyNodes E ns st = Inr st1 \<and> reachable E st1"
  using assms
proof (induction ns arbitrary: st)
  case (Cons n ns)
  have "applies (applyNode E n st)" using Cons.prems(1) [OF list.set_intros(1)] by (rule applyNode_applies)
  then obtain st1 where "applyNode E n st = Inr st1" by (auto simp: applies_def)
  with Cons show ?case by (metis applyNodes.simps(2) list.set_intros(2) reachable.node sum.case(2))
qed simp

text \<open>Such a role does throw: given by someone who may give roles, to anyone but the owner whom they outrank.\<close>

lemma inherited_role_throws:
  assumes "d_body d = RoleSet i role ct" "role \<in> set INHERITED" "can (cx_role cx) ''roles'' (cx_custom cx)"
    "memberIn (vw st) (cx_chain cx) (hex i) = None" "\<not> bannedIn (vw st) (cx_chain cx) (hex i)"
    "get_role (vw st) role = None"
  shows "dispatch E d cx code st = Inl TypeError"
  using assms by (simp add: dispatch_def Let_def role_set_throws_def roleIn_def load_def load1_def truthy_def)

definition ex_plain_node :: "bytes \<times> bytes \<Rightarrow> bool" where
  "ex_plain_node n =
     (case e_decode_decision ex_env (fst n) of None \<Rightarrow> True
      | Some d0 \<Rightarrow> (case unwrap ex_env d0 of None \<Rightarrow> True | Some (s, d, ig) \<Rightarrow> plain_entry ex_env d))"

theorem applies_without_nulls_witness: "\<exists>st1. applyNodes ex_env ([([], [0]), ([77], [0])] @ ex_log1) empty_vstate = Inr st1 \<and> reachable ex_env st1"
proof (rule applies_without_nulls [OF _ reachable.empty])
  fix n d0 s d ig
  assume n: "n \<in> set ([([], [0]), ([77], [0])] @ ex_log1)"
    and d: "e_decode_decision ex_env (fst n) = Some d0" "unwrap ex_env d0 = Some (s, d, ig)"
  have "list_all ex_plain_node ([([], [0]), ([77], [0])] @ ex_log1)"
    by code_simp
  with n have "ex_plain_node n" unfolding list_all_iff by blast
  with d show "plain_entry ex_env d" by (simp add: ex_plain_node_def)
qed

text \<open>C14: One empty moderation target stops a space: an entry whose decision is a moderation with an
  empty target makes applying throw, whoever wrote it and whatever it may do, so no log with that
  entry in it applies, though malformed entries are meant to be skipped.\<close>

theorem empty_target_throws:
  assumes "e_decode_decision E bs = Some d0" "unwrap E d0 = Some (s, d, ignored)"
    and "d_body d = Moderate action None reason ct drp"
  shows "applyNodes E (ms @ (bs, wr) # ns) st = Inl TypeError"
proof -
  have e: "x = TypeError" for x by (cases x) simp
  have "applyNode E (bs, wr) st' = Inl TypeError" for st'
  proof (cases "applyNode E (bs, wr) st'")
    case (Inr st1)
    then show ?thesis
      using assms by (auto simp: applyNode_def Let_def listDecision_def details_of_def type_of_def split: sum.splits)
  qed (simp add: e)
  then show ?thesis by (auto simp: applyNodes_append e split: sum.splits)
qed

definition ex_null_env :: env where
  "ex_null_env = ex_env\<lparr>e_decode_decision := (\<lambda>b. if b = [99]
     then Some \<lparr>d_stamp = 1, d_body = Moderate ''hide'' None '''' [] None\<rparr> else e_decode_decision ex_env b)\<rparr>"

theorem empty_target_throws_witness: "applyNodes ex_null_env (ex_log1 @ ([99], [55]) # ex_log2) empty_vstate = Inl TypeError"
proof (rule empty_target_throws)
  let ?d = "\<lparr>d_stamp = 1, d_body = Moderate ''hide'' None '''' [] None\<rparr> :: decision"
  show "e_decode_decision ex_null_env [99] = Some ?d" by (simp add: ex_null_env_def)
  show "unwrap ex_null_env ?d = Some (None, ?d, False)" by (simp add: unwrap_def)
  show "d_body ?d = Moderate ''hide'' None '''' [] None" by simp
qed

end
