(* ===== verification/Space_State.thy ===== *)
theory Space_State
  imports Promises
begin

text \<open>
  A space's state in memory (lib/decisions/state.js, class State): the maps it keeps of the
  view's entries, filled one entry at a time by \<open>State#apply\<close>. A sub-space's own entries are in a
  state of their own (\<open>scoped\<close>), which holds no further ones. \<open>represents\<close> says that a state holds
  what a view says; \<open>State_apply_represents\<close> that one entry applied keeps it so.
\<close>

text \<open>A member as the state keeps them: without the writer key, which only applying reads.\<close>

record short_member =
  sm_role :: string
  sm_by :: string
  sm_stamp :: nat

definition short :: "member \<Rightarrow> short_member" where
  "short m = \<lparr>sm_role = mb_role m, sm_by = mb_by m, sm_stamp = mb_stamp m\<rparr>"

record entries =
  s_meta :: "meta option"
  s_members :: "string \<rightharpoonup> short_member"
  s_writers :: "string \<rightharpoonup> string"
  s_writerInfo :: "string \<rightharpoonup> writer_info"
  s_gone :: "string \<Rightarrow> string \<Rightarrow> bool"
  s_revoked :: "string \<rightharpoonup> string \<times> nat"
  s_cuts :: "string \<rightharpoonup> loglens"
  s_admits :: "string \<rightharpoonup> string"
  s_editcuts :: "string \<rightharpoonup> editcuts"
  s_roles :: "string \<rightharpoonup> string list"
  s_banned :: "string \<rightharpoonup> ban"
  s_moderated :: "string \<rightharpoonup> moderation"
  s_epochs :: "epochs option"
  s_subspaces :: "string \<rightharpoonup> subspace"
  s_listed :: "string \<rightharpoonup> string"
  s_typesVersion :: nat
  s_typeVersions :: "nat \<rightharpoonup> string"

record state =
  top_entries :: entries
  scoped :: "string \<rightharpoonup> entries"

definition no_entries :: entries where
  "no_entries = \<lparr>s_meta = None, s_members = Map.empty, s_writers = Map.empty, s_writerInfo = Map.empty,
     s_gone = (\<lambda>i d. False), s_revoked = Map.empty, s_cuts = Map.empty, s_admits = Map.empty,
     s_editcuts = Map.empty, s_roles = Map.empty, s_banned = Map.empty, s_moderated = Map.empty,
     s_epochs = None, s_subspaces = Map.empty, s_listed = Map.empty, s_typesVersion = 0,
     s_typeVersions = Map.empty\<rparr>"

definition new_state :: state where
  "new_state = \<lparr>top_entries = no_entries, scoped = Map.empty\<rparr>"

section \<open>One entry\<close>

text \<open>\<open>State#apply\<close> of a key without its \<open>sub:\<close> prefix; \<open>None\<close> for a deleted entry. Invites' uses and
  redemptions, the writers' index, the list of sub-spaces and the decision list are not held.\<close>

primrec apply_entry :: "vkey \<Rightarrow> vval option \<Rightarrow> entries \<Rightarrow> entries" where
  "apply_entry (KMeta s) x e = e\<lparr>s_meta := (case x of Some (VMeta m) \<Rightarrow> Some m | _ \<Rightarrow> None)\<rparr>"
| "apply_entry (KMember s i) x e = e\<lparr>s_members := (s_members e)(i := (case x of Some (VMember m) \<Rightarrow> Some (short m) | _ \<Rightarrow> None))\<rparr>"
| "apply_entry (KBanned s i) x e = e\<lparr>s_banned := (s_banned e)(i := (case x of Some (VBanned b) \<Rightarrow> Some b | _ \<Rightarrow> None))\<rparr>"
| "apply_entry (KCut s i) x e = e\<lparr>s_cuts := (s_cuts e)(i := (case x of Some (VCut c) \<Rightarrow> Some (ct_logs c) | _ \<Rightarrow> None))\<rparr>"
| "apply_entry (KAdmit s i) x e = e\<lparr>s_admits := (s_admits e)(i := (case x of Some (VAdmit c) \<Rightarrow> Some c | _ \<Rightarrow> None))\<rparr>"
| "apply_entry (KEditcut s i) x e = e\<lparr>s_editcuts := (s_editcuts e)(i := (case x of Some (VEditcut c) \<Rightarrow> Some c | _ \<Rightarrow> None))\<rparr>"
| "apply_entry (KMod s r) x e = e\<lparr>s_moderated := (s_moderated e)(r := (case x of Some (VMod m) \<Rightarrow> Some m | _ \<Rightarrow> None))\<rparr>"
| "apply_entry (KRedeemed s n i) x e = e"
| "apply_entry (KUses s n) x e = e"
| "apply_entry (KRevoked s n) x e = e\<lparr>s_revoked := (s_revoked e)(n := (case x of Some (VRevoked a t) \<Rightarrow> Some (a, t) | _ \<Rightarrow> None))\<rparr>"
| "apply_entry (KEpochs s) x e = e\<lparr>s_epochs := (case x of Some (VEpochs ep) \<Rightarrow> Some ep | _ \<Rightarrow> None)\<rparr>"
| "apply_entry (KWriter k) x e = e\<lparr>
     s_writers := (s_writers e)(k := (case x of Some (VWriter w) \<Rightarrow> Some (w_identity w) | _ \<Rightarrow> None)),
     s_writerInfo := (s_writerInfo e)(k := (case x of Some (VWriter w) \<Rightarrow> Some w | _ \<Rightarrow> None))\<rparr>"
| "apply_entry (KWriters i) x e = e"
| "apply_entry (KGone i d) x e = e\<lparr>s_gone := (s_gone e)(i := (s_gone e i)(d := x \<noteq> None))\<rparr>"
| "apply_entry (KRole r) x e = e\<lparr>s_roles := (s_roles e)(r := (case x of Some (VRole y) \<Rightarrow> Some (re_permissions y) | _ \<Rightarrow> None))\<rparr>"
| "apply_entry (KSubspace h) x e = e\<lparr>s_subspaces := (s_subspaces e)(h := (case x of Some (VSubspace y) \<Rightarrow> Some y | _ \<Rightarrow> None))\<rparr>"
| "apply_entry KSubspaces x e = e"
| "apply_entry (KListed l) x e = e\<lparr>s_listed := (s_listed e)(l := (case x of Some (VListed y) \<Rightarrow> Some y | _ \<Rightarrow> None))\<rparr>"
| "apply_entry KTypes x e = e\<lparr>s_typesVersion := (case x of Some (VTypes n) \<Rightarrow> n | _ \<Rightarrow> 0)\<rparr>"
| "apply_entry (KTypesAt n) x e = e\<lparr>s_typeVersions := (s_typeVersions e)(n := (case x of Some (VTypesAt t) \<Rightarrow> Some t | _ \<Rightarrow> None))\<rparr>"
| "apply_entry (KLog n) x e = e"
| "apply_entry KCount x e = e"

text \<open>The sub-space a key is under (\<open>key.startsWith ('sub:')\<close>).\<close>

primrec key_scope :: "vkey \<Rightarrow> scope" where
  "key_scope (KMeta s) = s"
| "key_scope (KMember s i) = s"
| "key_scope (KBanned s i) = s"
| "key_scope (KCut s i) = s"
| "key_scope (KAdmit s i) = s"
| "key_scope (KEditcut s i) = s"
| "key_scope (KMod s r) = s"
| "key_scope (KRedeemed s n i) = s"
| "key_scope (KUses s n) = s"
| "key_scope (KRevoked s n) = s"
| "key_scope (KEpochs s) = s"
| "key_scope (KWriter k) = None"
| "key_scope (KWriters i) = None"
| "key_scope (KGone i d) = None"
| "key_scope (KRole r) = None"
| "key_scope (KSubspace h) = None"
| "key_scope KSubspaces = None"
| "key_scope (KListed l) = None"
| "key_scope KTypes = None"
| "key_scope (KTypesAt n) = None"
| "key_scope (KLog n) = None"
| "key_scope KCount = None"

definition own_of :: "state \<Rightarrow> string \<Rightarrow> entries" where
  "own_of st h = (case scoped st h of None \<Rightarrow> no_entries | Some e \<Rightarrow> e)"

definition State_apply :: "vkey \<Rightarrow> vval option \<Rightarrow> state \<Rightarrow> state" where
  "State_apply k x st =
     (case key_scope k of
        None \<Rightarrow> st\<lparr>top_entries := apply_entry k x (top_entries st)\<rparr>
      | Some h \<Rightarrow> st\<lparr>scoped := (scoped st)(h \<mapsto> apply_entry k x (own_of st h))\<rparr>)"

definition State_from :: "(vkey \<times> vval) list \<Rightarrow> state" where
  "State_from es = fold (\<lambda>(k, x). State_apply k (Some x)) es new_state"

section \<open>What it holds of a view\<close>

definition entries_of :: "view \<Rightarrow> scope \<Rightarrow> entries" where
  "entries_of v s = \<lparr>s_meta = get_meta v s, s_members = (\<lambda>i. map_option short (get_member v s i)),
     s_writers = (\<lambda>k. if s = None then map_option w_identity (get_writer v k) else None),
     s_writerInfo = (\<lambda>k. if s = None then get_writer v k else None),
     s_gone = (\<lambda>i d. s = None \<and> get_gone v i d \<noteq> None),
     s_revoked = get_revoked v s, s_cuts = (\<lambda>i. map_option ct_logs (get_cut v s i)),
     s_admits = get_admit v s, s_editcuts = get_editcut v s,
     s_roles = (\<lambda>r. if s = None then map_option re_permissions (get_role v r) else None),
     s_banned = get_banned v s, s_moderated = get_mod v s, s_epochs = get_epochs v s,
     s_subspaces = (\<lambda>h. if s = None then get_subspace v h else None),
     s_listed = (\<lambda>l. if s = None then get_listed v l else None),
     s_typesVersion = (if s = None then types_version v else 0),
     s_typeVersions = (\<lambda>n. if s = None then get_types_at v n else None)\<rparr>"

definition represents :: "state \<Rightarrow> view \<Rightarrow> bool" where
  "represents st v \<longleftrightarrow> top_entries st = entries_of v None \<and> (\<forall>h. own_of st h = entries_of v (Some h))"

lemma new_represents: "represents new_state Map.empty"
  by (simp add: represents_def own_of_def new_state_def no_entries_def entries_of_def getters
      types_version_def fun_eq_iff)

text \<open>Applying an entry is writing it in the view, as far as the state holds it.\<close>

lemmas entries_reads = entries_of_def getters fun_eq_iff types_version_def

lemma apply_entry_none: "apply_entry k None (entries_of v (key_scope k)) = entries_of (v(k := None)) (key_scope k)"
  by (cases k) (auto simp: entries_reads)

lemma apply_entry_some:
  "typed k y \<Longrightarrow> apply_entry k (Some y) (entries_of v (key_scope k)) = entries_of (v(k \<mapsto> y)) (key_scope k)"
  by (cases k; cases y; clarsimp) (auto simp: entries_reads)

lemma apply_entry_elsewhere:
  "s \<noteq> key_scope k \<Longrightarrow> entries_of (v(k := x)) s = entries_of v s"
  by (cases k) (auto simp: entries_reads)

lemma State_apply_represents:
  assumes "represents st v" "\<And>y. x = Some y \<Longrightarrow> typed k y"
  shows "represents (State_apply k x st) (v(k := x))"
proof -
  have here: "apply_entry k x (entries_of v (key_scope k)) = entries_of (v(k := x)) (key_scope k)"
    using apply_entry_none apply_entry_some assms(2) by (cases x) auto
  show ?thesis
  proof (cases "key_scope k")
    case None
    with assms(1) here apply_entry_elsewhere [of "Some _" k v x] show ?thesis
      by (simp add: represents_def State_apply_def own_of_def)
  next
    case (Some h)
    with assms(1) here apply_entry_elsewhere [of _ k v x] show ?thesis
      by (simp add: represents_def State_apply_def own_of_def)
  qed
qed

section \<open>Reading the view\<close>

text \<open>
  What Hyperbee streams of a view (it is not in this repository): \<open>createReadStream\<close> below \<open>~\<close>
  gives each entry that is not of the decision list once, \<open>createDiffStream\<close> each of those that
  differs between two versions once, with its present value on the left and its old one on the
  right, either of them missing.
\<close>

record diff_entry =
  df_left :: "(vkey \<times> vval) option"
  df_right :: "(vkey \<times> vval) option"

definition read_stream :: "(vkey \<times> vval) list \<Rightarrow> view \<Rightarrow> bool" where
  "read_stream es w \<longleftrightarrow> distinct (map fst es) \<and> (\<forall>k x. (k, x) \<in> set es \<longleftrightarrow> \<not> listing k \<and> w k = Some x)"

definition df_key :: "diff_entry \<Rightarrow> vkey" where
  "df_key d = (case df_left d of Some (k, x) \<Rightarrow> k | None \<Rightarrow> fst (the (df_right d)))"

definition diff_stream :: "diff_entry list \<Rightarrow> view \<Rightarrow> view \<Rightarrow> bool" where
  "diff_stream ds v w \<longleftrightarrow> distinct (map df_key ds)
     \<and> df_key ` set ds = {k. \<not> listing k \<and> v k \<noteq> w k}
     \<and> (\<forall>d\<in>set ds. df_left d = map_option (Pair (df_key d)) (w (df_key d))
                  \<and> df_right d = map_option (Pair (df_key d)) (v (df_key d)))"

definition readChanges :: "state \<Rightarrow> diff_entry list \<Rightarrow> state \<times> vkey list" where
  "readChanges st ds =
     (fold (\<lambda>d. State_apply (df_key d) (map_option snd (df_left d))) ds st, remdups (map df_key ds))"

text \<open>A state says nothing of the decision list.\<close>

lemma represents_same:
  "represents st v \<Longrightarrow> (\<And>k. \<not> listing k \<Longrightarrow> v k = w k) \<Longrightarrow> represents st w"
  by (simp add: represents_def entries_reads listing_def)

text \<open>An entry written over a view: what applying it to the state stands for.\<close>

definition overwrite :: "vkey \<times> vval option \<Rightarrow> view \<Rightarrow> view" where
  "overwrite e v = v(fst e := snd e)"

lemma fold_apply_represents:
  assumes "represents st v" "\<And>k y. (k, Some y) \<in> set es \<Longrightarrow> typed k y"
  shows "represents (fold (\<lambda>e. State_apply (fst e) (snd e)) es st) (fold overwrite es v)"
  using assms
proof (induction es arbitrary: st v)
  case (Cons e es)
  have "represents (State_apply (fst e) (snd e) st) (overwrite e v)"
    unfolding overwrite_def by (rule State_apply_represents [OF Cons.prems(1)]) (metis Cons.prems(2) list.set_intros(1) prod.collapse)
  moreover have "\<And>k y. (k, Some y) \<in> set es \<Longrightarrow> typed k y" by (rule Cons.prems(2)) simp
  ultimately show ?case by (simp add: Cons.IH)
qed simp

lemma fold_overwrite_other: "k \<notin> fst ` set es \<Longrightarrow> fold overwrite es v k = v k"
  by (induction es arbitrary: v) (auto simp: overwrite_def)

lemma fold_overwrite_at: "distinct (map fst es) \<Longrightarrow> (k, x) \<in> set es \<Longrightarrow> fold overwrite es v k = x"
proof (induction es arbitrary: v)
  case (Cons e es)
  show ?case
  proof (cases "e = (k, x)")
    case True
    with Cons.prems have "k \<notin> fst ` set es" by auto
    with True show ?thesis by (simp add: fold_overwrite_other) (simp add: overwrite_def)
  next
    case False
    with Cons.prems Cons.IH show ?thesis by auto
  qed
qed simp

lemma readChanges_represents:
  assumes "represents st v" "well_typed w" "diff_stream ds v w"
  shows "represents (fst (readChanges st ds)) w"
proof -
  define es where "es = map (\<lambda>d. (df_key d, map_option snd (df_left d))) ds"
  have val: "map_option snd (df_left d) = w (df_key d)" if "d \<in> set ds" for d
    using assms(3) that by (simp add: diff_stream_def option.map_comp o_def option.map_ident)
  have snd_es: "x = w k" if "(k, x) \<in> set es" for k x
    using that val by (auto simp: es_def)
  have keys: "fst ` set es = {k. \<not> listing k \<and> v k \<noteq> w k}"
    using assms(3) by (simp add: es_def diff_stream_def image_image)
  have dist: "distinct (map fst es)" using assms(3) by (simp add: es_def diff_stream_def o_def)
  have "represents (fold (\<lambda>e. State_apply (fst e) (snd e)) es st) (fold overwrite es v)"
  proof (rule fold_apply_represents [OF assms(1)])
    fix k y assume "(k, Some y) \<in> set es"
    with snd_es have "w k = Some y" by metis
    with assms(2) show "typed k y" by (simp add: well_typed_def)
  qed
  moreover have "fold overwrite es v k = w k" if "\<not> listing k" for k
  proof (cases "v k = w k")
    case True
    with keys have "k \<notin> fst ` set es" by simp
    with True show ?thesis by (simp add: fold_overwrite_other)
  next
    case False
    with that keys have "k \<in> fst ` set es" by simp
    with snd_es have "(k, w k) \<in> set es" by (metis imageE prod.collapse)
    with dist show ?thesis by (rule fold_overwrite_at)
  qed
  ultimately have "represents (fold (\<lambda>e. State_apply (fst e) (snd e)) es st) w" by (rule represents_same)
  moreover have "fold (\<lambda>e. State_apply (fst e) (snd e)) es st = fst (readChanges st ds)"
    by (simp add: es_def readChanges_def fold_map o_def)
  ultimately show ?thesis by simp
qed

lemma State_from_represents:
  assumes "well_typed w" "read_stream es w"
  shows "represents (State_from es) w"
proof -
  define ds where "ds = map (\<lambda>e. \<lparr>df_left = Some e, df_right = None\<rparr>) es"
  have key: "df_key \<lparr>df_left = Some e, df_right = None\<rparr> = fst e" for e :: "vkey \<times> vval"
    by (simp add: df_key_def split_def)
  have at: "w (fst e) = Some (snd e)" if "e \<in> set es" for e
    using assms(2) that by (cases e) (simp add: read_stream_def)
  have fsts: "fst ` set es = {k. \<not> listing k \<and> None \<noteq> w k}"
  proof (intro set_eqI)
    fix k
    have "k \<in> fst ` set es \<longleftrightarrow> (\<exists>x. (k, x) \<in> set es)" by force
    with assms(2) show "k \<in> fst ` set es \<longleftrightarrow> k \<in> {k. \<not> listing k \<and> None \<noteq> w k}"
      by (cases "w k") (simp_all add: read_stream_def)
  qed
  have "diff_stream ds Map.empty w"
    unfolding diff_stream_def
  proof (intro conjI)
    show "distinct (map df_key ds)" using assms(2) by (simp add: ds_def key o_def read_stream_def)
    show "df_key ` set ds = {k. \<not> listing k \<and> Map.empty k \<noteq> w k}"
      using fsts by (simp add: ds_def key image_image)
    show "\<forall>d\<in>set ds. df_left d = map_option (Pair (df_key d)) (w (df_key d)) \<and>
        df_right d = map_option (Pair (df_key d)) (Map.empty (df_key d))"
      using at by (simp add: ds_def key)
  qed
  from readChanges_represents [OF new_represents assms(1) this]
  show ?thesis by (simp add: State_from_def readChanges_def ds_def fold_map o_def split_def key)
qed

end
