(* ===== verification/Decision_Log.thy ===== *)
theory Decision_Log
  imports Space_State Example
begin

text \<open>
  A space's decision log as its readers see it (lib/decisions/log.js, class Decisions): the view
  that Autobase keeps moving, and the state read from it. Autobase appends to the view, truncates
  it when it reorders decisions and may replace it; a read (\<open>_read\<close>) takes a snapshot, waits, and
  applies what changed since the last read, or reads all of it again. These interleave: \<open>log_step\<close>
  is one thing that happens, \<open>log_runs\<close> any sequence of them. \<open>dl_hist\<close> is the view at each of
  its versions. Not modelled: the network side of \<open>append\<close> and \<open>catchUp\<close>, and closing.
\<close>

record read_at =
  ra_view :: nat
  ra_fork :: nat
  ra_version :: nat

text \<open>A read under way: its snapshot, the lowest truncation before it, and the fork once it asked.\<close>

record reading =
  rd_view :: nat
  rd_snap :: "view list"
  rd_truncated :: "nat option"
  rd_fork :: "nat option"

record dlog =
  dl_hist :: "view list"
  dl_view :: nat
  dl_fork :: nat
  dl_state :: state
  dl_rebuilds :: nat
  dl_read_at :: "read_at option"
  dl_truncated :: "nat option" \<comment> \<open>\<open>None\<close>: Infinity\<close>
  dl_watched :: "nat option"
  dl_reading :: "reading option"

definition version_at :: "view list \<Rightarrow> nat \<Rightarrow> view" where
  "version_at hist n = (if n = 0 then Map.empty else hist ! (n - 1))"

definition at_least :: "nat option \<Rightarrow> nat \<Rightarrow> bool" where
  "at_least t n = (case t of None \<Rightarrow> True | Some m \<Rightarrow> n \<le> m)"

definition new_log :: "view list \<Rightarrow> nat \<Rightarrow> dlog" where
  "new_log hist fork = \<lparr>dl_hist = hist, dl_view = 0, dl_fork = fork, dl_state = new_state, dl_rebuilds = 0,
     dl_read_at = None, dl_truncated = None, dl_watched = None, dl_reading = None\<rparr>"

section \<open>What Autobase does to the view\<close>

definition view_append :: "view \<Rightarrow> dlog \<Rightarrow> dlog" where
  "view_append v l = l\<lparr>dl_hist := dl_hist l @ [v]\<rparr>"

text \<open>A truncation, with the handler \<open>_read\<close> put on the view it watches.\<close>

definition on_truncate :: "nat \<Rightarrow> nat option \<Rightarrow> nat option" where
  "on_truncate n t = Some (case t of None \<Rightarrow> n | Some m \<Rightarrow> min m n)"

definition view_truncate :: "nat \<Rightarrow> nat \<Rightarrow> dlog \<Rightarrow> dlog" where
  "view_truncate n fork l = l\<lparr>dl_hist := take n (dl_hist l), dl_fork := fork,
     dl_truncated := (if dl_watched l = Some (dl_view l) then on_truncate n (dl_truncated l) else dl_truncated l)\<rparr>"

definition view_replace :: "view list \<Rightarrow> nat \<Rightarrow> dlog \<Rightarrow> dlog" where
  "view_replace hist fork l = l\<lparr>dl_hist := hist, dl_view := Suc (dl_view l), dl_fork := fork\<rparr>"

section \<open>A read\<close>

definition read_begin :: "dlog \<Rightarrow> dlog" where
  "read_begin l = l\<lparr>dl_watched := Some (dl_view l), dl_truncated := None,
     dl_reading := Some \<lparr>rd_view = dl_view l, rd_snap = dl_hist l, rd_truncated = dl_truncated l, rd_fork = None\<rparr>\<rparr>"

definition read_ready :: "dlog \<Rightarrow> dlog" where
  "read_ready l = (case dl_reading l of None \<Rightarrow> l | Some r \<Rightarrow> l\<lparr>dl_reading := Some (r\<lparr>rd_fork := Some (dl_fork l)\<rparr>)\<rparr>)"

definition reads_changes :: "reading \<Rightarrow> nat \<Rightarrow> read_at option \<Rightarrow> bool" where
  "reads_changes r fork prev =
     (case prev of None \<Rightarrow> False
      | Some a \<Rightarrow> ra_view a = rd_view r \<and> ra_fork a = fork \<and> at_least (rd_truncated r) (ra_version a)
          \<and> ra_version a \<le> length (rd_snap r))"

text \<open>The keys the read changed, \<open>None\<close> after a full one. \<open>ds\<close>: what the diff stream gives, \<open>es\<close>:
  what the read stream does.\<close>

definition read_finish :: "diff_entry list \<Rightarrow> (vkey \<times> vval) list \<Rightarrow> dlog \<Rightarrow> dlog \<times> vkey list option" where
  "read_finish ds es l =
     (case dl_reading l of None \<Rightarrow> (l, Some [])
      | Some r \<Rightarrow>
          (case rd_fork r of None \<Rightarrow> (l, Some [])
           | Some fork \<Rightarrow>
               let at = \<lparr>ra_view = rd_view r, ra_fork = fork, ra_version = length (rd_snap r)\<rparr>
               in if reads_changes r fork (dl_read_at l)
                  then let (state, keys) = if length (rd_snap r) > ra_version (the (dl_read_at l))
                         then readChanges (dl_state l) ds else (dl_state l, [])
                       in (l\<lparr>dl_state := state, dl_read_at := Some at, dl_reading := None\<rparr>, Some keys)
                  else (l\<lparr>dl_state := State_from es, dl_rebuilds := Suc (dl_rebuilds l), dl_read_at := Some at,
                          dl_reading := None\<rparr>, None)))"

text \<open>A read that threw: the state may be half applied.\<close>

definition read_fail :: "state \<Rightarrow> dlog \<Rightarrow> dlog" where
  "read_fail half l = l\<lparr>dl_state := half, dl_read_at := None, dl_reading := None\<rparr>"

definition streams :: "diff_entry list \<Rightarrow> (vkey \<times> vval) list \<Rightarrow> dlog \<Rightarrow> bool" where
  "streams ds es l \<longleftrightarrow> (\<forall>r. dl_reading l = Some r \<longrightarrow>
     read_stream es (version_at (rd_snap r) (length (rd_snap r)))
     \<and> (\<forall>a. dl_read_at l = Some a \<longrightarrow>
          diff_stream ds (version_at (rd_snap r) (ra_version a)) (version_at (rd_snap r) (length (rd_snap r)))))"

inductive log_step :: "env \<Rightarrow> dlog \<Rightarrow> dlog \<Rightarrow> bool" for E where
  append: "reachable E st \<Longrightarrow> log_step E l (view_append (vw st) l)"
| truncate: "n \<le> length (dl_hist l) \<Longrightarrow> log_step E l (view_truncate n fork l)"
| replace: "\<forall>v\<in>set hist. \<exists>st. reachable E st \<and> v = vw st \<Longrightarrow> log_step E l (view_replace hist fork l)"
| start: "dl_reading l = None \<Longrightarrow> log_step E l (read_begin l)"
| ready: "log_step E l (read_ready l)"
| finish: "streams ds es l \<Longrightarrow> log_step E l (fst (read_finish ds es l))"
| fail: "log_step E l (read_fail half l)"

inductive log_runs :: "env \<Rightarrow> dlog \<Rightarrow> bool" for E where
  new: "\<forall>v\<in>set hist. \<exists>st. reachable E st \<and> v = vw st \<Longrightarrow> log_runs E (new_log hist fork)"
| step: "log_runs E l \<Longrightarrow> log_step E l l1 \<Longrightarrow> log_runs E l1"

section \<open>The state follows the view\<close>

lemma reachable_typed: "reachable E st \<Longrightarrow> well_typed (vw st)"
  by (rule typed.reachable_inv)

definition typed_hist :: "view list \<Rightarrow> bool" where
  "typed_hist hist \<longleftrightarrow> (\<forall>v\<in>set hist. well_typed v)"

lemma version_typed: "typed_hist hist \<Longrightarrow> n \<le> length hist \<Longrightarrow> well_typed (version_at hist n)"
  by (simp add: version_at_def typed_hist_def) (auto simp: well_typed_def)

text \<open>A state read at \<open>a\<close> stands for that version of a view, if it still is the same view.\<close>

definition held_of :: "state \<Rightarrow> read_at \<Rightarrow> nat option \<Rightarrow> view list \<Rightarrow> bool" where
  "held_of st a t hist \<longleftrightarrow> (at_least t (ra_version a) \<longrightarrow>
     ra_version a \<le> length hist \<and> represents st (version_at hist (ra_version a)))"

text \<open>What a snapshot says of the view that has moved on since.\<close>

definition snap_of :: "view list \<Rightarrow> nat option \<Rightarrow> view list \<Rightarrow> bool" where
  "snap_of snap t hist \<longleftrightarrow> (at_least t (length snap) \<longrightarrow> length snap \<le> length hist \<and> take (length snap) hist = snap)"

definition log_ok :: "dlog \<Rightarrow> bool" where
  "log_ok l \<longleftrightarrow> typed_hist (dl_hist l)
     \<and> (\<forall>a. dl_read_at l = Some a \<longrightarrow> ra_view a \<le> dl_view l)
     \<and> (case dl_reading l of
          None \<Rightarrow> (\<forall>a. dl_read_at l = Some a \<and> ra_view a = dl_view l \<longrightarrow>
             dl_watched l = Some (dl_view l) \<and> held_of (dl_state l) a (dl_truncated l) (dl_hist l))
        | Some r \<Rightarrow> typed_hist (rd_snap r) \<and> rd_view r \<le> dl_view l
            \<and> (rd_view r = dl_view l \<longrightarrow> dl_watched l = Some (dl_view l) \<and> snap_of (rd_snap r) (dl_truncated l) (dl_hist l))
            \<and> (\<forall>a. dl_read_at l = Some a \<and> ra_view a = rd_view r \<longrightarrow> held_of (dl_state l) a (rd_truncated r) (rd_snap r)))"

lemmas log_defs = view_append_def view_truncate_def view_replace_def read_begin_def read_ready_def read_fail_def

lemma at_least_truncate:
  "at_least (on_truncate n t) k \<longleftrightarrow> k \<le> n \<and> at_least t k"
  by (cases t) (auto simp: at_least_def on_truncate_def)

lemma version_take: "k \<le> n \<Longrightarrow> version_at (take n hist) k = version_at hist k"
  by (simp add: version_at_def)

lemma version_append: "k \<le> length hist \<Longrightarrow> version_at (hist @ xs) k = version_at hist k"
  by (auto simp: version_at_def nth_append)

lemma held_append: "held_of st a t hist \<Longrightarrow> held_of st a t (hist @ [v])"
  by (auto simp: held_of_def version_append)

lemma held_truncate: "held_of st a t hist \<Longrightarrow> held_of st a (on_truncate n t) (take n hist)"
  by (auto simp: held_of_def at_least_truncate version_take)

lemma snap_append: "snap_of snap t hist \<Longrightarrow> snap_of snap t (hist @ [v])"
  by (auto simp: snap_of_def)

lemma snap_truncate: "snap_of snap t hist \<Longrightarrow> snap_of snap (on_truncate n t) (take n hist)"
  by (auto simp: snap_of_def at_least_truncate min_def)

lemma typed_take: "typed_hist hist \<Longrightarrow> typed_hist (take n hist)"
  by (auto simp: typed_hist_def dest: in_set_takeD)

lemma reachable_hist: "\<forall>v\<in>set hist. \<exists>st. reachable E st \<and> v = vw st \<Longrightarrow> typed_hist hist"
  by (auto simp: typed_hist_def reachable_typed)

lemma append_ok: "log_ok l \<Longrightarrow> well_typed v \<Longrightarrow> log_ok (view_append v l)"
  by (auto simp: log_ok_def log_defs typed_hist_def split: option.splits intro: held_append snap_append)

lemma truncate_ok: "log_ok l \<Longrightarrow> log_ok (view_truncate n fork l)"
  by (auto simp: log_ok_def log_defs typed_take split: option.splits intro: held_truncate snap_truncate)

lemma replace_ok: "log_ok l \<Longrightarrow> typed_hist hist \<Longrightarrow> log_ok (view_replace hist fork l)"
  by (auto simp: log_ok_def log_defs split: option.splits)

lemma begin_ok: "log_ok l \<Longrightarrow> dl_reading l = None \<Longrightarrow> log_ok (read_begin l)"
  by (auto simp: log_ok_def log_defs snap_of_def)

lemma ready_ok: "log_ok l \<Longrightarrow> log_ok (read_ready l)"
  by (auto simp: log_ok_def log_defs split: option.splits)

lemma fail_ok: "log_ok l \<Longrightarrow> log_ok (read_fail half l)"
  by (auto simp: log_ok_def log_defs split: option.splits)

text \<open>The state a finished read leaves stands for its snapshot.\<close>

lemma finish_reads:
  assumes "log_ok l" "streams ds es l" "dl_reading l = Some r" "rd_fork r = Some fork"
  shows "\<exists>l1 keys. read_finish ds es l = (l1, keys) \<and> represents (dl_state l1) (version_at (rd_snap r) (length (rd_snap r)))
     \<and> dl_read_at l1 = Some \<lparr>ra_view = rd_view r, ra_fork = fork, ra_version = length (rd_snap r)\<rparr>
     \<and> dl_reading l1 = None \<and> dl_hist l1 = dl_hist l \<and> dl_view l1 = dl_view l \<and> dl_watched l1 = dl_watched l
     \<and> dl_truncated l1 = dl_truncated l \<and> dl_fork l1 = dl_fork l
     \<and> (\<forall>ks a. keys = Some ks \<longrightarrow> dl_read_at l = Some a \<longrightarrow> (\<forall>k. \<not> listing k \<longrightarrow> k \<notin> set ks \<longrightarrow>
          version_at (rd_snap r) (ra_version a) k = version_at (rd_snap r) (length (rd_snap r)) k))"
proof -
  define w where "w = version_at (rd_snap r) (length (rd_snap r))"
  have typed: "well_typed w" using assms(1,3) by (simp add: log_ok_def w_def version_typed)
  show ?thesis
  proof (cases "reads_changes r fork (dl_read_at l)")
    case False
    have "represents (State_from es) w"
      using assms(2,3) typed by (intro State_from_represents) (simp_all add: streams_def w_def)
    with False assms(3,4) show ?thesis by (simp add: read_finish_def w_def)
  next
    case True
    then obtain a where a: "dl_read_at l = Some a" "ra_view a = rd_view r"
      "at_least (rd_truncated r) (ra_version a)" "ra_version a \<le> length (rd_snap r)"
      by (auto simp: reads_changes_def split: option.splits)
    with assms(1,3) have held: "represents (dl_state l) (version_at (rd_snap r) (ra_version a))"
      by (auto simp: log_ok_def held_of_def)
    have diff: "diff_stream ds (version_at (rd_snap r) (ra_version a)) w"
      using assms(2,3) a(1) by (simp add: streams_def w_def)
    have keys: "version_at (rd_snap r) (ra_version a) k = w k" if "\<not> listing k" "k \<notin> df_key ` set ds" for k
      using diff that by (auto simp: diff_stream_def)
    show ?thesis
    proof (cases "length (rd_snap r) > ra_version a")
      case True
      with \<open>reads_changes r fork (dl_read_at l)\<close> assms(3,4) a(1) readChanges_represents [OF held typed diff] keys
      show ?thesis by (simp add: read_finish_def split_def w_def) (simp add: readChanges_def)
    next
      case False
      with a(4) have "ra_version a = length (rd_snap r)" by simp
      with \<open>reads_changes r fork (dl_read_at l)\<close> assms(3,4) a(1) held show ?thesis
        by (simp add: read_finish_def)
    qed
  qed
qed

lemma finish_ok:
  assumes "log_ok l" "streams ds es l"
  shows "log_ok (fst (read_finish ds es l))"
proof (cases "\<exists>r fork. dl_reading l = Some r \<and> rd_fork r = Some fork")
  case False
  then show ?thesis using assms(1) by (auto simp: read_finish_def split: option.splits)
next
  case True
  then obtain r fork where r: "dl_reading l = Some r" "rd_fork r = Some fork" by blast
  obtain l1 keys where l1: "read_finish ds es l = (l1, keys)"
    "represents (dl_state l1) (version_at (rd_snap r) (length (rd_snap r)))"
    "dl_read_at l1 = Some \<lparr>ra_view = rd_view r, ra_fork = fork, ra_version = length (rd_snap r)\<rparr>"
    "dl_reading l1 = None" "dl_hist l1 = dl_hist l" "dl_view l1 = dl_view l" "dl_watched l1 = dl_watched l"
    "dl_truncated l1 = dl_truncated l"
    using finish_reads [OF assms r] by blast
  have "held_of (dl_state l1) \<lparr>ra_view = rd_view r, ra_fork = fork, ra_version = length (rd_snap r)\<rparr>
      (dl_truncated l) (dl_hist l)" if "snap_of (rd_snap r) (dl_truncated l) (dl_hist l)"
    using that l1(2) by (metis held_of_def order_refl read_at.select_convs(3) snap_of_def version_take)
  with assms(1) r l1 show ?thesis by (auto simp: log_ok_def)
qed

lemma log_runs_ok: "log_runs E l \<Longrightarrow> log_ok l"
proof (induction rule: log_runs.induct)
  case (new hist fork)
  then show ?case by (simp add: log_ok_def new_log_def reachable_hist)
next
  case (step l l1)
  from step.hyps(2) step.IH show ?case
  proof cases
    case (append st) with step.IH show ?thesis by (simp add: append_ok reachable_typed)
  next
    case (truncate n fork) with step.IH show ?thesis by (simp add: truncate_ok)
  next
    case (replace hist fork) with step.IH show ?thesis by (simp add: replace_ok reachable_hist)
  next
    case start with step.IH show ?thesis by (simp add: begin_ok)
  next
    case ready with step.IH show ?thesis by (simp add: ready_ok)
  next
    case (finish ds es) with step.IH show ?thesis by (simp add: finish_ok)
  next
    case (fail half) with step.IH show ?thesis by (simp add: fail_ok)
  qed
qed

section \<open>The properties\<close>

text \<open>C15: Whatever happened to the view before, reads that threw and reads overtaken by truncations
  included, a read that nothing overtakes leaves the state the view stands for, and the keys it
  reports (if it was not a full one) are all that may have changed since the last read.\<close>

theorem read_catches_up:
  assumes "log_runs E l" "dl_reading l = None" "streams ds es (read_ready (read_begin l))"
  shows "\<exists>l1 keys. read_finish ds es (read_ready (read_begin l)) = (l1, keys) \<and>
     represents (dl_state l1) (version_at (dl_hist l) (length (dl_hist l))) \<and>
     (\<forall>ks a. keys = Some ks \<longrightarrow> dl_read_at l = Some a \<longrightarrow> (\<forall>k. \<not> listing k \<longrightarrow> k \<notin> set ks \<longrightarrow>
        version_at (dl_hist l) (ra_version a) k = version_at (dl_hist l) (length (dl_hist l)) k))"
proof -
  define r where "r = \<lparr>rd_view = dl_view l, rd_snap = dl_hist l, rd_truncated = dl_truncated l, rd_fork = Some (dl_fork l)\<rparr>"
  have "log_ok (read_ready (read_begin l))" by (rule ready_ok [OF begin_ok [OF log_runs_ok [OF assms(1)] assms(2)]])
  moreover have r: "dl_reading (read_ready (read_begin l)) = Some r" "rd_fork r = Some (dl_fork l)"
      "dl_read_at (read_ready (read_begin l)) = dl_read_at l" "rd_snap r = dl_hist l"
    by (simp_all add: log_defs r_def)
  ultimately show ?thesis using finish_reads [OF _ assms(3) r(1,2)] unfolding r(3,4) by blast
qed

text \<open>C16: Between reads the state is never of a view that is gone: as long as Autobase did not truncate
  the view below what was read, nor replace it, the state stands for the version it was read at,
  which the view still has.\<close>

theorem state_is_of_the_view:
  assumes "log_runs E l" "dl_reading l = None" "dl_read_at l = Some a" "ra_view a = dl_view l"
    "at_least (dl_truncated l) (ra_version a)"
  shows "ra_version a \<le> length (dl_hist l) \<and> represents (dl_state l) (version_at (dl_hist l) (ra_version a))"
  using log_runs_ok [OF assms(1)] assms(2-) by (auto simp: log_ok_def held_of_def)

section \<open>The decision list\<close>

text \<open>\<open>list\<close>: \<open>es\<close> is what the view's entries below \<open>before\<close> (\<open>None\<close>: Infinity) stream newest first.
  The limit is tested after an entry is kept, so at least one always is.\<close>

definition list_stream :: "nat option \<Rightarrow> (nat \<times> log_entry) list \<Rightarrow> view \<Rightarrow> bool" where
  "list_stream before es v \<longleftrightarrow> sorted_wrt (>) (map fst es)
     \<and> set es = {(n, e). get_log v n = Some e \<and> (\<forall>b. before = Some b \<longrightarrow> n < b)}"

fun list_from :: "nat \<Rightarrow> scope \<Rightarrow> (nat \<times> log_entry) list \<Rightarrow> (nat \<times> log_entry) list \<Rightarrow> (nat \<times> log_entry) list" where
  "list_from limit s out [] = out"
| "list_from limit s out (e # es) =
     (if le_space (snd e) \<noteq> s then list_from limit s out es
      else let out1 = out @ [e] in if length out1 \<ge> limit then out1 else list_from limit s out1 es)"

lemma list_from_take:
  "length out < max 1 limit \<Longrightarrow>
   list_from limit s out es = out @ take (max 1 limit - length out) (filter (\<lambda>e. le_space (snd e) = s) es)"
proof (induction es arbitrary: out)
  case (Cons e es)
  show ?case
  proof (cases "le_space (snd e) = s \<and> length out + 1 < limit")
    case True
    with Cons.IH [of "out @ [e]"] have "list_from limit s (out @ [e]) es =
        out @ e # take (limit - Suc (length out)) (filter (\<lambda>e. le_space (snd e) = s) es)" by simp
    moreover from True have "Suc (length out) < limit" by simp
    then have "limit - length out = Suc (limit - Suc (length out))" by arith
    ultimately show ?thesis using True by (simp add: Let_def)
  next
    case False
    moreover have "max 1 limit - length out = 1" if "le_space (snd e) = s"
      using False that Cons.prems by auto
    ultimately show ?thesis using Cons by (auto simp: Let_def)
  qed
qed simp

text \<open>C17: The decision list gives, newest first, the newest decisions about the scope asked for below
  \<open>before\<close>: all of them, or as many as the limit and at least one, and only decisions the view lists.\<close>

theorem list_newest:
  assumes "list_stream before es v" "out = list_from limit s [] es"
  shows "sorted_wrt (>) (map fst out)
     \<and> (\<forall>(n, e)\<in>set out. get_log v n = Some e \<and> le_space e = s \<and> (\<forall>b. before = Some b \<longrightarrow> n < b))
     \<and> length out = min (max 1 limit) (length (filter (\<lambda>e. le_space (snd e) = s) es))
     \<and> (\<forall>n e. get_log v n = Some e \<longrightarrow> le_space e = s \<longrightarrow> (\<forall>b. before = Some b \<longrightarrow> n < b) \<longrightarrow>
          (n, e) \<in> set out \<or> (length out = max 1 limit \<and> (\<forall>m\<in>fst ` set out. n < m)))"
proof -
  define fs where "fs = filter (\<lambda>e. le_space (snd e) = s) es"
  have out: "out = take (max 1 limit) fs"
    using list_from_take [of "[]" limit s es] assms(2) by (simp add: fs_def)
  have sorted: "sorted_wrt (\<lambda>a b. fst a > fst b) fs"
    using assms(1) by (simp add: list_stream_def fs_def sorted_wrt_map sorted_wrt_filter)
  have mem: "(n, e) \<in> set fs \<longleftrightarrow> get_log v n = Some e \<and> (\<forall>b. before = Some b \<longrightarrow> n < b) \<and> le_space e = s" for n e
    using assms(1) by (auto simp: list_stream_def fs_def)
  have "sorted_wrt (>) (map fst out)"
    using sorted unfolding out by (simp add: sorted_wrt_map sorted_wrt_take)
  moreover have "\<forall>(n, e)\<in>set out. get_log v n = Some e \<and> le_space e = s \<and> (\<forall>b. before = Some b \<longrightarrow> n < b)"
    using mem in_set_takeD unfolding out by fast
  moreover have "length out = min (max 1 limit) (length fs)" by (simp add: out)
  moreover have "(n, e) \<in> set out \<or> (length out = max 1 limit \<and> (\<forall>m\<in>fst ` set out. n < m))"
    if "get_log v n = Some e" "le_space e = s" "\<forall>b. before = Some b \<longrightarrow> n < b" for n e
  proof (cases "(n, e) \<in> set out")
    case False
    from that mem have "(n, e) \<in> set fs" by simp
    then have "(n, e) \<in> set (take (max 1 limit) fs @ drop (max 1 limit) fs)" by simp
    with False out have later: "(n, e) \<in> set (drop (max 1 limit) fs)" unfolding set_append by blast
    then have "length fs > max 1 limit" by (metis drop_all empty_iff linorder_not_le list.set(1))
    moreover have "sorted_wrt (\<lambda>a b. fst a > fst b) (take (max 1 limit) fs @ drop (max 1 limit) fs)"
      using sorted by simp
    then have "\<forall>x\<in>set out. \<forall>y\<in>set (drop (max 1 limit) fs). fst x > fst y"
      unfolding sorted_wrt_append out by blast
    with later have "\<forall>m\<in>fst ` set out. n < m" by force
    ultimately show ?thesis by (simp add: out)
  qed simp
  ultimately show ?thesis unfolding fs_def by blast
qed

section \<open>Witnesses\<close>

text \<open>The log of the example as it grows: read after its first decision, then the second arrives.\<close>

lemma ex_streams:
  "read_stream ex_entries (vw ex_begun)" "read_stream (ex_member # ex_entries) (vw ex_added)"
  "diff_stream [\<lparr>df_left = Some ex_member, df_right = None\<rparr>] (vw ex_begun) (vw ex_added)"
  by (auto simp: read_stream_def diff_stream_def ex_begun_at ex_added_at ex_entries_def ex_member_def
      df_key_def listing_def split: if_splits)

definition ex_growing :: dlog where
  "ex_growing = view_append (vw ex_added)
     (fst (read_finish [] ex_entries (read_ready (read_begin (new_log [vw ex_begun] 0)))))"

definition ex_changes :: "diff_entry list" where
  "ex_changes = [\<lparr>df_left = Some ex_member, df_right = None\<rparr>]"

lemma ex_growing_parts:
  "dl_hist ex_growing = [vw ex_begun, vw ex_added]" "dl_reading ex_growing = None" "dl_truncated ex_growing = None"
  "dl_view ex_growing = 0" "dl_read_at ex_growing = Some \<lparr>ra_view = 0, ra_fork = 0, ra_version = 1\<rparr>"
  by (simp_all add: ex_growing_def log_defs read_finish_def new_log_def reads_changes_def Let_def)

lemma ex_growing_runs: "log_runs ex_env ex_growing"
proof -
  define l where "l = read_ready (read_begin (new_log [vw ex_begun] 0))"
  have "streams [] ex_entries l"
    using ex_streams(1) by (simp add: streams_def l_def log_defs new_log_def version_at_def)
  moreover have "log_runs ex_env (new_log [vw ex_begun] 0)"
    by (rule log_runs.new) (auto intro: ex_begin_reachable)
  then have "log_runs ex_env l" unfolding l_def
    by (intro log_runs.step [OF log_runs.step [OF _ log_step.start] log_step.ready]) (simp_all add: new_log_def)
  ultimately have "log_runs ex_env (fst (read_finish [] ex_entries l))"
    by (intro log_runs.step [OF _ log_step.finish])
  then show ?thesis unfolding ex_growing_def l_def
    by (rule log_runs.step [OF _ log_step.append [OF ex_begin_reachable(2)]])
qed

theorem read_catches_up_witness:
  "\<exists>l1 keys. read_finish ex_changes (ex_member # ex_entries) (read_ready (read_begin ex_growing)) = (l1, keys) \<and>
     represents (dl_state l1) (vw ex_added)"
proof -
  have "streams ex_changes (ex_member # ex_entries) (read_ready (read_begin ex_growing))"
    using ex_streams by (simp add: streams_def log_defs ex_growing_parts version_at_def ex_changes_def)
  from read_catches_up [OF ex_growing_runs ex_growing_parts(2) this]
  have "\<exists>l1 keys. read_finish ex_changes (ex_member # ex_entries) (read_ready (read_begin ex_growing)) = (l1, keys) \<and>
     represents (dl_state l1) (version_at (dl_hist ex_growing) (length (dl_hist ex_growing)))" by blast
  then show ?thesis by (simp add: ex_growing_parts version_at_def)
qed

theorem state_is_of_the_view_witness: "represents (dl_state ex_growing) (vw ex_begun)"
  using state_is_of_the_view [OF ex_growing_runs ex_growing_parts(2,5)]
  by (simp add: ex_growing_parts at_least_def version_at_def)

theorem list_newest_witness:
  "list_from 1 None [] [(1, ex_listed 1 ''member/add'' (DIdentity ''02'')), (0, ex_listed 0 ''space/init'' (DInit ''space'' ''auto''))]
     = [(1, ex_listed 1 ''member/add'' (DIdentity ''02''))] \<and>
   get_log (vw ex_added) 1 = Some (ex_listed 1 ''member/add'' (DIdentity ''02''))"
proof -
  define es where "es = [(1 :: nat, ex_listed 1 ''member/add'' (DIdentity ''02'')), (0, ex_listed 0 ''space/init'' (DInit ''space'' ''auto''))]"
  have out: "list_from 1 None [] es = [(1, ex_listed 1 ''member/add'' (DIdentity ''02''))]"
    by (simp add: es_def ex_listed_def)
  have "list_stream None es (vw ex_added)"
    by (auto simp: list_stream_def es_def get_log_def ex_added_at ex_entries_def ex_member_def split: if_splits)
  from list_newest [OF this refl, of 1 None] out show ?thesis by (simp add: es_def)
qed

end
