(* ===== verification/Effective_State.thy ===== *)
theory Effective_State
  imports Space_State Scope_Chains Authority "HOL-Library.Extended_Nat"
begin

text \<open>
  What a space's state answers (lib/decisions/state.js, the methods of class State, class SubState
  and \<open>touched\<close>). A \<open>space_state\<close> is a State or a SubState: a sub-space's state over its parent's,
  as the constructor of SubState links them. Every answer is worked out from the entries of the
  chain. The theorems compare the answers with those of lib/decisions/apply.js on the view, which
  decided them when it applied the log: membership and roles, who may write decisions, and
  whether an invite is refused; and how far a log's limit can move.
\<close>

datatype space_state = Top state | Sub state string subspace space_state

text \<open>\<open>None\<close>: \<open>null\<close>, for what is not a sub-space. In the code a parent that is none would make the
  constructor throw, and parents in a circle would not end; \<open>sub_along\<close> shows that neither happens.\<close>

partial_function (option) sub :: "state \<Rightarrow> string \<Rightarrow> space_state option" where
  "sub st h = Option.bind (s_subspaces (top_entries st) h)
     (\<lambda>info. case ss_parent info of
        None \<Rightarrow> Some (Sub st h info (Top st))
      | Some p \<Rightarrow> Option.bind (sub st p) (\<lambda>up. Some (Sub st h info up)))"

declare sub.simps [code]

definition effective :: "state \<Rightarrow> scope \<Rightarrow> space_state option" where
  "effective st s = (case s of None \<Rightarrow> Some (Top st) | Some h \<Rightarrow> sub st h)"

primrec root :: "space_state \<Rightarrow> state" where
  "root (Top st) = st"
| "root (Sub st h info up) = st"

primrec own :: "space_state \<Rightarrow> entries" where
  "own (Top st) = top_entries st"
| "own (Sub st h info up) = own_of st h"

section \<open>One identity's entries\<close>

definition lowest :: "loglens \<Rightarrow> loglens \<Rightarrow> loglens" where
  "lowest a b = (\<lambda>l. case b l of None \<Rightarrow> a l
     | Some n \<Rightarrow> (case a l of None \<Rightarrow> Some n | Some m \<Rightarrow> Some (min m n)))"

definition or_empty :: "('a \<rightharpoonup> 'b) option \<Rightarrow> 'a \<rightharpoonup> 'b" where
  "or_empty m = (case m of None \<Rightarrow> Map.empty | Some x \<Rightarrow> x)"

primrec q_banned :: "space_state \<Rightarrow> string \<Rightarrow> bool" where
  "q_banned (Top st) i \<longleftrightarrow> s_banned (top_entries st) i \<noteq> None"
| "q_banned (Sub st h info up) i \<longleftrightarrow> s_banned (own_of st h) i \<noteq> None \<or> q_banned up i"

primrec q_member :: "space_state \<Rightarrow> string \<Rightarrow> short_member option" where
  "q_member (Top st) i = s_members (top_entries st) i"
| "q_member (Sub st h info up) i =
     (if s_banned (own_of st h) i \<noteq> None \<or> q_banned up i then None
      else case s_members (own_of st h) i of Some m \<Rightarrow> Some m
      | None \<Rightarrow>
          (case q_member up i of None \<Rightarrow> None
           | Some m \<Rightarrow> if \<not> ss_private info \<or> sm_role m = ''owner'' \<or> sm_role m = ''admin'' then Some m else None))"

primrec q_cut :: "space_state \<Rightarrow> string \<Rightarrow> loglens option" where
  "q_cut (Top st) i = s_cuts (top_entries st) i"
| "q_cut (Sub st h info up) i =
     (case s_cuts (own_of st h) i of None \<Rightarrow> q_cut up i
      | Some mine \<Rightarrow> Some (lowest (or_empty (q_cut up i)) mine))"

primrec q_admit :: "space_state \<Rightarrow> string \<Rightarrow> string option" where
  "q_admit (Top st) i = s_admits (top_entries st) i"
| "q_admit (Sub st h info up) i =
     (case s_admits (own_of st h) i of Some c \<Rightarrow> Some c | None \<Rightarrow> q_admit up i)"

primrec q_editcut :: "space_state \<Rightarrow> string \<Rightarrow> editcuts option" where
  "q_editcut (Top st) i = s_editcuts (top_entries st) i"
| "q_editcut (Sub st h info up) i =
     (case s_editcuts (own_of st h) i of None \<Rightarrow> q_editcut up i
      | Some mine \<Rightarrow> Some (\<lambda>p. case mine p of
            None \<Rightarrow> or_empty (q_editcut up i) p
          | Some logs \<Rightarrow> Some (lowest (or_empty (or_empty (q_editcut up i) p)) logs)))"

section \<open>Settings\<close>

definition word :: "string option \<Rightarrow> string \<Rightarrow> string" where
  "word x d = (if truthy x then the x else d)"

definition policy_of :: "meta option \<Rightarrow> string" where
  "policy_of m = word (Option.bind m mt_policy) ''auto''"

primrec q_meta :: "space_state \<Rightarrow> meta option" where
  "q_meta (Top st) = s_meta (top_entries st)"
| "q_meta (Sub st h info up) =
     map_option (\<lambda>m.
       let mine = (case s_meta (own_of st h) of None \<Rightarrow> no_meta | Some x \<Rightarrow> x)
       in m\<lparr>mt_name := Some (ss_name info), mt_private := ss_private info, mt_parent := ss_parent info,
            mt_policy := Some (word (mt_policy mine) (policy_of (q_meta up))),
            mt_rules := or_else (mt_rules mine) (Option.bind (q_meta up) mt_rules),
            mt_writeLimit := mt_writeLimit mine,
            mt_history := Some (word (mt_history mine) ''visible''),
            mt_public := mt_public mine\<rparr>) (q_meta up)"

definition q_policy :: "space_state \<Rightarrow> string" where
  "q_policy x = policy_of (q_meta x)"

definition q_rules :: "space_state \<Rightarrow> string list option" where
  "q_rules x = Option.bind (q_meta x) mt_rules"

definition q_writeLimit :: "space_state \<Rightarrow> (nat \<times> nat) option" where
  "q_writeLimit x = Option.bind (q_meta x) mt_writeLimit"

definition q_history :: "space_state \<Rightarrow> string" where
  "q_history x = word (Option.bind (q_meta x) mt_history) ''visible''"

definition q_helpers :: "space_state \<Rightarrow> string list" where
  "q_helpers x = (case Option.bind (q_meta x) mt_helpers of None \<Rightarrow> [] | Some hs \<Rightarrow> hs)"

definition q_public :: "space_state \<Rightarrow> bool" where
  "q_public x = (case q_meta x of None \<Rightarrow> False | Some m \<Rightarrow> mt_public m)"

definition q_private :: "space_state \<Rightarrow> bool" where
  "q_private x = (case x of Top st \<Rightarrow> (case q_meta x of None \<Rightarrow> False | Some m \<Rightarrow> mt_private m)
     | Sub st h info up \<Rightarrow> ss_private info)"

definition q_roles :: "space_state \<Rightarrow> roles" where
  "q_roles x = s_roles (top_entries (root x))"

section \<open>What may be asked\<close>

definition roleOf :: "space_state \<Rightarrow> string \<Rightarrow> string option" where
  "roleOf x i = (case q_member x i of Some m \<Rightarrow> Some (sm_role m)
     | None \<Rightarrow> if q_public x \<and> \<not> q_banned x i then Some ''member'' else None)"

definition q_can :: "space_state \<Rightarrow> string \<Rightarrow> string \<Rightarrow> bool" where
  "q_can x i p = can (roleOf x i) p (q_roles x)"

definition isMember :: "space_state \<Rightarrow> string \<Rightarrow> bool" where
  "isMember x i = truthy (roleOf x i)"

definition isRecorded :: "space_state \<Rightarrow> string \<Rightarrow> bool" where
  "isRecorded x i = (q_member x i \<noteq> None)"

definition isRevoked :: "space_state \<Rightarrow> string \<Rightarrow> bool" where
  "isRevoked x n = (s_revoked (own x) n \<noteq> None)"

definition isGone :: "space_state \<Rightarrow> string \<Rightarrow> string \<Rightarrow> bool" where
  "isGone x i d = s_gone (top_entries (root x)) i d"

definition writer :: "space_state \<Rightarrow> string \<Rightarrow> writer_info option" where
  "writer x k = s_writerInfo (top_entries (root x)) k"

definition identityOfWriter :: "space_state \<Rightarrow> string \<Rightarrow> string option" where
  "identityOfWriter x k = s_writers (top_entries (root x)) k"

text \<open>\<open>NOT_ALLOWED\<close> and the others are the codes the refusal gives; \<open>toHex\<close> of a missing id throws.\<close>

definition inviteRefusal :: "space_state \<Rightarrow> invite \<Rightarrow> string \<Rightarrow> nat \<Rightarrow> nat \<Rightarrow> js_error + string option" where
  "inviteRefusal x iv i now used =
     (case iv_id iv of None \<Rightarrow> Inl TypeError
      | Some n \<Rightarrow>
          Inr (if iv_expires iv \<noteq> 0 \<and> now > iv_expires iv then Some ''INVITE_EXPIRED''
               else if s_revoked (own x) (hex n) \<noteq> None then Some ''INVITE_REVOKED''
               else if iv_uses iv \<noteq> 0 \<and> used \<ge> iv_uses iv then Some ''INVITE_USED_UP''
               else if q_banned x i \<or> \<not> mayInvite (roleOf x (hex (iv_maker iv))) (iv_role iv) (q_roles x)
               then Some ''NOT_ALLOWED'' else None))"

definition writesDecisions :: "space_state \<Rightarrow> string \<Rightarrow> bool" where
  "writesDecisions x i \<longleftrightarrow>
     (q_can (Top (root x)) i ''decide'' \<or> q_can (Top (root x)) i ''moderate'') \<or>
     (\<exists>h y. s_subspaces (top_entries (root x)) h \<noteq> None \<and> sub (root x) h = Some y \<and>
        (q_can y i ''decide'' \<or> q_can y i ''moderate''))"

primrec canWrite :: "space_state \<Rightarrow> string \<Rightarrow> bool" where
  "canWrite (Top st) i = q_can (Top st) i ''post''"
| "canWrite (Sub st h info up) i =
     (if \<not> q_can (Sub st h info up) i ''post'' then False
      else let role = roleOf (Sub st h info up) i
           in ss_writeRoles info = [] \<or> role = Some ''owner'' \<or> role = Some ''admin'' \<or>
              (case role of None \<Rightarrow> False | Some r \<Rightarrow> r \<in> set (ss_writeRoles info)))"

definition limitOf :: "space_state \<Rightarrow> string \<Rightarrow> string \<Rightarrow> enat" where
  "limitOf x i l =
     (case or_empty (q_cut x i) l of Some n \<Rightarrow> enat n
      | None \<Rightarrow> if canWrite x i then \<infinity> else 0)"

definition editLimit :: "space_state \<Rightarrow> string \<Rightarrow> string \<Rightarrow> string \<Rightarrow> enat" where
  "editLimit x i p l =
     (case or_empty (or_empty (q_editcut x i) p) l of Some n \<Rightarrow> enat n
      | None \<Rightarrow> if q_can x i p then \<infinity> else 0)"

definition isEditCut :: "space_state \<Rightarrow> string \<Rightarrow> string \<Rightarrow> bool" where
  "isEditCut x i l \<longleftrightarrow> (\<exists>p. or_empty (or_empty (q_editcut x i) p) l \<noteq> None \<and> q_can x i p)"

definition isCut :: "space_state \<Rightarrow> string \<Rightarrow> string \<Rightarrow> bool" where
  "isCut x i l \<longleftrightarrow> or_empty (q_cut x i) l \<noteq> None"

definition mustAdmit :: "space_state \<Rightarrow> string \<Rightarrow> string \<Rightarrow> bool" where
  "mustAdmit x i l =
     (if q_member x i = None \<and> q_public x then False else q_cut x i \<noteq> None \<and> \<not> isCut x i l)"

definition admission :: "space_state \<Rightarrow> string \<Rightarrow> string option" where
  "admission x i = (if truthy (q_admit x i) then q_admit x i else None)"

definition q_moderation :: "space_state \<Rightarrow> string \<Rightarrow> moderation" where
  "q_moderation x r = (case s_moderated (own x) r of None \<Rightarrow> not_moderated | Some m \<Rightarrow> m)"

definition isRemoved :: "space_state \<Rightarrow> string \<Rightarrow> bool" where
  "isRemoved x r = (case s_moderated (own x) r of None \<Rightarrow> False | Some m \<Rightarrow> md_removed m)"

section \<open>What changed keys touch\<close>

record touches =
  t_all :: bool
  t_ids :: "string set"
  t_mods :: "string set"
  t_listed :: "string set"
  t_types :: bool

definition touch1 :: "vkey \<Rightarrow> touches \<Rightarrow> touches" where
  "touch1 k t = (case k of
       KMember s i \<Rightarrow> t\<lparr>t_ids := insert i (t_ids t)\<rparr>
     | KBanned s i \<Rightarrow> t\<lparr>t_ids := insert i (t_ids t)\<rparr>
     | KCut s i \<Rightarrow> t\<lparr>t_ids := insert i (t_ids t)\<rparr>
     | KAdmit s i \<Rightarrow> t\<lparr>t_ids := insert i (t_ids t)\<rparr>
     | KEditcut s i \<Rightarrow> t\<lparr>t_ids := insert i (t_ids t)\<rparr>
     | KMod s r \<Rightarrow> t\<lparr>t_mods := insert r (t_mods t)\<rparr>
     | KListed l \<Rightarrow> t\<lparr>t_listed := insert l (t_listed t)\<rparr>
     | KRedeemed s n i \<Rightarrow> t | KUses s n \<Rightarrow> t | KRevoked s n \<Rightarrow> t
     | KWriter w \<Rightarrow> t | KWriters i \<Rightarrow> t | KGone i d \<Rightarrow> t | KEpochs s \<Rightarrow> t
     | KTypes \<Rightarrow> t\<lparr>t_types := True, t_all := True\<rparr>
     | _ \<Rightarrow> t\<lparr>t_all := True\<rparr>)"

definition touched :: "vkey list option \<Rightarrow> touches" where
  "touched keys = fold touch1 (case keys of None \<Rightarrow> [] | Some ks \<Rightarrow> ks)
     \<lparr>t_all = (keys = None), t_ids = {}, t_mods = {}, t_listed = {}, t_types = (keys = None)\<rparr>"

section \<open>The state along a chain\<close>

primrec along :: "state \<Rightarrow> view \<Rightarrow> string list \<Rightarrow> space_state \<Rightarrow> bool" where
  "along st v [] x \<longleftrightarrow> x = Top st"
| "along st v (h # rest) x \<longleftrightarrow>
     (\<exists>info up. x = Sub st h info up \<and> get_subspace v h = Some info \<and> along st v rest up)"

lemma representsD:
  assumes "represents st v"
  shows "top_entries st = entries_of v None" "own_of st h = entries_of v (Some h)"
  using assms by (simp_all add: represents_def)

lemma chainOf_some:
  assumes "subs_ok v" "chainOf v (Some h) = Some chain"
  obtains info p where "get_subspace v h = Some info" "chain = h # p" "chainOf v (ss_parent info) = Some p"
proof -
  from assms(2) obtain info where info: "get_subspace v h = Some info"
    by (cases "get_subspace v h") (auto simp: chainOf_def)
  from chainOf_path [OF assms(1) info] obtain p where "chain = h # p" "chainOf v (ss_parent info) = Some p"
    using assms(2) by (metis option.inject)
  with info show thesis by (rule that)
qed

lemma chainOf_top: "chainOf v None = Some []"
  by (simp add: chainOf_def)

lemma chainOf_head:
  assumes "subs_ok v" "chainOf v s = Some chain"
  shows "(case chain of [] \<Rightarrow> None | h # _ \<Rightarrow> Some h) = s"
proof (cases s)
  case None
  with assms(2) show ?thesis by (simp add: chainOf_top)
next
  case (Some h)
  with assms(2) have "chainOf v (Some h) = Some chain" by simp
  from chainOf_some [OF assms(1) this] Some show ?thesis by (metis list.simps(5))
qed

lemma sub_along:
  assumes "represents st v" "subs_ok v" "chainOf v (Some h) = Some chain"
  shows "\<exists>x. sub st h = Some x \<and> along st v chain x"
  using assms(3)
proof (induction "length chain" arbitrary: chain h rule: less_induct)
  case less
  obtain info p where info: "get_subspace v h = Some info" and p: "chain = h # p" "chainOf v (ss_parent info) = Some p"
    by (rule chainOf_some [OF assms(2) less.prems])
  have subs: "s_subspaces (top_entries st) h = Some info"
    using info by (simp add: representsD(1) [OF assms(1)] entries_of_def)
  show ?case
  proof (cases "ss_parent info")
    case None
    then have "p = []" using p(2) by (simp add: chainOf_def)
    with None show ?thesis by (subst sub.simps) (simp add: subs p(1) info)
  next
    case (Some q)
    with p less.hyps [of p q] obtain up where "sub st q = Some up" "along st v p up" by auto
    with Some show ?thesis by (subst sub.simps) (simp add: subs p(1) info)
  qed
qed

lemma sub_null:
  assumes "represents st v" "get_subspace v h = None"
  shows "sub st h = None"
  using assms by (subst sub.simps) (simp add: representsD(1) [OF assms(1)] entries_of_def)

lemma effective_along:
  assumes "represents st v" "subs_ok v" "chainOf v s = Some chain"
  obtains x where "effective st s = Some x" "along st v chain x"
proof (cases s)
  case None
  with assms(3) that show thesis by (simp add: effective_def chainOf_def)
next
  case (Some h)
  with assms sub_along [OF assms(1,2)] that show thesis by (auto simp: effective_def)
qed

lemma along_root: "along st v chain x \<Longrightarrow> root x = st"
  by (cases chain) auto

lemma along_own:
  "represents st v \<Longrightarrow> along st v chain x \<Longrightarrow> own x = entries_of v (case chain of [] \<Rightarrow> None | h # _ \<Rightarrow> Some h)"
  by (cases chain) (auto simp: representsD)

lemma q_banned_along:
  "represents st v \<Longrightarrow> along st v chain x \<Longrightarrow> q_banned x i = bannedIn v chain i"
  by (induction chain arbitrary: x) (auto simp: representsD bannedIn_def entries_of_def list_ex_iff)

lemma q_member_along:
  assumes "represents st v" "bans_ok v"
  shows "along st v chain x \<Longrightarrow> q_member x i = map_option short (memberIn v chain i)"
proof (induction chain arbitrary: x)
  case Nil
  then show ?case using assms(2)
    by (auto simp: representsD(1) [OF assms(1)] entries_of_def memberIn_def bannedIn_def bans_ok_def)
next
  case (Cons h rest)
  then obtain info up where x: "x = Sub st h info up" and info: "get_subspace v h = Some info"
    and up: "along st v rest up" by auto
  show ?case
  proof (cases "bannedIn v (h # rest) i")
    case True
    with q_banned_along [OF assms(1) Cons.prems] x show ?thesis by (auto simp: memberIn_def)
  next
    case False
    then have rest: "\<not> bannedIn v rest i" by (simp add: bannedIn_def)
    have here: "\<not> (s_banned (own_of st h) i \<noteq> None \<or> q_banned up i)"
      using False q_banned_along [OF assms(1) Cons.prems, of i] by (simp add: x)
    have "q_member up i = map_option short (own_in v rest i)"
      using Cons.IH [OF up] rest by (simp add: memberIn_def)
    with here info False show ?thesis
      by (auto simp: x memberIn_def representsD(2) [OF assms(1)] entries_of_def short_def split: option.splits)
  qed
qed

lemma q_roles_along: "represents st v \<Longrightarrow> along st v chain x \<Longrightarrow> q_roles x = roles_of v"
  by (auto simp: q_roles_def along_root representsD entries_of_def roles_of_def fun_eq_iff)

text \<open>The role as the state gives it: the one recorded, or a member's in a public space.\<close>

definition role_there :: "bool \<Rightarrow> view \<Rightarrow> string list \<Rightarrow> string \<Rightarrow> string option" where
  "role_there public v chain i = (case roleIn v chain i of Some r \<Rightarrow> Some r
     | None \<Rightarrow> if public \<and> \<not> bannedIn v chain i then Some ''member'' else None)"

lemma roleOf_along:
  assumes "represents st v" "bans_ok v" "along st v chain x"
  shows "roleOf x i = role_there (q_public x) v chain i"
  using q_member_along [OF assms, of i] q_banned_along [OF assms(1,3), of i]
  by (auto simp: roleOf_def role_there_def roleIn_def short_def split: option.splits)

text \<open>C18: A space's state answers membership as applying did: in every space of the tree, kept from
  any log, someone's entry, whether they are banned, and their role are what \<open>memberIn\<close>, \<open>bannedIn\<close>
  and \<open>roleIn\<close> give on the view, but that in a public space who is not named nor banned is a member.\<close>

theorem state_agrees_on_members:
  assumes "reachable E vs" "represents st (vw vs)" "chainOf (vw vs) s = Some chain"
  shows "\<exists>x. effective st s = Some x \<and> q_member x i = map_option short (memberIn (vw vs) chain i) \<and>
     q_banned x i = bannedIn (vw vs) chain i \<and> roleOf x i = role_there (q_public x) (vw vs) chain i"
proof -
  obtain x where x: "effective st s = Some x" "along st (vw vs) chain x"
    by (rule effective_along [OF assms(2) subs.reachable_inv [OF assms(1)] assms(3)])
  with q_member_along [OF assms(2) bans.reachable_inv [OF assms(1)]] q_banned_along [OF assms(2)]
    roleOf_along [OF assms(2) bans.reachable_inv [OF assms(1)]]
  show ?thesis by blast
qed

section \<open>Who may decide\<close>

text \<open>What a public space's unnamed member may do is what a member may: none of Hypergraph's own.\<close>

lemma member_no_own: "p \<in> set OWN \<Longrightarrow> \<not> can (Some ''member'') p custom"
  by (auto simp: can_def permissionsOf_def ROLES_def OWN_def)

lemma can_role_there: "p \<in> set OWN \<Longrightarrow> can (role_there public v chain i) p custom = can (roleIn v chain i) p custom"
  by (auto simp: role_there_def member_no_own split: option.split)

lemma q_can_along:
  assumes "represents st v" "bans_ok v" "along st v chain x" "p \<in> set OWN"
  shows "q_can x i p = can (roleIn v chain i) p (roles_of v)"
  by (simp add: q_can_def roleOf_along [OF assms(1-3)] q_roles_along [OF assms(1,3)] can_role_there [OF assms(4)])

lemma anyWrites_loaded:
  "custom \<subseteq>\<^sub>m roles_of v \<Longrightarrow> fst (anyWrites v rs custom) \<longleftrightarrow> (\<exists>r\<in>set rs. mayWrite r (roles_of v))"
proof (induction v rs custom rule: anyWrites.induct)
  case (2 v r rs custom)
  have le: "load1 v r custom \<subseteq>\<^sub>m roles_of v" by (rule load1_le [OF "2.prems"])
  have here: "mayWrite r (load1 v r custom) = mayWrite r (roles_of v)"
    using can_loaded [OF "2.prems", of r "[r]"] by (simp add: mayWrite_def load_def)
  show ?case
  proof (cases "r = None \<or> r = Some []")
    case True
    then have "\<not> mayWrite r (roles_of v)" by (auto simp: mayWrite_def)
    with True 2 show ?thesis by simp
  next
    case False
    with "2.IH"(2) le here show ?thesis by (auto simp: Let_def)
  qed
qed simp

text \<open>C19: Who a space's state says may write decisions is whom applying lets write: \<open>writesDecisions\<close>
  gives what \<open>writesAnywhere\<close> gives on the view, whatever roles that has loaded.\<close>

theorem writes_decisions_agrees:
  assumes "reachable E vs" "represents st (vw vs)" "custom \<subseteq>\<^sub>m roles_of (vw vs)"
  shows "writesDecisions (Top st) i \<longleftrightarrow> fst (writesAnywhere (vw vs) i custom)"
proof -
  define v where "v = vw vs"
  have bans: "bans_ok v" and subs: "subs_ok v" and rep: "represents st v"
    using bans.reachable_inv [OF assms(1)] subs.reachable_inv [OF assms(1)] assms(2) by (simp_all add: v_def)
  have decides: "(q_can x i ''decide'' \<or> q_can x i ''moderate'') = mayWrite (roleIn v chain i) (roles_of v)"
    if "along st v chain x" for chain x
    using q_can_along [OF rep bans that] by (simp add: mayWrite_def OWN_def)
  have below: "(\<exists>y. s_subspaces (top_entries st) h \<noteq> None \<and> sub st h = Some y \<and> (q_can y i ''decide'' \<or> q_can y i ''moderate''))
      = (\<exists>chain. get_subspace v h \<noteq> None \<and> chainOf v (Some h) = Some chain \<and> mayWrite (roleIn v chain i) (roles_of v))" for h
  proof (cases "get_subspace v h")
    case None
    then show ?thesis by (simp add: representsD(1) [OF rep] entries_of_def)
  next
    case (Some info)
    from chainOf_path [OF subs Some] obtain p where p: "chainOf v (Some h) = Some (h # p)" by metis
    obtain x where "sub st h = Some x" "along st v (h # p) x" using sub_along [OF rep subs p] by blast
    with Some p decides show ?thesis by (simp add: representsD(1) [OF rep] entries_of_def)
  qed
  have keys: "(h, y) \<in> set (subspacesOf v) \<Longrightarrow> get_subspace v h \<noteq> None"
    "get_subspace v h \<noteq> None \<Longrightarrow> \<exists>y. (h, y) \<in> set (subspacesOf v)" for h y
    using subs_okD(2) [OF subs] by (auto simp: subspacesOf_some [OF subs] image_iff)
  have "(\<exists>r\<in>set (rolesAnywhere v i). mayWrite r (roles_of v)) \<longleftrightarrow> mayWrite (roleIn v [] i) (roles_of v) \<or>
     (\<exists>h chain. get_subspace v h \<noteq> None \<and> chainOf v (Some h) = Some chain \<and> mayWrite (roleIn v chain i) (roles_of v))"
  proof -
    have "(\<exists>r\<in>set (rolesAnywhere v i). mayWrite r (roles_of v)) \<longleftrightarrow> mayWrite (roleIn v [] i) (roles_of v) \<or>
      (\<exists>h y chain. (h, y) \<in> set (subspacesOf v) \<and> chainOf v (Some h) = Some chain \<and> mayWrite (roleIn v chain i) (roles_of v))"
      unfolding rolesAnywhere_def by (force split: option.splits)
    with keys show ?thesis by blast
  qed
  moreover have "fst (writesAnywhere v i custom) \<longleftrightarrow> (\<exists>r\<in>set (rolesAnywhere v i). mayWrite r (roles_of v))"
    using assms(3) anyWrites_loaded by (simp add: v_def writesAnywhere_def)
  moreover have "writesDecisions (Top st) i \<longleftrightarrow> mayWrite (roleIn v [] i) (roles_of v) \<or>
     (\<exists>h chain. get_subspace v h \<noteq> None \<and> chainOf v (Some h) = Some chain \<and> mayWrite (roleIn v chain i) (roles_of v))"
    using decides [of "[]" "Top st"] unfolding writesDecisions_def root.simps below by simp
  ultimately show ?thesis by (simp only: v_def)
qed

section \<open>Invites\<close>

lemma mayInvite_loaded:
  assumes "c \<subseteq>\<^sub>m roles_of v" "mk \<in> set names" "Some r \<in> set names"
  shows "mayInvite mk r (load v names c) = mayInvite mk r (roles_of v)"
  by (simp add: mayInvite_def grantable_def can_loaded [OF assms(1,2)] permissionsOf_loaded [OF assms(1,2)]
      permissionsOf_loaded [OF assms(1,3)] Let_def split: option.split)

lemma mayInvite_there: "mayInvite (role_there public v chain i) r custom = mayInvite (roleIn v chain i) r custom"
  using can_role_there [of "''invite''"]
  by (auto simp: role_there_def mayInvite_def OWN_def member_no_own split: option.split)

text \<open>C20: An invite is refused to someone beforehand exactly when its redemption, recorded then, would
  change nothing: \<open>inviteRefusal\<close> gives no code just when \<open>redeem_refused\<close> finds nothing against a
  redemption not recorded yet and the maker may still invite to that role.\<close>

theorem refusal_agrees:
  assumes "reachable E vs" "represents st (vw vs)" "chainOf (vw vs) (cx_scope cx) = Some (cx_chain cx)"
    "cx_custom cx \<subseteq>\<^sub>m roles_of (vw vs)" "iv_id (rd_invite r) = Some n"
    "get_redeemed (vw vs) (cx_scope cx) (hex n) (hex (rd_identity r)) = None"
    "used = (case get_uses (vw vs) (cx_scope cx) (hex n) of None \<Rightarrow> 0 | Some k \<Rightarrow> k)"
    "mk = roleIn (vw vs) (cx_chain cx) (hex (iv_maker (rd_invite r)))"
  shows "\<exists>x. effective st (cx_scope cx) = Some x \<and>
     (inviteRefusal x (rd_invite r) (hex (rd_identity r)) now used = Inr None \<longleftrightarrow>
        \<not> redeem_refused E cx now r (hex n) vs \<and>
        mayInvite mk (iv_role (rd_invite r)) (load (vw vs) [mk, Some (iv_role (rd_invite r))] (cx_custom cx)))"
proof -
  note bans = bans.reachable_inv [OF assms(1)]
  obtain x where x: "effective st (cx_scope cx) = Some x" "along st (vw vs) (cx_chain cx) x"
    by (rule effective_along [OF assms(2) subs.reachable_inv [OF assms(1)] assms(3)])
  have scope: "(case cx_chain cx of [] \<Rightarrow> None | h # _ \<Rightarrow> Some h) = cx_scope cx"
    by (rule chainOf_head [OF subs.reachable_inv [OF assms(1)] assms(3)])
  have own: "s_revoked (own x) = get_revoked (vw vs) (cx_scope cx)"
    using along_own [OF assms(2) x(2)] scope by (simp add: entries_of_def)
  have may: "mayInvite mk r' (load (vw vs) [mk, Some r'] (cx_custom cx)) =
      mayInvite (roleOf x (hex (iv_maker (rd_invite r)))) r' (q_roles x)" for r'
    unfolding mayInvite_loaded [OF assms(4), of mk "[mk, Some r']" r', simplified]
    by (simp add: roleOf_along [OF assms(2) bans x(2)] q_roles_along [OF assms(2) x(2)] mayInvite_there assms(8))
  have "inviteRefusal x (rd_invite r) (hex (rd_identity r)) now used = Inr None \<longleftrightarrow>
      \<not> redeem_refused E cx now r (hex n) vs \<and>
      mayInvite mk (iv_role (rd_invite r)) (load (vw vs) [mk, Some (iv_role (rd_invite r))] (cx_custom cx))"
  proof -
    define M where "M = mayInvite (roleOf x (hex (iv_maker (rd_invite r)))) (iv_role (rd_invite r)) (q_roles x)"
    define late where "late \<longleftrightarrow> iv_expires (rd_invite r) \<noteq> 0 \<and> now > iv_expires (rd_invite r)"
    define full where "full \<longleftrightarrow> iv_uses (rd_invite r) \<noteq> 0 \<and> used \<ge> iv_uses (rd_invite r)"
    have "inviteRefusal x (rd_invite r) (hex (rd_identity r)) now used = Inr None \<longleftrightarrow>
        \<not> late \<and> get_revoked (vw vs) (cx_scope cx) (hex n) = None \<and> \<not> full \<and>
        \<not> bannedIn (vw vs) (cx_chain cx) (hex (rd_identity r)) \<and> M"
      unfolding inviteRefusal_def assms(5) option.case own q_banned_along [OF assms(2) x(2)]
        M_def [symmetric] late_def [symmetric] full_def [symmetric] by simp
    moreover have "redeem_refused E cx now r (hex n) vs \<longleftrightarrow>
        bannedIn (vw vs) (cx_chain cx) (hex (rd_identity r)) \<or>
        get_revoked (vw vs) (cx_scope cx) (hex n) \<noteq> None \<or> late \<or> full"
      unfolding redeem_refused_def Let_def assms(6) assms(7) [symmetric] late_def full_def by simp
    ultimately show ?thesis unfolding may M_def [symmetric] by blast
  qed
  with x(1) show ?thesis by blast
qed

section \<open>Limits\<close>

lemma tighter_lowest: "tighter a a' \<Longrightarrow> tighter b b' \<Longrightarrow> tighter (lowest a b) (lowest a' b')"
  unfolding tighter_def
proof (intro allI impI)
  fix l n
  assume a: "\<forall>l n. a l = Some n \<longrightarrow> (\<exists>m. a' l = Some m \<and> m \<le> n)"
    and b: "\<forall>l n. b l = Some n \<longrightarrow> (\<exists>m. b' l = Some m \<and> m \<le> n)" and n: "lowest a b l = Some n"
  show "\<exists>m. lowest a' b' l = Some m \<and> m \<le> n"
    using n spec [OF a, of l] spec [OF b, of l]
    by (cases "a l"; cases "b l"; cases "a' l"; cases "b' l") (auto simp: lowest_def min_def split: if_splits)
qed

lemma lowest_empty [simp]: "lowest a Map.empty = a"
  by (simp add: lowest_def)

primrec cut_along :: "view \<Rightarrow> string list \<Rightarrow> string \<Rightarrow> loglens" where
  "cut_along v [] i = cuts_of v None i"
| "cut_along v (h # rest) i = lowest (cut_along v rest i) (cuts_of v (Some h) i)"

primrec editcut_along :: "view \<Rightarrow> string list \<Rightarrow> string \<Rightarrow> string \<Rightarrow> loglens" where
  "editcut_along v [] i p = editcuts_of v None i p"
| "editcut_along v (h # rest) i p = lowest (editcut_along v rest i p) (editcuts_of v (Some h) i p)"

lemma or_empty_simps [simp]: "or_empty None = Map.empty" "or_empty (Some m) = m"
  by (simp_all add: or_empty_def)

lemma q_cut_along:
  "represents st v \<Longrightarrow> along st v chain x \<Longrightarrow> or_empty (q_cut x i) = cut_along v chain i"
  by (induction chain arbitrary: x)
    (auto simp: representsD entries_of_def cuts_of_def split: option.splits)

lemma q_editcut_along:
  "represents st v \<Longrightarrow> along st v chain x \<Longrightarrow> or_empty (or_empty (q_editcut x i) p) = editcut_along v chain i p"
proof (induction chain arbitrary: x)
  case Nil
  then show ?case by (auto simp: representsD entries_of_def editcuts_of_def or_empty_def split: option.split)
next
  case (Cons h rest)
  then obtain info up where x: "x = Sub st h info up" and up: "along st v rest up" by auto
  show ?case
  proof (cases "get_editcut v (Some h) i")
    case None
    with Cons.IH [OF Cons.prems(1) up] show ?thesis
      by (simp add: x representsD(2) [OF Cons.prems(1)] entries_of_def editcuts_of_def)
  next
    case (Some mine)
    with Cons.IH [OF Cons.prems(1) up] show ?thesis
      by (cases "mine p") (simp_all add: x representsD(2) [OF Cons.prems(1)] entries_of_def editcuts_of_def)
  qed
qed

lemma cut_along_tighter: "cuts_tighten v w \<Longrightarrow> tighter (cut_along v chain i) (cut_along w chain i)"
  by (induction chain) (simp_all add: cuts_tighten_def tighter_lowest)

lemma editcut_along_tighter: "cuts_tighten v w \<Longrightarrow> tighter (editcut_along v chain i p) (editcut_along w chain i p)"
  by (induction chain) (simp_all add: cuts_tighten_def tighter_lowest)

lemma chainOf_kept:
  assumes "subs_ok v" "subs_ok w" "\<And>h info. get_subspace v h = Some info \<Longrightarrow> get_subspace w h = Some info"
  shows "chainOf v s = Some chain \<Longrightarrow> chainOf w s = Some chain"
proof (induction chain arbitrary: s)
  case Nil
  have "s = None" using chainOf_head [OF assms(1) Nil] by simp
  then show ?case by (simp add: chainOf_top)
next
  case (Cons h rest)
  have s: "s = Some h" using chainOf_head [OF assms(1) Cons.prems] by simp
  obtain info where info: "get_subspace v h = Some info" and "chainOf v (ss_parent info) = Some rest"
    using chainOf_some [OF assms(1)] Cons.prems s by (metis list.inject)
  then have up: "chainOf w (ss_parent info) = Some rest" by (intro Cons.IH)
  from chainOf_path [OF assms(2) assms(3) [OF info]] up have "chainOf w (Some h) = Some (h # rest)"
    by (metis option.inject)
  with s show ?case by simp
qed

lemma effective_chain:
  assumes "represents st v" "subs_ok v" "effective st s = Some x"
  obtains chain where "chainOf v s = Some chain" "along st v chain x"
proof (cases s)
  case None
  with assms(3) that show thesis by (simp add: effective_def chainOf_top)
next
  case (Some h)
  with assms(3) have sub: "sub st h = Some x" by (simp add: effective_def)
  then obtain info where "get_subspace v h = Some info"
    using sub_null [OF assms(1)] by fastforce
  from chainOf_path [OF assms(2) this] obtain p where p: "chainOf v (Some h) = Some (h # p)" by metis
  with sub_along [OF assms(1,2) p] sub Some that show thesis by auto
qed

text \<open>C21: A cut limits what counts of a log, and only ever more: in every space of the tree, a log named
  by a cut or, for a permission, by an edit cut there or above stays limited, to the same length or
  a shorter one, after whatever is decided later; only logs no cut names follow their author's role.\<close>

theorem limits_only_shrink:
  assumes "reachable E vs" "applyNodes E ns vs = Inr vs1" "represents st (vw vs)" "represents st1 (vw vs1)"
    "effective st s = Some x"
  shows "\<exists>x1. effective st1 s = Some x1 \<and>
     (isCut x i l \<longrightarrow> isCut x1 i l \<and> limitOf x1 i l \<le> limitOf x i l \<and> limitOf x i l \<noteq> \<infinity>) \<and>
     (or_empty (or_empty (q_editcut x i) p) l \<noteq> None \<longrightarrow> editLimit x1 i p l \<le> editLimit x i p l)"
proof -
  note ok = subs.reachable_inv [OF assms(1)] and ok1 = subs.reachable_inv [OF applyNodes_reachable [OF assms(1,2)]]
  have tight: "cuts_tighten (vw vs) (vw vs1)" by (rule cuts.nodes_rel [OF assms(1,2)])
  obtain chain where chain: "chainOf (vw vs) s = Some chain" and x: "along st (vw vs) chain x"
    by (rule effective_chain [OF assms(3) ok assms(5)])
  have "\<And>h info. get_subspace (vw vs) h = Some info \<Longrightarrow> get_subspace (vw vs1) h = Some info"
    using records.nodes_rel [OF assms(1,2)] unfolding records_kept_def by blast
  from chainOf_kept [OF ok ok1 this chain] have chain1: "chainOf (vw vs1) s = Some chain" .
  obtain x1 where x1: "effective st1 s = Some x1" "along st1 (vw vs1) chain x1"
    by (rule effective_along [OF assms(4) ok1 chain1])
  note along = q_cut_along [OF assms(3) x, of i] q_cut_along [OF assms(4) x1(2), of i]
    q_editcut_along [OF assms(3) x, of i p] q_editcut_along [OF assms(4) x1(2), of i p]
  have "\<exists>k. cut_along (vw vs1) chain i l = Some k \<and> k \<le> n" if "cut_along (vw vs) chain i l = Some n" for n
    using cut_along_tighter [OF tight, of chain i] that unfolding tighter_def by blast
  moreover have "\<exists>k. editcut_along (vw vs1) chain i p l = Some k \<and> k \<le> n" if "editcut_along (vw vs) chain i p l = Some n" for n
    using editcut_along_tighter [OF tight, of chain i p] that unfolding tighter_def by blast
  ultimately show ?thesis using x1(1)
    by (fastforce simp: isCut_def limitOf_def editLimit_def along split: option.splits)
qed

section \<open>What was not touched\<close>

definition about :: "vkey \<Rightarrow> string option" where
  "about k = (case k of KMember s i \<Rightarrow> Some i | KBanned s i \<Rightarrow> Some i | KCut s i \<Rightarrow> Some i
     | KAdmit s i \<Rightarrow> Some i | KEditcut s i \<Rightarrow> Some i | _ \<Rightarrow> None)"

definition loud :: "vkey \<Rightarrow> bool" where
  "loud k = (case k of KMeta s \<Rightarrow> True | KRole r \<Rightarrow> True | KSubspace h \<Rightarrow> True | KSubspaces \<Rightarrow> True
     | KTypes \<Rightarrow> True | KTypesAt n \<Rightarrow> True | KLog n \<Rightarrow> True | KCount \<Rightarrow> True | _ \<Rightarrow> False)"

lemma touch1_parts:
  "t_all (touch1 k t) \<longleftrightarrow> t_all t \<or> loud k"
  "t_ids (touch1 k t) = t_ids t \<union> {i. about k = Some i}"
  "t_mods (touch1 k t) = t_mods t \<union> {r. \<exists>s. k = KMod s r}"
  by (cases k; auto simp: touch1_def loud_def about_def)+

lemma touched_parts:
  "t_all (touched (Some ks)) \<longleftrightarrow> (\<exists>k\<in>set ks. loud k)"
  "t_ids (touched (Some ks)) = {i. \<exists>k\<in>set ks. about k = Some i}"
  "t_mods (touched (Some ks)) = {r. \<exists>s. KMod s r \<in> set ks}"
proof -
  have "t_all (fold touch1 ks t) \<longleftrightarrow> t_all t \<or> (\<exists>k\<in>set ks. loud k)"
    "t_ids (fold touch1 ks t) = t_ids t \<union> {i. \<exists>k\<in>set ks. about k = Some i}"
    "t_mods (fold touch1 ks t) = t_mods t \<union> {r. \<exists>s. KMod s r \<in> set ks}" for t
    by (induction ks arbitrary: t) (auto simp: touch1_parts)
  then show "t_all (touched (Some ks)) \<longleftrightarrow> (\<exists>k\<in>set ks. loud k)"
    "t_ids (touched (Some ks)) = {i. \<exists>k\<in>set ks. about k = Some i}"
    "t_mods (touched (Some ks)) = {r. \<exists>s. KMod s r \<in> set ks}"
    by (simp_all add: touched_def)
qed

definition same_for :: "string \<Rightarrow> view \<Rightarrow> view \<Rightarrow> bool" where
  "same_for i v w \<longleftrightarrow> (\<forall>k. loud k \<and> \<not> listing k \<or> about k = Some i \<longrightarrow> w k = v k)"

lemma same_forD:
  assumes "same_for i v w"
  shows "get_meta w = get_meta v" "get_role w = get_role v" "get_subspace w = get_subspace v"
    "get_member w s i = get_member v s i" "get_banned w s i = get_banned v s i" "get_cut w s i = get_cut v s i"
    "get_admit w s i = get_admit v s i" "get_editcut w s i = get_editcut v s i" "sub_keys w = sub_keys v"
  using assms by (simp_all add: same_for_def loud_def about_def listing_def getters sub_keys_def fun_eq_iff)

lemma along_same:
  assumes "same_for i v w" "represents st v" "represents st1 w"
  shows "along st v chain x \<Longrightarrow> along st1 w chain x1 \<Longrightarrow>
    q_meta x1 = q_meta x \<and> q_banned x1 i = q_banned x i \<and> q_member x1 i = q_member x i \<and>
    q_cut x1 i = q_cut x i \<and> q_admit x1 i = q_admit x i \<and> q_editcut x1 i = q_editcut x i"
proof (induction chain arbitrary: x x1)
  case Nil
  then show ?case
    by (simp add: representsD(1) [OF assms(2)] representsD(1) [OF assms(3)] entries_of_def same_forD [OF assms(1)])
next
  case (Cons h rest)
  then obtain info up info1 up1 where x: "x = Sub st h info up" "get_subspace v h = Some info" "along st v rest up"
    and x1: "x1 = Sub st1 h info1 up1" "get_subspace w h = Some info1" "along st1 w rest up1" by auto
  have info: "info1 = info" using x(2) x1(2) same_forD(3) [OF assms(1)] by simp
  have "own_of st h = entries_of v (Some h)" "own_of st1 h = entries_of w (Some h)"
    using assms(2,3) by (simp_all add: representsD)
  then have e: "s_meta (own_of st1 h) = s_meta (own_of st h)" "s_banned (own_of st1 h) i = s_banned (own_of st h) i"
    "s_members (own_of st1 h) i = s_members (own_of st h) i" "s_cuts (own_of st1 h) i = s_cuts (own_of st h) i"
    "s_admits (own_of st1 h) i = s_admits (own_of st h) i" "s_editcuts (own_of st1 h) i = s_editcuts (own_of st h) i"
    by (simp_all add: entries_of_def same_forD [OF assms(1)])
  from Cons.IH [OF x(3) x1(3)] show ?case
    unfolding x(1) x1(1) info by (simp add: e cong: option.case_cong)
qed

lemma chainOf_same: "same_for i v w \<Longrightarrow> chainOf w s = chainOf v s"
proof -
  assume "same_for i v w"
  note same = same_forD [OF this]
  have "chain_fuel n w c s = chain_fuel n v c s" for n c s
    by (induction n arbitrary: c s; case_tac s) (simp_all add: same split: option.split)
  then show ?thesis by (simp add: chainOf_def same)
qed

text \<open>C22: What a change touches is all it moves: from the keys a read reports, \<open>touched\<close> names everyone
  whose answers may differ; for an identity it leaves out, when it does not say \<open>all\<close>, role, bans, the
  right to write and every limit are the same in every space of the tree as before.\<close>

theorem untouched_unmoved:
  assumes "reachable E vs" "reachable E vs1" "represents st (vw vs)" "represents st1 (vw vs1)"
    "\<And>k. \<not> listing k \<Longrightarrow> k \<notin> set ks \<Longrightarrow> vw vs1 k = vw vs k"
    "\<not> t_all (touched (Some ks))" "i \<notin> t_ids (touched (Some ks))" "effective st s = Some x"
  shows "\<exists>x1. effective st1 s = Some x1 \<and> roleOf x1 i = roleOf x i \<and> q_banned x1 i = q_banned x i \<and>
     canWrite x1 i = canWrite x i \<and> limitOf x1 i l = limitOf x i l \<and> editLimit x1 i p l = editLimit x i p l \<and>
     mustAdmit x1 i l = mustAdmit x i l \<and> admission x1 i = admission x i"
proof -
  note ok = subs.reachable_inv [OF assms(1)] and ok1 = subs.reachable_inv [OF assms(2)]
  have same: "same_for i (vw vs) (vw vs1)"
    unfolding same_for_def
  proof (intro allI impI)
    fix k assume k: "loud k \<and> \<not> listing k \<or> about k = Some i"
    have "\<not> listing k" using k by (cases k) (auto simp: about_def listing_def)
    moreover have "k \<notin> set ks" using k assms(6,7) by (auto simp: touched_parts)
    ultimately show "vw vs1 k = vw vs k" by (rule assms(5))
  qed
  obtain chain where chain: "chainOf (vw vs) s = Some chain" and x: "along st (vw vs) chain x"
    by (rule effective_chain [OF assms(3) ok assms(8)])
  obtain x1 where x1: "effective st1 s = Some x1" "along st1 (vw vs1) chain x1"
    using chain chainOf_same [OF same, of s] by (metis effective_along [OF assms(4) ok1])
  note q = along_same [OF same assms(3,4) x x1(2)]
  have roles: "q_roles x1 = q_roles x"
    using q_roles_along [OF assms(3) x] q_roles_along [OF assms(4) x1(2)]
    by (simp add: roles_of_def fun_eq_iff same_forD [OF same])
  have public: "q_public x1 = q_public x" using q by (simp add: q_public_def)
  with q have role: "roleOf x1 i = roleOf x i" by (simp add: roleOf_def cong: if_cong option.case_cong)
  have can: "q_can x1 i p = q_can x i p" for p by (simp add: q_can_def role roles)
  have "canWrite x1 i = canWrite x i"
  proof (cases chain)
    case Nil
    with x x1(2) can show ?thesis by simp
  next
    case (Cons h rest)
    with x x1(2) same_forD(3) [OF same] obtain info up up1 where "x = Sub st h info up" "x1 = Sub st1 h info up1" by auto
    with can [of "''post''"] role show ?thesis by simp
  qed
  with q x1(1) role can public show ?thesis
    by (auto simp: limitOf_def editLimit_def mustAdmit_def isCut_def admission_def)
qed

section \<open>Witnesses\<close>

definition state_of :: "view \<Rightarrow> state" where
  "state_of v = \<lparr>top_entries = entries_of v None, scoped = (\<lambda>h. Some (entries_of v (Some h)))\<rparr>"

lemma state_of_represents: "represents (state_of v) v"
  by (simp add: represents_def state_of_def own_of_def)

theorem state_agrees_on_members_witness:
  "\<exists>x chain. chainOf (vw ex_st1) (Some ''07'') = Some chain \<and> effective (state_of (vw ex_st1)) (Some ''07'') = Some x \<and>
     q_member x ''02'' = map_option short (memberIn (vw ex_st1) chain ''02'')"
proof -
  obtain info where info: "get_subspace (vw ex_st1) ''07'' = Some info" using ex_sub by blast
  obtain p where "chainOf (vw ex_st1) (Some ''07'') = Some (''07'' # p)"
    using chainOf_path [OF subs.reachable_inv [OF ex_reachable(1)] info] by metis
  with state_agrees_on_members [OF ex_reachable(1) state_of_represents this, of "''02''"] show ?thesis by blast
qed

theorem writes_decisions_agrees_witness:
  "writesDecisions (Top (state_of (vw ex_st1))) ''04'' \<longleftrightarrow> fst (writesAnywhere (vw ex_st1) ''04'' Map.empty)"
  by (rule writes_decisions_agrees [OF ex_reachable(1) state_of_represents]) simp

definition ex_cx :: ctx where
  "ex_cx = \<lparr>cx_scope = None, cx_chain = [], cx_author = ''01'', cx_role = Some ''owner'', cx_custom = Map.empty\<rparr>"

definition ex_invited :: "vstate \<Rightarrow> bool" where
  "ex_invited st \<longleftrightarrow> get_redeemed (vw st) None (hex [40]) (hex [4]) = None \<and>
     get_uses (vw st) None (hex [40]) = None \<and> \<not> redeem_refused ex_env ex_cx 7 ex_redemption (hex [40]) st \<and>
     mayInvite (roleIn (vw st) [] (hex [1])) ''member'' (load (vw st) [roleIn (vw st) [] (hex [1]), Some ''member''] Map.empty)"

lemma ex_invited_run:
  "case applyNodes ex_env (take 5 ex_log1) empty_vstate of Inl _ \<Rightarrow> False | Inr st \<Rightarrow> ex_invited st"
  by code_simp

theorem refusal_agrees_witness:
  "\<exists>x. effective (state_of (vw ex_st0)) None = Some x \<and> inviteRefusal x ex_invite (hex [4]) 7 0 = Inr None"
proof -
  have run: "ex_invited ex_st0" using ex_invited_run ex_runs(6) by simp
  have r: "rd_invite ex_redemption = ex_invite" "rd_identity ex_redemption = [4]" "iv_id ex_invite = Some [40]"
    "iv_maker ex_invite = [1]" "iv_role ex_invite = ''member''"
    by (simp_all add: ex_redemption_def ex_invite_def)
  have cx: "cx_scope ex_cx = None" "cx_chain ex_cx = []" "cx_custom ex_cx = Map.empty" by (simp_all add: ex_cx_def)
  from refusal_agrees [OF ex_reachable(3) state_of_represents, of ex_cx ex_redemption "[40]" 0
      "roleIn (vw ex_st0) [] (hex [1])" 7] run
  show ?thesis by (simp add: cx r chainOf_top ex_invited_def)
qed

theorem limits_only_shrink_witness:
  "\<exists>x1. effective (state_of (vw ex_st2)) None = Some x1 \<and> limitOf x1 (hex ex_banned) ''1e'' \<le> 5"
proof -
  define x where "x = Top (state_of (vw ex_st1))"
  have x: "effective (state_of (vw ex_st1)) None = Some x" by (simp add: effective_def x_def)
  have "or_empty (q_cut x (hex ex_banned)) = cuts_of (vw ex_st1) None (hex ex_banned)"
    using q_cut_along [OF state_of_represents, of "vw ex_st1" "[]" x] by (simp add: x_def)
  with ex_runs(2) have "isCut x (hex ex_banned) ''1e''" "limitOf x (hex ex_banned) ''1e'' = 5"
    by (simp_all add: isCut_def limitOf_def ex_first_def numeral_eq_enat)
  with limits_only_shrink [OF ex_reachable(1) ex_runs(3) state_of_represents state_of_represents x,
      of "hex ex_banned" "''1e''" "''post''"] show ?thesis by auto
qed

theorem untouched_unmoved_witness:
  "\<exists>x1. effective (state_of (vw ex_added)) None = Some x1 \<and> roleOf x1 ''01'' = Some ''owner''"
proof -
  define x where "x = Top (state_of (vw ex_begun))"
  have x: "effective (state_of (vw ex_begun)) None = Some x" by (simp add: effective_def x_def)
  have role: "roleOf x ''01'' = Some ''owner''"
    by (simp add: x_def roleOf_def state_of_def entries_of_def get_member_def ex_begun_at ex_entries_def short_def)
  have keys: "vw ex_added k = vw ex_begun k" if "\<not> listing k" "k \<notin> set [KMember None ''02'']" for k
    using that by (auto simp: ex_added_at ex_begun_at ex_member_def ex_entries_def listing_def)
  have "\<not> t_all (touched (Some [KMember None ''02'']))" "''01'' \<notin> t_ids (touched (Some [KMember None ''02'']))"
    by (simp_all add: touched_parts loud_def about_def)
  from untouched_unmoved [OF ex_begin_reachable state_of_represents state_of_represents keys this x] role
  show ?thesis by auto
qed

end
