(* ===== verification/Stamps.thy ===== *)
theory Stamps
  imports Prelude "HOL-Library.Extended_Nat"
begin

text \<open>
  When records were written: the stamps a device gives its records and the order readers settle
  versions by (lib/stamp.js), and the write limit of an open space judged on them (lib/limit.js).
  Stamps are whole milliseconds; the code holds them as numbers, exact below \<open>2 ^ 53\<close>.
\<close>

section \<open>Giving stamps\<close>

record stamper =
  newest :: nat

definition seen :: "nat \<Rightarrow> stamper \<Rightarrow> stamper" where
  "seen stamp s = (if stamp > newest s then s\<lparr>newest := stamp\<rparr> else s)"

definition next_stamp :: "nat \<Rightarrow> nat \<Rightarrow> stamper \<Rightarrow> nat \<times> stamper" where
  "next_stamp now replaces s =
     (let stamp = max now (max (newest s + 1) (replaces + 1)) in (stamp, s\<lparr>newest := stamp\<rparr>))"

text \<open>What happens to a device's stamper: a record seen, or a stamp asked for at a time of its clock.\<close>

datatype stamp_event = Saw nat | Ask nat nat

fun stamps_of :: "stamper \<Rightarrow> stamp_event list \<Rightarrow> nat list" where
  "stamps_of s [] = []"
| "stamps_of s (Saw n # es) = stamps_of (seen n s) es"
| "stamps_of s (Ask now r # es) = fst (next_stamp now r s) # stamps_of (snd (next_stamp now r s)) es"

fun seen_of :: "stamp_event list \<Rightarrow> nat list" where
  "seen_of [] = []"
| "seen_of (Saw n # es) = n # seen_of es"
| "seen_of (Ask now r # es) = seen_of es"

lemma next_stamp_bounds:
  "now \<le> fst (next_stamp now r s)" "newest s < fst (next_stamp now r s)" "r < fst (next_stamp now r s)"
  "newest (snd (next_stamp now r s)) = fst (next_stamp now r s)"
  by (simp_all add: next_stamp_def Let_def less_max_iff_disj; simp add: less_Suc_eq_le)+

lemma seen_bounds: "newest s \<le> newest (seen n s)" "n \<le> newest (seen n s)"
  by (simp_all add: seen_def)

lemma stamps_above: "n \<in> set (stamps_of s es) \<Longrightarrow> newest s < n"
proof (induction s es rule: stamps_of.induct)
  case (2 s m es)
  then show ?case using seen_bounds(1) [of s m] by fastforce
next
  case (3 s now r es)
  then show ?case using next_stamp_bounds(2) [of s now r] by (auto simp: next_stamp_bounds(4))
qed simp

lemma stamps_sorted: "sorted_wrt (<) (stamps_of s es)"
  by (induction s es rule: stamps_of.induct)
    (auto dest: stamps_above simp: next_stamp_bounds(4))

lemma asked_above:
  "\<exists>n. stamps_of s (before @ Ask now r # later) = stamps_of s before @ n # drop (Suc (length (stamps_of s before))) (stamps_of s (before @ Ask now r # later))
     \<and> now \<le> n \<and> r < n \<and> newest s < n \<and> (\<forall>m\<in>set (seen_of before). m < n)"
proof (induction s before rule: stamps_of.induct)
  case (1 s)
  then show ?case by (simp add: next_stamp_bounds)
next
  case (2 s m es)
  then show ?case using seen_bounds [where s = s and n = m] by (auto intro: le_less_trans)
next
  case (3 s c p es)
  then show ?case using next_stamp_bounds(2) [of s c p] by (auto simp: next_stamp_bounds(4) intro: less_trans)
qed

text \<open>C23: A device's stamps strictly increase whatever its clock does, each above every record seen
  before it, above the one it replaces, and at least its clock.\<close>

theorem stamps_increase:
  "sorted_wrt (<) (stamps_of s es) \<and>
   (\<forall>before now r later. es = before @ Ask now r # later \<longrightarrow>
      (\<exists>n rest. stamps_of s es = stamps_of s before @ n # rest \<and>
         now \<le> n \<and> r < n \<and> newest s < n \<and> (\<forall>m\<in>set (seen_of before). m < n)))"
  using stamps_sorted asked_above by blast

theorem stamps_increase_witness:
  "\<exists>n rest. stamps_of \<lparr>newest = 0\<rparr> [Saw 500, Ask 100 0, Ask 90 900] = stamps_of \<lparr>newest = 0\<rparr> [Saw 500, Ask 100 0] @ n # rest \<and> 900 < n"
  using conjunct2 [OF stamps_increase [of "\<lparr>newest = 0\<rparr>" "[Saw 500, Ask 100 0, Ask 90 900]"],
      THEN spec, of "[Saw 500, Ask 100 0]", THEN spec, of 90, THEN spec, of 900, THEN spec, of "[]"]
  by auto

section \<open>Latest wins\<close>

text \<open>\<open>b4a.compare\<close>: byte by byte, a shorter prefix first.\<close>

fun compare_bytes :: "bytes \<Rightarrow> bytes \<Rightarrow> int" where
  "compare_bytes [] [] = 0"
| "compare_bytes [] (b # bs) = -1"
| "compare_bytes (a # as) [] = 1"
| "compare_bytes (a # as) (b # bs) = (if a < b then -1 else if b < a then 1 else compare_bytes as bs)"

type_synonym version = "nat \<times> bytes" \<comment> \<open>a stamp and a device key\<close>

definition compare :: "version \<Rightarrow> version \<Rightarrow> int" where
  "compare a b = (if fst a \<noteq> fst b then int (fst a) - int (fst b) else compare_bytes (snd b) (snd a))"

text \<open>The loop of \<open>latest\<close>, which the index also runs over changes and rows: the first of the latest.\<close>

definition latest :: "('a \<Rightarrow> version) \<Rightarrow> 'a list \<Rightarrow> 'a option" where
  "latest key versions = fold (\<lambda>v best. case best of None \<Rightarrow> Some v
     | Some b \<Rightarrow> if compare (key v) (key b) > 0 then Some v else Some b) versions None"

definition FUTURE_MS :: nat where "FUTURE_MS = 10 * 60 * 1000"

definition isFuture :: "nat \<Rightarrow> nat \<Rightarrow> bool" where
  "isFuture stamp now \<longleftrightarrow> stamp > now + FUTURE_MS"

lemma compare_bytes_0: "compare_bytes a b = 0 \<longleftrightarrow> a = b"
  by (induction a b rule: compare_bytes.induct) auto

lemma compare_bytes_sym: "compare_bytes b a = - compare_bytes a b"
  by (induction a b rule: compare_bytes.induct) auto

lemma compare_bytes_trans: "compare_bytes a b < 0 \<Longrightarrow> compare_bytes b c < 0 \<Longrightarrow> compare_bytes a c < 0"
proof (induction a b arbitrary: c rule: compare_bytes.induct)
  case (2 b bs)
  then show ?case by (cases c) auto
next
  case (4 a as b bs)
  then show ?case by (cases c) (auto split: if_splits)
qed auto

lemma compare_0: "compare a b = 0 \<longleftrightarrow> a = b"
  by (cases a; cases b) (auto simp: compare_def compare_bytes_0)

lemma compare_sym: "compare b a = - compare a b"
  using compare_bytes_sym [of "snd a" "snd b"] by (auto simp: compare_def)

lemma compare_trans: "compare a b > 0 \<Longrightarrow> compare b c > 0 \<Longrightarrow> compare a c > 0"
  using compare_bytes_trans [of "snd a" "snd b" "snd c"] compare_bytes_sym [of "snd a" "snd b"]
    compare_bytes_sym [of "snd b" "snd c"] compare_bytes_sym [of "snd a" "snd c"]
  by (auto simp: compare_def split: if_splits)

text \<open>
  What makes "latest wins" settle on one version whatever the order of arrival: an order that never
  ties different versions. The loop then finds the greatest, which any other order finds too.
\<close>

locale latest_order =
  fixes cmp :: "'v \<Rightarrow> 'v \<Rightarrow> int"
  assumes zero: "cmp a b = 0 \<longleftrightarrow> a = b"
    and sym: "cmp b a = - cmp a b"
    and trans: "cmp a b > 0 \<Longrightarrow> cmp b c > 0 \<Longrightarrow> cmp a c > 0"
begin

lemma trans_le: "cmp a b > 0 \<Longrightarrow> cmp b c \<ge> 0 \<Longrightarrow> cmp a c > 0"
  using trans [of a b c] zero [of b c] by (cases "b = c") auto

lemma le_trans: "cmp a b \<ge> 0 \<Longrightarrow> cmp b c \<ge> 0 \<Longrightarrow> cmp a c \<ge> 0"
  using trans_le [of a b c] zero [of a b] by (cases "a = b") auto

lemma not_gt: "\<not> cmp a b > 0 \<Longrightarrow> cmp b a \<ge> 0"
  using sym [of a b] by simp

lemma fold_latest:
  "\<exists>x. fold (\<lambda>v best. case best of None \<Rightarrow> Some v | Some b \<Rightarrow> if cmp (key v) (key b) > 0 then Some v else Some b) xs (Some y) = Some x
     \<and> x \<in> set (y # xs) \<and> (\<forall>z\<in>set (y # xs). cmp (key x) (key z) \<ge> 0)"
proof (induction xs arbitrary: y)
  case Nil
  then show ?case using zero [of "key y" "key y"] by simp
next
  case (Cons v xs)
  show ?case
  proof (cases "cmp (key v) (key y) > 0")
    case True
    obtain x where x: "fold (\<lambda>v best. case best of None \<Rightarrow> Some v | Some b \<Rightarrow> if cmp (key v) (key b) > 0 then Some v else Some b) xs (Some v) = Some x"
      "x \<in> set (v # xs)" "\<forall>z\<in>set (v # xs). cmp (key x) (key z) \<ge> 0" using Cons.IH [of v] by blast
    then have "cmp (key x) (key y) \<ge> 0" using True le_trans [of "key x" "key v" "key y"] by auto
    with x True show ?thesis by auto
  next
    case False
    obtain x where x: "fold (\<lambda>v best. case best of None \<Rightarrow> Some v | Some b \<Rightarrow> if cmp (key v) (key b) > 0 then Some v else Some b) xs (Some y) = Some x"
      "x \<in> set (y # xs)" "\<forall>z\<in>set (y # xs). cmp (key x) (key z) \<ge> 0" using Cons.IH [of y] by blast
    then have "cmp (key x) (key v) \<ge> 0" using not_gt [OF False] le_trans [of "key x" "key y" "key v"] by auto
    with x False show ?thesis by auto
  qed
qed

lemma greatest_unique:
  "cmp (key x) (key y) \<ge> 0 \<Longrightarrow> cmp (key y) (key x) \<ge> 0 \<Longrightarrow> key x = key y"
  using sym [of "key x" "key y"] zero by simp

end

interpretation stamps: latest_order compare
  by unfold_locales (simp_all add: compare_0 compare_sym [symmetric] compare_trans)

lemma latest_Nil [simp]: "latest key [] = None"
  by (simp add: latest_def)

lemma latest_None_iff [simp]: "latest key xs = None \<longleftrightarrow> xs = []"
  using stamps.fold_latest [of key "tl xs" "hd xs"] by (cases xs) (auto simp: latest_def)

lemma latest_SomeD:
  assumes "latest key xs = Some x"
  shows "x \<in> set xs" "y \<in> set xs \<Longrightarrow> compare (key x) (key y) \<ge> 0"
  using assms stamps.fold_latest [of key "tl xs" "hd xs"] by (cases xs; fastforce simp: latest_def)+

lemma latest_unique:
  assumes "inj_on key (set xs)"
  shows "latest key xs = Some x \<longleftrightarrow> x \<in> set xs \<and> (\<forall>y\<in>set xs. compare (key x) (key y) \<ge> 0)"
proof
  assume "latest key xs = Some x"
  then show "x \<in> set xs \<and> (\<forall>y\<in>set xs. compare (key x) (key y) \<ge> 0)" by (blast dest: latest_SomeD)
next
  assume x: "x \<in> set xs \<and> (\<forall>y\<in>set xs. compare (key x) (key y) \<ge> 0)"
  then obtain z where z: "latest key xs = Some z" by (cases "latest key xs") auto
  with x latest_SomeD [OF z] stamps.greatest_unique [of key x z] assms
  have "x = z" by (auto dest: inj_onD)
  with z show "latest key xs = Some x" by simp
qed

text \<open>C24: Every reader settles on the same version: whatever the order the versions of a record arrive
  in, and however often, \<open>latest\<close> gives the same one, none of them later, as long as no device gave
  two of them the same stamp.\<close>

theorem latest_any_order:
  assumes "inj_on key (set xs)" "set ys = set xs"
  shows "latest key ys = latest key xs \<and>
    (\<forall>x. latest key xs = Some x \<longrightarrow> x \<in> set xs \<and> (\<forall>y\<in>set xs. y = x \<or> compare (key x) (key y) > 0))"
proof -
  have "latest key ys = latest key xs"
  proof (cases "latest key xs")
    case None
    with assms(2) show ?thesis by simp
  next
    case (Some x)
    with latest_unique [of key xs x] latest_unique [of key ys x] assms show ?thesis by simp
  qed
  moreover have "y = x \<or> compare (key x) (key y) > 0" if "latest key xs = Some x" "y \<in> set xs" for x y
  proof -
    have "compare (key x) (key y) \<noteq> 0 \<or> y = x"
      using assms(1) latest_SomeD(1) [OF that(1)] that(2) by (auto simp: compare_0 dest: inj_onD)
    with latest_SomeD(2) [OF that] show ?thesis by auto
  qed
  ultimately show ?thesis by (blast dest: latest_SomeD)
qed

theorem latest_any_order_witness:
  "latest id [(7, [2]), (7, [1]), (5, [0])] = latest id [(5, [0 :: byte]), (7, [1]), (7 :: nat, [2])] \<and>
   latest id [(7, [2]), (7, [1]), (5, [0])] = Some (7 :: nat, [1 :: byte])"
proof -
  have "latest id [(7, [2]), (7, [1]), (5, [0])] = latest id [(5, [0 :: byte]), (7, [1]), (7 :: nat, [2])]"
    by (rule conjunct1 [OF latest_any_order]) auto
  moreover have "latest id [(7, [2]), (7, [1]), (5, [0])] = Some (7 :: nat, [1 :: byte])"
    by (simp add: latest_def compare_def)
  ultimately show ?thesis by simp
qed

section \<open>The write limit\<close>

record limit =
  lm_records :: nat
  lm_periodMs :: nat

text \<open>What is known of a block: its stamp, that it was wiped, or nothing yet.\<close>

datatype block_stamp = Stamp nat | Wiped | Missing

datatype verdict = Ok | Over | Wait

text \<open>The loops, from block \<open>i\<close> up to \<open>seq\<close>.\<close>

function judge_from :: "nat \<Rightarrow> nat \<Rightarrow> (nat \<Rightarrow> block_stamp) \<Rightarrow> nat \<Rightarrow> nat \<Rightarrow> verdict" where
  "judge_from period stamp blk seq i =
     (if i < seq then (case blk i of Missing \<Rightarrow> Wait
         | Wiped \<Rightarrow> judge_from period stamp blk seq (Suc i)
         | Stamp s \<Rightarrow> if int stamp - int s \<ge> int period then Ok else Over)
      else Over)"
  by pat_completeness auto
termination by (relation "measure (\<lambda>(p, st, blk, seq, i). seq - i)") auto

definition judge :: "nat \<Rightarrow> nat \<Rightarrow> limit option \<Rightarrow> (nat \<Rightarrow> block_stamp) \<Rightarrow> verdict" where
  "judge seq stamp rate blk = (case rate of None \<Rightarrow> Ok
     | Some l \<Rightarrow> if seq \<le> lm_records l then Ok
                else judge_from (lm_periodMs l) stamp blk seq (seq - lm_records l))"

function allowed_from :: "nat \<Rightarrow> nat \<Rightarrow> (nat \<Rightarrow> block_stamp) \<Rightarrow> nat \<Rightarrow> nat \<Rightarrow> enat" where
  "allowed_from period stamp blk seq i =
     (if i < seq then (case blk i of
           Stamp s \<Rightarrow> if int stamp - int s \<ge> int period then 0 else enat (s + period)
         | _ \<Rightarrow> allowed_from period stamp blk seq (Suc i))
      else \<infinity>)"
  by pat_completeness auto
termination by (relation "measure (\<lambda>(p, st, blk, seq, i). seq - i)") auto

definition nextAllowed :: "nat \<Rightarrow> nat \<Rightarrow> limit option \<Rightarrow> (nat \<Rightarrow> block_stamp) \<Rightarrow> enat" where
  "nextAllowed seq stamp rate blk = (case rate of None \<Rightarrow> 0
     | Some l \<Rightarrow> if seq \<le> lm_records l then 0
                else allowed_from (lm_periodMs l) stamp blk seq (seq - lm_records l))"

declare judge_from.simps [simp del] allowed_from.simps [simp del]

text \<open>What a judgment looks at: the first block of the window that is not wiped.\<close>

lemma judge_from_Ok:
  "judge_from p st blk seq i = Ok \<longleftrightarrow>
     (\<exists>j s. i \<le> j \<and> j < seq \<and> blk j = Stamp s \<and> (\<forall>k. i \<le> k \<longrightarrow> k < j \<longrightarrow> blk k = Wiped) \<and> s + p \<le> st)"
proof (induction p st blk seq i rule: judge_from.induct)
  case (1 p st blk seq i)
  have first: "(\<exists>j s. i \<le> j \<and> j < seq \<and> blk j = Stamp s \<and> (\<forall>k. i \<le> k \<longrightarrow> k < j \<longrightarrow> blk k = Wiped) \<and> s + p \<le> st) \<longleftrightarrow>
     i < seq \<and> (\<exists>s. blk i = Stamp s \<and> s + p \<le> st) \<or> blk i = Wiped \<and>
     (\<exists>j s. Suc i \<le> j \<and> j < seq \<and> blk j = Stamp s \<and> (\<forall>k. Suc i \<le> k \<longrightarrow> k < j \<longrightarrow> blk k = Wiped) \<and> s + p \<le> st)"
    (is "?L \<longleftrightarrow> ?R")
  proof
    assume ?L
    then obtain j s where j: "i \<le> j" "j < seq" "blk j = Stamp s" "\<forall>k. i \<le> k \<longrightarrow> k < j \<longrightarrow> blk k = Wiped" "s + p \<le> st" by blast
    show ?R
    proof (cases "j = i")
      case True with j show ?thesis by auto
    next
      case False with j have "Suc i \<le> j" "blk i = Wiped" by auto
      with j show ?thesis by (meson Suc_leD)
    qed
  next
    assume ?R
    then show ?L by (metis Suc_leD Suc_leI le_eq_less_or_eq le_refl not_less)
  qed
  show ?case
  proof (cases "i < seq")
    case True
    with 1 show ?thesis by (subst judge_from.simps, subst first) (auto split: block_stamp.split)
  next
    case False
    then show ?thesis by (subst judge_from.simps) auto
  qed
qed

lemma judge_Ok:
  "judge seq st (Some l) blk = Ok \<longleftrightarrow> seq \<le> lm_records l \<or>
     (\<exists>j s. seq - lm_records l \<le> j \<and> j < seq \<and> blk j = Stamp s \<and>
        (\<forall>k. seq - lm_records l \<le> k \<longrightarrow> k < j \<longrightarrow> blk k = Wiped) \<and> s + lm_periodMs l \<le> st)"
  by (simp add: judge_def judge_from_Ok)

text \<open>C25: What a write limit bounds, in a log of any stamps \<open>st\<close>, for any reader, who judges record \<open>i\<close> by what it
  has of the other blocks then (\<open>rd i\<close>: their stamps, wiped, or missing). A record that counts beyond the first
  \<open>records\<close> is stamped a period or more after the first of the \<open>records\<close> blocks before it that is not wiped. And where
  the stamps of the log do not go back, which readers do not require, at most \<open>records\<close> of the records that count
  are in any one period, whatever was refused, wiped or missing.\<close>

theorem limit_bounds_rate:
  assumes "\<And>i j. rd i j \<in> {Stamp (st j), Wiped, Missing}"
  shows "(\<forall>i. judge i (st i) (Some l) (rd i) = Ok \<longrightarrow> lm_records l < i \<longrightarrow>
      (\<exists>j \<in> {i - lm_records l..<i}. rd i j = Stamp (st j) \<and> (\<forall>k \<in> {i - lm_records l..<j}. rd i k = Wiped) \<and> st j + lm_periodMs l \<le> st i)) \<and>
    ((\<forall>i j. 1 \<le> i \<longrightarrow> i \<le> j \<longrightarrow> j < n \<longrightarrow> st i \<le> st j) \<longrightarrow>
      card {i \<in> {1..<n}. judge i (st i) (Some l) (rd i) = Ok \<and> t \<le> st i \<and> st i < t + lm_periodMs l} \<le> lm_records l)"
proof -
  let ?ok = "\<lambda>i. judge i (st i) (Some l) (rd i) = Ok"
  have before: "\<exists>j \<in> {i - lm_records l..<i}. rd i j = Stamp (st j) \<and> (\<forall>k \<in> {i - lm_records l..<j}. rd i k = Wiped) \<and> st j + lm_periodMs l \<le> st i"
    if "?ok i" "lm_records l < i" for i
  proof -
    from that obtain j x where j: "i - lm_records l \<le> j" "j < i" "rd i j = Stamp x" "x + lm_periodMs l \<le> st i"
      "\<forall>k. i - lm_records l \<le> k \<longrightarrow> k < j \<longrightarrow> rd i k = Wiped" by (auto simp: judge_Ok)
    with assms [of i j] have "x = st j" by simp
    with j show ?thesis by auto
  qed
  define W where "W = {i \<in> {1..<n}. ?ok i \<and> t \<le> st i \<and> st i < t + lm_periodMs l}"
  have "card W \<le> lm_records l" if mono: "\<forall>i j. 1 \<le> i \<longrightarrow> i \<le> j \<longrightarrow> j < n \<longrightarrow> st i \<le> st j"
  proof (rule ccontr)
    assume "\<not> card W \<le> lm_records l"
    then have card: "lm_records l < card W" by simp
    have fin: "finite W" by (simp add: W_def)
    have W: "W \<noteq> {}" using card by auto
    define a b where "a = Min W" and "b = Max W"
    have ab: "a \<in> W" "b \<in> W" "W \<subseteq> {a..b}" using fin W by (auto simp: a_def b_def)
    have "card W \<le> Suc b - a" using card_mono [OF _ ab(3)] by simp
    with card have far: "a + lm_records l \<le> b" by linarith
    have in_log: "1 \<le> a" "b < n" "?ok b" using ab(1,2) by (simp_all add: W_def)
    from before [OF in_log(3)] far in_log(1) obtain j where j: "b - lm_records l \<le> j" "j < b" "st j + lm_periodMs l \<le> st b" by auto
    have "st a \<le> st j" using mono far j(1,2) in_log by simp
    with j(3) ab(1,2) show False by (simp add: W_def)
  qed
  with before show ?thesis unfolding W_def by blast
qed

text \<open>Records stamped 60 apart, at most 2 in 100, with block 1 wiped before block 3 is judged.\<close>

theorem limit_bounds_rate_witness:
  "card {i \<in> {1..<4}. judge i (60 * i) (Some \<lparr>lm_records = 2, lm_periodMs = 100\<rparr>) (\<lambda>j. if i = 3 \<and> j = 1 then Wiped else Stamp (60 * j)) = Ok \<and>
     0 \<le> 60 * i \<and> 60 * i < 0 + lm_periodMs \<lparr>lm_records = 2, lm_periodMs = 100\<rparr>} \<le> 2"
  using limit_bounds_rate [of "\<lambda>i j. if i = 3 \<and> j = 1 then Wiped else Stamp (60 * j)" "\<lambda>i. 60 * i" "\<lparr>lm_records = 2, lm_periodMs = 100\<rparr>" 4 0]
  by auto

text \<open>Stamps that go back: with one record per 100 milliseconds, of records stamped 1000, 0 and 1050 the first and the third count.\<close>

lemma backdated_exceeds_rate:
  "let st = (\<lambda>i. if i = 1 then 1000 else if i = 2 then 0 else 1050); l = \<lparr>lm_records = 1, lm_periodMs = 100\<rparr>
   in judge 1 (st 1) (Some l) (\<lambda>j. Stamp (st j)) = Ok \<and> judge 3 (st 3) (Some l) (\<lambda>j. Stamp (st j)) = Ok \<and> st 3 < st 1 + lm_periodMs l"
  by code_simp

text \<open>Deleting earlier records makes no room, as long as stamps do not go back; the comment at the
  head of lib/limit.js says so of every log, but a record stamped earlier than one before it is
  room once that one is deleted.\<close>

lemma wiping_frees_no_room:
  assumes "judge seq st (Some l) blk' = Ok"
    "\<And>i. blk' i = blk i \<or> blk' i = Wiped" "\<And>i. i < seq \<Longrightarrow> blk i \<noteq> Missing"
    "\<And>i j x y. i \<le> j \<Longrightarrow> blk i = Stamp x \<Longrightarrow> blk j = Stamp y \<Longrightarrow> x \<le> y"
  shows "judge seq st (Some l) blk = Ok"
proof (cases "seq \<le> lm_records l")
  case False
  with assms(1) obtain j y where j: "seq - lm_records l \<le> j" "j < seq" "blk' j = Stamp y" "y + lm_periodMs l \<le> st"
    by (auto simp: judge_Ok)
  have y: "blk j = Stamp y" using assms(2) [of j] j(3) by auto
  define i where "i = (LEAST i. seq - lm_records l \<le> i \<and> (\<exists>x. blk i = Stamp x))"
  have ex: "seq - lm_records l \<le> j \<and> (\<exists>x. blk j = Stamp x)" using j(1) y by blast
  from LeastI [of "\<lambda>i. seq - lm_records l \<le> i \<and> (\<exists>x. blk i = Stamp x)", OF ex] obtain x
    where x: "seq - lm_records l \<le> i" "blk i = Stamp x" by (auto simp: i_def)
  have le: "i \<le> j" unfolding i_def using ex by (rule Least_le)
  have "blk k = Wiped" if "seq - lm_records l \<le> k" "k < i" for k
    using not_less_Least [of k "\<lambda>i. seq - lm_records l \<le> i \<and> (\<exists>x. blk i = Stamp x)"] that assms(3) [of k] le j(2)
    by (cases "blk k") (auto simp: i_def)
  moreover have "x \<le> y" by (rule assms(4) [OF le x(2) y])
  ultimately show ?thesis unfolding judge_Ok using x le j(2,4) by (meson add_right_mono le_less_trans order_trans)
qed (simp add: judge_def)

lemma backdated_frees_room:
  "judge 3 101 (Some \<lparr>lm_records = 2, lm_periodMs = 50\<rparr>) (\<lambda>i. if i = 1 then Stamp 100 else Stamp 0) = Over \<and>
   judge 3 101 (Some \<lparr>lm_records = 2, lm_periodMs = 50\<rparr>) (\<lambda>i. if i = 1 then Wiped else Stamp 0) = Ok"
  by code_simp

text \<open>\<open>nextAllowed\<close> is when \<open>judge\<close> stops refusing, when every block of the window is known.\<close>

lemma allowed_from_judge:
  assumes "\<And>k. i \<le> k \<Longrightarrow> k < seq \<Longrightarrow> blk k \<noteq> Missing" "st \<le> t"
  shows "allowed_from p st blk seq i \<le> enat t \<longleftrightarrow> judge_from p t blk seq i = Ok"
  using assms
proof (induction p st blk seq i rule: allowed_from.induct)
  case (1 p st blk seq i)
  then show ?case
    by (subst allowed_from.simps, subst judge_from.simps) (auto split: block_stamp.split)
qed

lemma next_allowed_exact:
  assumes "\<And>k. k < seq \<Longrightarrow> blk k \<noteq> Missing" "st \<le> t"
  shows "nextAllowed seq st rate blk \<le> enat t \<longleftrightarrow> judge seq t rate blk = Ok"
  using assms allowed_from_judge by (auto simp: nextAllowed_def judge_def split: option.split)

end
