(* ===== verification/Activity.thy ===== *)
theory Activity
  imports Stamps
begin

text \<open>
  Activity entries (lib/activity.js): "block \<open>start\<close> of this log is its first record stamped in
  \<open>period\<close> or later", derived from a log's blocks as they are read (\<open>derive\<close>) and checked against
  them by whoever receives one (\<open>checkEntry\<close>); and the entries that wait for their check, of which
  one is kept per log and period (\<open>wait_entry\<close>). Sending, fetching and keeping them is I/O.
\<close>

definition PERIOD_MS :: nat where "PERIOD_MS = 60 * 60 * 1000"

definition periodOf :: "nat \<Rightarrow> int" where "periodOf stamp = int (stamp div PERIOD_MS)"

type_synonym entry = "int \<times> nat" \<comment> \<open>a period and the block it starts at\<close>

record derived =
  dv_entries :: "entry list"
  dv_next :: nat
  dv_last :: nat
  dv_period :: int \<comment> \<open>\<open>-1\<close> for the header\<close>

text \<open>The loop of \<open>derive\<close>; it stops at a block that is not held.\<close>

function derive_from :: "(nat \<Rightarrow> block_stamp) \<Rightarrow> nat \<Rightarrow> derived \<Rightarrow> derived" where
  "derive_from blk end_at d =
     (if dv_next d < end_at then
        (case blk (dv_next d) of
           Missing \<Rightarrow> d
         | Wiped \<Rightarrow> derive_from blk end_at (d\<lparr>dv_next := Suc (dv_next d)\<rparr>)
         | Stamp s \<Rightarrow>
             derive_from blk end_at
               (if periodOf s > dv_period d
                then \<lparr>dv_entries = dv_entries d @ [(periodOf s, dv_last d + 1)], dv_next = Suc (dv_next d),
                      dv_last = dv_next d, dv_period = periodOf s\<rparr>
                else d\<lparr>dv_next := Suc (dv_next d), dv_last := dv_next d\<rparr>))
      else d)"
  by pat_completeness auto
termination by (relation "measure (\<lambda>(blk, e, d). e - dv_next d)") auto

declare derive_from.simps [simp del]

definition derive :: "(nat \<Rightarrow> block_stamp) \<Rightarrow> nat \<Rightarrow> nat \<Rightarrow> nat \<Rightarrow> int \<Rightarrow> derived" where
  "derive blk first end_at prev period =
     derive_from blk end_at \<lparr>dv_entries = [], dv_next = first, dv_last = prev, dv_period = period\<rparr>"

datatype check = CheckOk | CheckFalse | CheckWait

text \<open>\<open>limit\<close>: the log's cut, \<open>\<infinity>\<close> for none. \<open>before\<close> is what is known of the block before the start.\<close>

definition checkEntry :: "entry \<Rightarrow> block_stamp \<Rightarrow> block_stamp \<Rightarrow> enat \<Rightarrow> check" where
  "checkEntry e before here limit =
     (let (period, start) = e
      in if \<not> start \<ge> 1 \<or> enat start \<ge> limit then CheckFalse
         else if start > 1 \<and> before = Wiped then CheckFalse
         else if start > 1 \<and> before = Missing then CheckWait
         else if start > 1 \<and> (case before of Stamp s \<Rightarrow> periodOf s \<ge> period | _ \<Rightarrow> False) then CheckFalse
         else (case here of Stamp s \<Rightarrow> if periodOf s \<ge> period then CheckOk else CheckFalse | _ \<Rightarrow> CheckOk))"

section \<open>Entries waiting for their check\<close>

definition MAX_WAITING :: nat where "MAX_WAITING = 1000"

record waiting =
  wt_entries :: "(string \<times> int \<times> nat) list" \<comment> \<open>log, period, start\<close>
  wt_reached :: enat \<comment> \<open>the lists are whole from this period; \<open>\<infinity>\<close>: not known\<close>

definition wait_entry :: "string \<Rightarrow> int \<Rightarrow> nat \<Rightarrow> waiting \<Rightarrow> waiting" where
  "wait_entry lg period start w =
     (case find (\<lambda>(l, p, s). l = lg \<and> p = period) (wt_entries w) of
        Some (l, p, s) \<Rightarrow>
          if start < s
          then w\<lparr>wt_entries := map (\<lambda>e. if fst e = lg \<and> fst (snd e) = period then (lg, period, start) else e) (wt_entries w)\<rparr>
          else w
      | None \<Rightarrow>
          if length (wt_entries w) < MAX_WAITING then w\<lparr>wt_entries := wt_entries w @ [(lg, period, start)]\<rparr>
          else w\<lparr>wt_reached := \<infinity>\<rparr>)"

section \<open>What the entries say\<close>

text \<open>Where a derivation stands, from \<open>first\<close> on and with highest period \<open>period\<close> at its start.\<close>

definition derives :: "(nat \<Rightarrow> block_stamp) \<Rightarrow> nat \<Rightarrow> int \<Rightarrow> derived \<Rightarrow> bool" where
  "derives blk first period d \<longleftrightarrow>
     dv_last d < dv_next d
     \<and> (dv_last d = 0 \<or> (\<exists>s. blk (dv_last d) = Stamp s \<and> periodOf s \<le> dv_period d))
     \<and> (\<forall>i. dv_last d < i \<and> i < dv_next d \<longrightarrow> blk i = Wiped)
     \<and> (dv_period d = period \<or> (\<exists>e\<in>set (dv_entries d). fst e = dv_period d \<and> snd e \<le> dv_next d))
     \<and> (\<forall>e\<in>set (dv_entries d). 1 \<le> snd e
          \<and> (snd e = 1 \<or> (\<exists>s. blk (snd e - 1) = Stamp s \<and> periodOf s < fst e))
          \<and> (blk (snd e) = Wiped \<or> (\<exists>s. blk (snd e) = Stamp s \<and> periodOf s \<ge> fst e)))
     \<and> (\<forall>P i s. period < P \<and> first \<le> i \<and> i < dv_next d \<and> blk i = Stamp s \<and> P \<le> periodOf s \<longrightarrow>
          (\<exists>e\<in>set (dv_entries d). P \<le> fst e \<and> snd e \<le> i))"

lemma derivesD:
  assumes "derives blk first period d"
  shows "dv_last d < dv_next d"
    "dv_last d = 0 \<or> (\<exists>s. blk (dv_last d) = Stamp s \<and> periodOf s \<le> dv_period d)"
    "\<And>i. dv_last d < i \<Longrightarrow> i < dv_next d \<Longrightarrow> blk i = Wiped"
    "dv_period d = period \<or> (\<exists>e\<in>set (dv_entries d). fst e = dv_period d \<and> snd e \<le> dv_next d)"
    "\<And>e. e \<in> set (dv_entries d) \<Longrightarrow> 1 \<le> snd e \<and> (snd e = 1 \<or> (\<exists>s. blk (snd e - 1) = Stamp s \<and> periodOf s < fst e))
        \<and> (blk (snd e) = Wiped \<or> (\<exists>s. blk (snd e) = Stamp s \<and> periodOf s \<ge> fst e))"
    "\<And>P i s. period < P \<Longrightarrow> first \<le> i \<Longrightarrow> i < dv_next d \<Longrightarrow> blk i = Stamp s \<Longrightarrow> P \<le> periodOf s \<Longrightarrow>
        \<exists>e\<in>set (dv_entries d). P \<le> fst e \<and> snd e \<le> i"
  using assms unfolding derives_def by blast+

lemma derives_wiped:
  assumes "derives blk first period d" "blk (dv_next d) = Wiped"
  shows "derives blk first period (d\<lparr>dv_next := Suc (dv_next d)\<rparr>)"
  unfolding derives_def
proof (intro conjI allI ballI impI)
  note D = derivesD [OF assms(1)]
  fix i assume "dv_last (d\<lparr>dv_next := Suc (dv_next d)\<rparr>) < i \<and> i < dv_next (d\<lparr>dv_next := Suc (dv_next d)\<rparr>)"
  then show "blk i = Wiped" using D(3) assms(2) by (cases "i = dv_next d") auto
next
  note D = derivesD [OF assms(1)]
  fix P i s assume "period < P \<and> first \<le> i \<and> i < dv_next (d\<lparr>dv_next := Suc (dv_next d)\<rparr>) \<and> blk i = Stamp s \<and> P \<le> periodOf s"
  then show "\<exists>e\<in>set (dv_entries (d\<lparr>dv_next := Suc (dv_next d)\<rparr>)). P \<le> fst e \<and> snd e \<le> i"
    using D(6) [of P i s] assms(2) by (cases "i = dv_next d") auto
qed (use derivesD [OF assms(1)] in \<open>auto intro: le_SucI\<close>)

lemma derives_same:
  assumes "derives blk first period d" "blk (dv_next d) = Stamp s" "periodOf s \<le> dv_period d"
  shows "derives blk first period (d\<lparr>dv_next := Suc (dv_next d), dv_last := dv_next d\<rparr>)"
  unfolding derives_def
proof (intro conjI allI ballI impI)
  note D = derivesD [OF assms(1)]
  fix P i y assume i: "period < P \<and> first \<le> i \<and> i < dv_next (d\<lparr>dv_next := Suc (dv_next d), dv_last := dv_next d\<rparr>) \<and> blk i = Stamp y \<and> P \<le> periodOf y"
  then show "\<exists>e\<in>set (dv_entries (d\<lparr>dv_next := Suc (dv_next d), dv_last := dv_next d\<rparr>)). P \<le> fst e \<and> snd e \<le> i"
    using D(6) [of P i y] D(4) assms(2,3) by (cases "i = dv_next d") force+
qed (use derivesD [OF assms(1)] assms(2,3) in \<open>auto intro: le_SucI\<close>)

lemma derives_later:
  assumes "derives blk first period d" "blk (dv_next d) = Stamp s" "periodOf s > dv_period d"
  shows "derives blk first period \<lparr>dv_entries = dv_entries d @ [(periodOf s, dv_last d + 1)], dv_next = Suc (dv_next d),
     dv_last = dv_next d, dv_period = periodOf s\<rparr>" (is "derives blk first period ?d")
  unfolding derives_def
proof (intro conjI allI ballI impI)
  note D = derivesD [OF assms(1)]
  fix e assume "e \<in> set (dv_entries ?d)"
  then consider "e \<in> set (dv_entries d)" | "e = (periodOf s, dv_last d + 1)" by auto
  note cases = this
  show "1 \<le> snd e" using cases D(5) by cases auto
  show "snd e = 1 \<or> (\<exists>s. blk (snd e - 1) = Stamp s \<and> periodOf s < fst e)"
    using cases D(2,5) assms(3) by cases auto
  show "blk (snd e) = Wiped \<or> (\<exists>s. blk (snd e) = Stamp s \<and> fst e \<le> periodOf s)"
    using cases
  proof cases
    case 1 with D(5) show ?thesis by auto
  next
    case 2
    then show ?thesis using D(1) D(3) [of "dv_last d + 1"] assms(2) by (cases "dv_last d + 1 = dv_next d") auto
  qed
next
  note D = derivesD [OF assms(1)]
  fix P i y assume i: "period < P \<and> first \<le> i \<and> i < dv_next ?d \<and> blk i = Stamp y \<and> P \<le> periodOf y"
  then show "\<exists>e\<in>set (dv_entries ?d). P \<le> fst e \<and> snd e \<le> i"
    using D(1) D(6) [of P i y] assms(2) by (cases "i = dv_next d") auto
qed (use derivesD(1) [OF assms(1)] assms(2) in \<open>auto\<close>)

lemma derive_from_derives: "derives blk first period d \<Longrightarrow> derives blk first period (derive_from blk end_at d)"
proof (induction blk end_at d rule: derive_from.induct)
  case (1 blk end_at d)
  show ?case
  proof (cases "dv_next d < end_at")
    case True
    note more = this
    show ?thesis
    proof (cases "blk (dv_next d)")
      case (Stamp s)
      with 1 True derives_same [OF "1.prems" Stamp] derives_later [OF "1.prems" Stamp] show ?thesis
        by (subst derive_from.simps) auto
    next
      case Wiped
      with 1 True derives_wiped [OF "1.prems" Wiped] show ?thesis by (subst derive_from.simps) simp
    next
      case Missing
      with 1 True show ?thesis by (subst derive_from.simps) simp
    qed
  next
    case False
    with 1 show ?thesis by (subst derive_from.simps) simp
  qed
qed

lemma derive_from_next: "dv_next d \<le> dv_next (derive_from blk end_at d)"
proof (induction blk end_at d rule: derive_from.induct)
  case (1 blk end_at d)
  show ?case by (subst derive_from.simps) (use 1 in \<open>auto split: block_stamp.split\<close>)
qed

text \<open>Going on from where a derivation stopped is deriving in one go.\<close>

lemma derive_resume:
  "e1 \<le> e2 \<Longrightarrow> derive_from blk e2 (derive_from blk e1 d) = derive_from blk e2 d"
proof (induction blk e1 d rule: derive_from.induct)
  case (1 blk e1 d)
  show ?case
  proof (cases "dv_next d < e1 \<and> blk (dv_next d) \<noteq> Missing")
    case True
    then obtain d' where step: "\<And>e. dv_next d < e \<Longrightarrow> derive_from blk e d = derive_from blk e d'"
      and d': "derive_from blk e2 (derive_from blk e1 d') = derive_from blk e2 d'"
    proof (cases "blk (dv_next d)")
      case (Stamp s)
      show thesis by (rule that [OF _ "1.IH"(1) [OF _ Stamp "1.prems"]])
        (use True Stamp in \<open>simp_all add: derive_from.simps [of blk _ d]\<close>)
    next
      case Wiped
      show thesis by (rule that [OF _ "1.IH"(2) [OF _ Wiped "1.prems"]])
        (use True Wiped in \<open>simp_all add: derive_from.simps [of blk _ d]\<close>)
    qed simp
    from True "1.prems" have "dv_next d < e1" "dv_next d < e2" by simp_all
    with step d' show ?thesis by simp
  next
    case False
    then have "derive_from blk e1 d = d" by (subst derive_from.simps) auto
    then show ?thesis by simp
  qed
qed

lemma checkEntry_verdict:
  assumes "1 \<le> start" "start = 1 \<or> before \<in> {Stamp x, Wiped, Missing} \<and> periodOf x < p" "here \<in> {Stamp y, Wiped, Missing}"
  shows "checkEntry (p, start) before here limit =
    (if limit \<le> enat start then CheckFalse
     else if 1 < start \<and> before = Wiped then CheckFalse
     else if 1 < start \<and> before = Missing then CheckWait
     else if here = Stamp y \<and> periodOf y < p then CheckFalse
     else CheckOk)"
  using assms by (cases "start = 1"; cases before; cases here) (simp_all add: checkEntry_def not_le [symmetric] del: not_le)

text \<open>C26: What the entries derived from a log are worth to any reader, where \<open>st\<close> are the stamps the log's blocks were
  written with, and the deriver (\<open>blk\<close>) and the reader (\<open>rd\<close>) each have some of them, know some to be wiped and miss
  others. The reader accepts a derived entry unless its start is beyond the cut the reader has of the log, the block
  before its start is wiped for the reader (refused) or missing (it waits), or the reader still holds at its start a
  block of an earlier period that the deriver knows to be wiped (refused). And the entries leave nothing out: whoever
  reads from the first entry of the periods from \<open>P\<close> on meets every block the deriver has that is stamped in them.\<close>

theorem derived_entries_true:
  assumes "prev < first" "prev = 0 \<or> (\<exists>s. blk prev = Stamp s \<and> periodOf s \<le> period)"
    "\<And>i. prev < i \<Longrightarrow> i < first \<Longrightarrow> blk i = Wiped" "d = derive blk first end_at prev period"
    "\<And>i. blk i \<in> {Stamp (st i), Wiped, Missing}" "\<And>i. rd i \<in> {Stamp (st i), Wiped, Missing}"
  shows "(\<forall>(p, start)\<in>set (dv_entries d). checkEntry (p, start) (rd (start - 1)) (rd start) limit =
      (if limit \<le> enat start then CheckFalse
       else if 1 < start \<and> rd (start - 1) = Wiped then CheckFalse
       else if 1 < start \<and> rd (start - 1) = Missing then CheckWait
       else if blk start = Wiped \<and> rd start = Stamp (st start) \<and> periodOf (st start) < p then CheckFalse
       else CheckOk)) \<and>
    (\<forall>P i s. period < P \<longrightarrow> first \<le> i \<longrightarrow> i < dv_next d \<longrightarrow> blk i = Stamp s \<longrightarrow> P \<le> periodOf s \<longrightarrow>
       (\<exists>(p, start)\<in>set (dv_entries d). P \<le> p \<and> start \<le> i))"
proof -
  have "derives blk first period \<lparr>dv_entries = [], dv_next = first, dv_last = prev, dv_period = period\<rparr>"
    using assms(1-3) by (auto simp: derives_def)
  note D = derivesD(5,6) [OF derive_from_derives [OF this, of end_at]]
  have "checkEntry (p, start) (rd (start - 1)) (rd start) limit =
      (if limit \<le> enat start then CheckFalse
       else if 1 < start \<and> rd (start - 1) = Wiped then CheckFalse
       else if 1 < start \<and> rd (start - 1) = Missing then CheckWait
       else if blk start = Wiped \<and> rd start = Stamp (st start) \<and> periodOf (st start) < p then CheckFalse
       else CheckOk)" if e: "(p, start) \<in> set (dv_entries d)" for p start
  proof -
    from D(1) [of "(p, start)"] e have b: "1 \<le> start" "start = 1 \<or> (\<exists>s. blk (start - 1) = Stamp s \<and> periodOf s < p)"
      and h: "blk start = Wiped \<or> (\<exists>s. blk start = Stamp s \<and> periodOf s \<ge> p)" by (simp_all add: assms(4) derive_def)
    have "start = 1 \<or> rd (start - 1) \<in> {Stamp (st (start - 1)), Wiped, Missing} \<and> periodOf (st (start - 1)) < p"
      using b(2) assms(5) [of "start - 1"] assms(6) [of "start - 1"] by fastforce
    from checkEntry_verdict [OF b(1) this assms(6)]
    have v: "checkEntry (p, start) (rd (start - 1)) (rd start) limit =
      (if limit \<le> enat start then CheckFalse
       else if 1 < start \<and> rd (start - 1) = Wiped then CheckFalse
       else if 1 < start \<and> rd (start - 1) = Missing then CheckWait
       else if rd start = Stamp (st start) \<and> periodOf (st start) < p then CheckFalse
       else CheckOk)" .
    have "blk start = Wiped \<or> \<not> periodOf (st start) < p" using h assms(5) [of start] by fastforce
    then show ?thesis unfolding v by (cases "blk start = Wiped") simp_all
  qed
  moreover have "\<exists>(p, start)\<in>set (dv_entries d). P \<le> p \<and> start \<le> i"
    if "period < P" "first \<le> i" "i < dv_next d" "blk i = Stamp s" "P \<le> periodOf s" for P i s
    using D(2) that unfolding assms(4) derive_def by fastforce
  ultimately show ?thesis by blast
qed

text \<open>A reader of the log of the example whose block before the start of the last entry is missing.\<close>

theorem derived_entries_true_witness:
  "dv_entries (derive (\<lambda>i. if i = 2 then Wiped else Stamp (1800000 * i)) 1 5 0 (-1)) = [(0, 1), (1, 2), (2, 4)] \<and>
   checkEntry (2, 4) Missing (Stamp (1800000 * 4)) 9 = CheckWait"
proof -
  define blk where "blk = (\<lambda>i. if i = 2 then Wiped else Stamp (1800000 * i))"
  define rd where "rd = (\<lambda>i :: nat. if i = 3 then Missing else Stamp (1800000 * i))"
  have d: "dv_entries (derive blk 1 5 0 (-1)) = [(0, 1), (1, 2), (2, 4)]"
    by (simp add: derive_def derive_from.simps blk_def periodOf_def PERIOD_MS_def)
  have "\<forall>(p, start)\<in>set (dv_entries (derive blk 1 5 0 (-1))). checkEntry (p, start) (rd (start - 1)) (rd start) 9 =
      (if 9 \<le> enat start then CheckFalse
       else if 1 < start \<and> rd (start - 1) = Wiped then CheckFalse
       else if 1 < start \<and> rd (start - 1) = Missing then CheckWait
       else if blk start = Wiped \<and> rd start = Stamp (1800000 * start) \<and> periodOf (1800000 * start) < p then CheckFalse
       else CheckOk)"
    by (rule conjunct1 [OF derived_entries_true [OF _ _ _ refl]]) (auto simp: blk_def rd_def)
  with d have "checkEntry (2, 4) (rd (4 - 1)) (rd 4) 9 = CheckWait" by (simp add: rd_def blk_def numeral_eq_enat)
  with d show ?thesis by (simp add: blk_def rd_def)
qed

text \<open>Block 2 is of the first period; its author deleted it, and then wrote block 3 in the next period. Who knows of the
  delete says the next period starts at block 2, and who still holds block 2 refuses that.\<close>

lemma deleted_start_refused:
  "dv_entries (derive (\<lambda>i. if i = 2 then Wiped else Stamp (if i = 3 then 3600000 else 0)) 1 4 0 (-1)) = [(0, 1), (1, 2)]"
  "checkEntry (1, 2) (Stamp 0) (Stamp 0) \<infinity> = CheckFalse"
  by (simp_all add: derive_def derive_from.simps periodOf_def PERIOD_MS_def checkEntry_def)

end
