(* ===== verification/Ranges.thy ===== *)
theory Ranges
  imports Stamps
begin

text \<open>
  Key ranges (lib/ranges.js, the functions and class Keys): the log keys a peer holds, sorted, with
  their lengths, and the count and digest of any range of them. A range is a prefix of \<open>bits\<close> bits, a
  multiple of 4. \<open>item\<close> stands for the hash of a key and its length (hypercore-crypto), an argument
  of what uses it. \<open>keys_ok\<close> is the invariant of Keys, kept by its operations; the interpretation
  \<open>peer\<close> of the locale \<open>key_set\<close> at the end states what Keys is as a set of keys: what the sessions of theory
  Sessions rest on.
\<close>

unbundle bit_operations_syntax

definition PARTS :: nat where "PARTS = 16"
definition FEW :: nat where "FEW = 32"
definition CHUNK :: nat where "CHUNK = 1000"
definition MAX_BITS :: nat where "MAX_BITS = 252"

definition nibble :: "bytes \<Rightarrow> nat \<Rightarrow> nat" where
  "nibble key b = (unat (key ! (b div 8)) div (if b mod 8 = 0 then 16 else 1)) mod 16"

definition bound :: "bytes \<Rightarrow> nat \<Rightarrow> byte \<Rightarrow> bytes" where
  "bound prefix bits fill =
     (let whole = bits div 8;
          out = take whole prefix @ replicate (32 - whole) fill
      in if bits mod 8 \<noteq> 0 then out[whole := (prefix ! whole AND 0xf0) OR (fill AND 0x0f)] else out)"

definition child :: "bytes \<Rightarrow> nat \<Rightarrow> nat \<Rightarrow> bytes" where
  "child prefix bits i =
     (let n = (bits + 4 + 7) div 8;
          out = take n prefix @ replicate (n - length prefix) 0
      in if bits mod 8 = 0 then out[bits div 8 := push_bit 4 (of_nat i)]
         else out[bits div 8 := (out ! (bits div 8) AND 0xf0) OR of_nat i])"

definition in_range :: "bytes \<Rightarrow> bytes \<Rightarrow> nat \<Rightarrow> bool" where
  "in_range key prefix bits \<longleftrightarrow> list_all (\<lambda>b. nibble key b = nibble prefix b) (filter (\<lambda>b. b mod 4 = 0) [0..<bits])"

text \<open>A range a message may name (\<open>valid\<close>).\<close>

definition valid_range :: "bytes \<Rightarrow> nat \<Rightarrow> bool" where
  "valid_range prefix bits \<longleftrightarrow> bits \<le> MAX_BITS \<and> bits mod 4 = 0 \<and> length prefix \<ge> (bits + 7) div 8"

definition tag :: "bytes \<Rightarrow> nat \<Rightarrow> nat \<times> string" where
  "tag prefix bits = (bits, hex (take ((bits + 7) div 8) prefix))"

definition xor_bytes :: "bytes \<Rightarrow> bytes \<Rightarrow> bytes" where
  "xor_bytes a b = map2 (XOR) a b"

definition zero32 :: bytes where "zero32 = replicate 32 0"

section \<open>The keys held\<close>

type_synonym item = "bytes \<Rightarrow> nat \<Rightarrow> bytes"

record keys =
  k_sorted :: "bytes list"
  k_entries :: "string \<rightharpoonup> nat \<times> bytes" \<comment> \<open>by the key's hex: its length and item\<close>
  k_digest :: bytes

definition no_keys :: keys where
  "no_keys = \<lparr>k_sorted = [], k_entries = Map.empty, k_digest = zero32\<rparr>"

text \<open>The binary search for the first index whose key is not below \<open>key\<close>.\<close>

function search :: "bytes list \<Rightarrow> bytes \<Rightarrow> nat \<Rightarrow> nat \<Rightarrow> nat" where
  "search ks key lo hi =
     (if lo < hi then let mid = (lo + hi) div 2
        in if compare_bytes (ks ! mid) key < 0 then search ks key (mid + 1) hi else search ks key lo mid
      else lo)"
  by pat_completeness auto
termination by (relation "measure (\<lambda>(ks, key, lo, hi). hi - lo)") (auto simp: Let_def)

declare search.simps [simp del]

definition index_of :: "keys \<Rightarrow> bytes \<Rightarrow> nat" where
  "index_of K key = search (k_sorted K) key 0 (length (k_sorted K))"

definition has :: "keys \<Rightarrow> bytes \<Rightarrow> bool" where
  "has K key \<longleftrightarrow> (let i = index_of K key in i < length (k_sorted K) \<and> k_sorted K ! i = key)"

definition lengthOf :: "keys \<Rightarrow> bytes \<Rightarrow> int" where
  "lengthOf K key = (case k_entries K (hex key) of None \<Rightarrow> -1 | Some (n, i) \<Rightarrow> int n)"

definition set_key :: "item \<Rightarrow> bytes \<Rightarrow> nat \<Rightarrow> keys \<Rightarrow> keys" where
  "set_key item key n K =
     (case k_entries K (hex key) of
        Some (m, i) \<Rightarrow>
          if m = n then K
          else K\<lparr>k_digest := xor_bytes (xor_bytes (k_digest K) i) (item key n), k_entries := (k_entries K)(hex key \<mapsto> (n, item key n))\<rparr>
      | None \<Rightarrow>
          let pos = index_of K key
          in K\<lparr>k_sorted := take pos (k_sorted K) @ key # drop pos (k_sorted K),
               k_entries := (k_entries K)(hex key \<mapsto> (n, item key n)),
               k_digest := xor_bytes (k_digest K) (item key n)\<rparr>)"

definition delete_key :: "bytes \<Rightarrow> keys \<Rightarrow> keys" where
  "delete_key key K =
     (case k_entries K (hex key) of
        None \<Rightarrow> K
      | Some (m, i) \<Rightarrow>
          let pos = index_of K key
          in K\<lparr>k_digest := xor_bytes (k_digest K) i, k_entries := (k_entries K)(hex key := None),
               k_sorted := take pos (k_sorted K) @ drop (Suc pos) (k_sorted K)\<rparr>)"

definition range_of :: "keys \<Rightarrow> bytes \<Rightarrow> nat \<Rightarrow> nat \<times> nat" where
  "range_of K prefix bits =
     (if bits = 0 then (0, length (k_sorted K))
      else let start = index_of K (bound prefix bits 0); stop = index_of K (bound prefix bits 0xff)
           in (start, if stop < length (k_sorted K) \<and> k_sorted K ! stop = bound prefix bits 0xff then stop + 1 else stop))"

definition keys_within :: "keys \<Rightarrow> bytes \<Rightarrow> nat \<Rightarrow> bytes list" where
  "keys_within K prefix bits = (let (s, e) = range_of K prefix bits in take (e - s) (drop s (k_sorted K)))"

definition count_of :: "keys \<Rightarrow> bytes \<Rightarrow> nat \<Rightarrow> nat" where
  "count_of K prefix bits = (let (s, e) = range_of K prefix bits in e - s)"

definition parts :: "keys \<Rightarrow> bytes \<Rightarrow> nat \<Rightarrow> (nat \<times> bytes) list" where
  "parts K prefix bits =
     fold (\<lambda>key out. let n = nibble key bits
             in out[n := (fst (out ! n) + 1, xor_bytes (snd (out ! n)) (snd (the (k_entries K (hex key)))))])
       (keys_within K prefix bits) (replicate PARTS (0, zero32))"

definition digestOf :: "item \<Rightarrow> bytes list \<Rightarrow> nat list \<Rightarrow> bytes" where
  "digestOf item ks ns = fold (\<lambda>(k, n) d. xor_bytes d (item k n)) (zip ks ns) zero32"

section \<open>Order and search\<close>

text \<open>\<open>b4a.compare\<close> is the library's lexicographic order on lists of bytes.\<close>

lemma compare_less: "compare_bytes a b < 0 \<longleftrightarrow> a < b"
  by (induction a b rule: compare_bytes.induct) auto

lemma search_bounds:
  assumes "sorted ks" "lo \<le> hi" "hi \<le> length ks" "\<forall>j<lo. ks ! j < key" "\<forall>j. hi \<le> j \<and> j < length ks \<longrightarrow> \<not> ks ! j < key"
  shows "search ks key lo hi \<le> length ks \<and> (\<forall>j < search ks key lo hi. ks ! j < key) \<and>
    (\<forall>j. search ks key lo hi \<le> j \<and> j < length ks \<longrightarrow> \<not> ks ! j < key)"
  using assms
proof (induction ks key lo hi rule: search.induct)
  case (1 ks key lo hi)
  note sorted = "1.prems"(1)
  define mid where "mid = (lo + hi) div 2"
  show ?case
  proof (cases "lo < hi")
    case True
    then have mid: "lo \<le> mid" "mid < hi" by (auto simp: mid_def)
    show ?thesis
    proof (cases "ks ! mid < key")
      case True
      have below: "\<forall>j<mid + 1. ks ! j < key"
      proof (intro allI impI)
        fix j assume "j < mid + 1"
        then have "ks ! j \<le> ks ! mid" using mid \<open>hi \<le> length ks\<close> by (intro sorted_nth_mono [OF sorted]) auto
        with True show "ks ! j < key" by simp
      qed
      have "search ks key lo hi = search ks key (mid + 1) hi"
        using True \<open>lo < hi\<close> by (subst search.simps) (simp add: Let_def compare_less mid_def)
      with "1.IH"(1) [OF \<open>lo < hi\<close> mid_def] True compare_less mid "1.prems" below show ?thesis by simp
    next
      case False
      have above: "\<forall>j. mid \<le> j \<and> j < length ks \<longrightarrow> \<not> ks ! j < key"
      proof (intro allI impI)
        fix j assume "mid \<le> j \<and> j < length ks"
        then have "ks ! mid \<le> ks ! j" by (intro sorted_nth_mono [OF sorted]) auto
        with False show "\<not> ks ! j < key" by simp
      qed
      have "search ks key lo hi = search ks key lo mid"
        using False \<open>lo < hi\<close> by (subst search.simps) (simp add: Let_def compare_less mid_def)
      with "1.IH"(2) [OF \<open>lo < hi\<close> mid_def] False compare_less mid "1.prems" above show ?thesis by simp
    qed
  next
    case False
    with "1.prems" have "lo = hi" by simp
    then have "search ks key lo hi = lo" by (subst search.simps) simp
    with "1.prems" \<open>lo = hi\<close> show ?thesis by simp
  qed
qed

lemma filter_split:
  assumes "i \<le> length ks" "\<forall>j<i. P (ks ! j)" "\<forall>j. i \<le> j \<and> j < length ks \<longrightarrow> \<not> P (ks ! j)"
  shows "take i ks = filter P ks" "drop i ks = filter (\<lambda>x. \<not> P x) ks"
proof -
  have t: "\<forall>x\<in>set (take i ks). P x" using assms(1,2) by (auto simp: in_set_conv_nth)
  have d: "\<forall>x\<in>set (drop i ks). \<not> P x" using assms(3) by (auto simp: in_set_conv_nth)
  have "filter P (take i ks @ drop i ks) = take i ks" "filter (\<lambda>x. \<not> P x) (take i ks @ drop i ks) = drop i ks"
    unfolding filter_append using t d by (simp_all add: filter_id_conv filter_empty_conv)
  then show "take i ks = filter P ks" "drop i ks = filter (\<lambda>x. \<not> P x) ks"
    unfolding append_take_drop_id by simp_all
qed

lemma index_split:
  assumes "sorted (k_sorted K)"
  shows "index_of K key \<le> length (k_sorted K)"
    "take (index_of K key) (k_sorted K) = filter (\<lambda>x. x < key) (k_sorted K)"
    "drop (index_of K key) (k_sorted K) = filter (\<lambda>x. \<not> x < key) (k_sorted K)"
proof -
  have "index_of K key \<le> length (k_sorted K) \<and> (\<forall>j < index_of K key. k_sorted K ! j < key) \<and>
    (\<forall>j. index_of K key \<le> j \<and> j < length (k_sorted K) \<longrightarrow> \<not> k_sorted K ! j < key)"
    unfolding index_of_def by (rule search_bounds [OF assms]) auto
  then have b: "index_of K key \<le> length (k_sorted K)" "\<forall>j < index_of K key. k_sorted K ! j < key"
    "\<forall>j. index_of K key \<le> j \<and> j < length (k_sorted K) \<longrightarrow> \<not> k_sorted K ! j < key" by blast+
  show "index_of K key \<le> length (k_sorted K)" by (rule b(1))
  show "take (index_of K key) (k_sorted K) = filter (\<lambda>x. x < key) (k_sorted K)"
    "drop (index_of K key) (k_sorted K) = filter (\<lambda>x. \<not> x < key) (k_sorted K)"
    by (rule filter_split [OF b])+
qed

section \<open>Ranges of keys\<close>

text \<open>A range and its bounds byte by byte, for keys of \<open>n\<close> bytes.\<close>

fun in_pre :: "bytes \<Rightarrow> bytes \<Rightarrow> nat \<Rightarrow> bool" where
  "in_pre k p b =
     (if b = 0 then True
      else if b < 8 then unat (hd k) div 16 = unat (hd p) div 16
      else hd k = hd p \<and> in_pre (tl k) (tl p) (b - 8))"

fun bound_of :: "nat \<Rightarrow> bytes \<Rightarrow> nat \<Rightarrow> byte \<Rightarrow> bytes" where
  "bound_of 0 p b f = []"
| "bound_of (Suc n) p b f =
     (if b = 0 then replicate (Suc n) f
      else if b < 8 then ((hd p AND 0xf0) OR (f AND 0x0f)) # replicate n f
      else hd p # bound_of n (tl p) (b - 8) f)"

declare in_pre.simps [simp del]

lemma byte_nibbles_all:
  "list_all (\<lambda>n. unat ((of_nat n :: byte) AND 0xf0) = n div 16 * 16 \<and>
     unat (((of_nat n :: byte) AND 0xf0) OR (0xff AND 0x0f)) = n div 16 * 16 + 15 \<and>
     unat (((of_nat n :: byte) AND 0xf0) OR (0 AND 0x0f)) = n div 16 * 16) [0..<256]"
  by code_simp

lemma byte_nibbles:
  "unat ((y :: byte) AND 0xf0 OR (0 AND 0x0f)) = unat y div 16 * 16"
  "unat ((y :: byte) AND 0xf0 OR (0xff AND 0x0f)) = unat y div 16 * 16 + 15"
  using byte_nibbles_all unat_byte [of y] by (auto simp: list_all_iff dest!: bspec [of _ _ "unat y"])

lemma replicate_bounds:
  "replicate n 0 \<le> (k :: bytes)" if "length k = n"
  using that
proof (induction k arbitrary: n)
  case (Cons x k)
  have "x = 0 \<or> 0 < x" by (auto simp: word_gt_0)
  with Cons show ?case by auto
qed simp

lemma replicate_max: "length (k :: bytes) = n \<Longrightarrow> k \<le> replicate n 0xff"
proof (induction k arbitrary: n)
  case (Cons x k)
  have "x \<le> 0xff" using unat_byte [of x] by (simp add: word_le_nat_alt)
  with Cons show ?case by (cases n) (auto simp: order.order_iff_strict)
qed simp

lemma nibble_range: "\<not> x < d * 16 \<and> \<not> x > d * 16 + 15 \<longleftrightarrow> x div 16 = (d :: nat)"
proof
  assume "\<not> x < d * 16 \<and> \<not> x > d * 16 + 15"
  then show "x div 16 = d" by (intro div_nat_eqI) auto
next
  assume "x div 16 = d"
  moreover have "x = x div 16 * 16 + x mod 16" "x mod 16 < 16" by simp_all
  ultimately show "\<not> x < d * 16 \<and> \<not> x > d * 16 + 15" by linarith
qed

lemma in_pre_bounds:
  "length k = n \<Longrightarrow> b div 8 < n \<or> b = 0 \<Longrightarrow> (b + 7) div 8 \<le> length p \<Longrightarrow>
   in_pre k p b \<longleftrightarrow> bound_of n p b 0 \<le> k \<and> k \<le> bound_of n p b 0xff"
proof (induction n p b "0 :: byte" arbitrary: k rule: bound_of.induct)
  case (2 n p b)
  then obtain x k' where k: "k = x # k'" "length k' = n" by (cases k) auto
  consider (zero) "b = 0" | (half) "0 < b" "b < 8" | (whole) "8 \<le> b" by linarith
  then show ?case
  proof cases
    case zero
    with 2(2) replicate_bounds [OF 2(2)] replicate_max [OF 2(2)] show ?thesis by (subst in_pre.simps) simp
  next
    case half
    define l h where "l = (hd p AND 0xf0 OR (0 AND 0x0f))" and "h = (hd p AND 0xf0 OR (0xff AND 0x0f))"
    have eqs: "l \<le> x \<longleftrightarrow> unat (hd p) div 16 * 16 \<le> unat x" "x \<le> h \<longleftrightarrow> unat x \<le> unat (hd p) div 16 * 16 + 15"
      by (simp_all only: word_le_nat_alt byte_nibbles l_def h_def)
    have "bound_of (Suc n) p b 0 = l # replicate n 0" "bound_of (Suc n) p b 0xff = h # replicate n 0xff"
      using half by (simp_all only: bound_of.simps l_def h_def) simp_all
    then have "(bound_of (Suc n) p b 0 \<le> k \<and> k \<le> bound_of (Suc n) p b 0xff) \<longleftrightarrow> l \<le> x \<and> x \<le> h"
      using replicate_bounds [OF k(2)] replicate_max [OF k(2)] by (auto simp: k(1) order.order_iff_strict)
    also have "\<dots> \<longleftrightarrow> \<not> unat x < unat (hd p) div 16 * 16 \<and> \<not> unat x > unat (hd p) div 16 * 16 + 15"
      by (simp add: eqs not_less)
    also have "\<dots> \<longleftrightarrow> unat x div 16 = unat (hd p) div 16" by (rule nibble_range)
    finally have "(bound_of (Suc n) p b 0 \<le> k \<and> k \<le> bound_of (Suc n) p b 0xff) \<longleftrightarrow> unat x div 16 = unat (hd p) div 16" .
    moreover have "in_pre k p b \<longleftrightarrow> unat x div 16 = unat (hd p) div 16"
      using half by (subst in_pre.simps) (simp add: k(1))
    ultimately show ?thesis by (simp only:)
  next
    case whole
    from 2(3,4) whole have "(b - 8) div 8 < n \<or> b - 8 = 0" "(b - 8 + 7) div 8 \<le> length (tl p)" by auto
    with 2(1) [OF _ _ k(2)] whole have "in_pre k' (tl p) (b - 8) \<longleftrightarrow> bound_of n (tl p) (b - 8) 0 \<le> k' \<and> k' \<le> bound_of n (tl p) (b - 8) 0xff"
      by simp
    with whole show ?thesis by (subst in_pre.simps) (auto simp: k(1))
  qed
qed (simp add: in_pre.simps)

lemma eight: "8 \<le> b \<Longrightarrow> b div 8 = Suc ((b - 8) div 8) \<and> b mod 8 = (b - 8) mod 8 \<and> b mod 4 = (b - 8) mod 4"
proof -
  assume "8 \<le> b"
  then obtain c where "b = c + 8" by (metis add.commute le_Suc_ex)
  then show ?thesis by (simp add: mod_add_right_eq [symmetric, of c 8 4])
qed

lemma bound_bound_of:
  "b mod 4 = 0 \<Longrightarrow> b div 8 < n \<or> b = 0 \<Longrightarrow> (b + 7) div 8 \<le> length p \<Longrightarrow>
   bound_of n p b f = (let whole = b div 8; out = take whole p @ replicate (n - whole) f
     in if b mod 8 \<noteq> 0 then out[whole := (p ! whole AND 0xf0) OR (f AND 0x0f)] else out)"
proof (induction n p b f rule: bound_of.induct)
  case (2 n p b f)
  consider (zero) "b = 0" | (half) "0 < b" "b < 8" | (whole) "8 \<le> b" by linarith
  then show ?case
  proof cases
    case half
    moreover from this 2(4) obtain x xs where "p = x # xs" by (cases p) auto
    ultimately show ?thesis by simp
  next
    case whole
    from 2(4) whole obtain x xs where p: "p = x # xs" by (cases p) auto
    note e = eight [OF whole]
    from 2(2-4) whole have "(b - 8) mod 4 = 0" "(b - 8) div 8 < n \<or> b - 8 = 0" "(b - 8 + 7) div 8 \<le> length (tl p)"
      using e by (auto simp: p)
    with 2(1) whole e show ?thesis by (simp add: p Let_def)
  qed simp
qed simp

lemma in_range_all: "in_range k p b \<longleftrightarrow> (\<forall>i<b. i mod 4 = 0 \<longrightarrow> nibble k i = nibble p i)"
  by (auto simp: in_range_def list_all_iff)

lemma nibble_Cons: "8 \<le> i \<Longrightarrow> nibble (x # k) i = nibble k (i - 8)"
  using eight [of i] by (simp add: nibble_def)

lemma nibbles_first: "nibble (x # k) 0 = unat x div 16" "nibble (x # k) 4 = unat x mod 16"
  using unat_byte [of x] by (auto simp: nibble_def)

lemma nibbles_eq: "unat (x :: byte) div 16 = unat y div 16 \<and> unat x mod 16 = unat y mod 16 \<longleftrightarrow> x = y"
  by (metis div_mult_mod_eq word_unat_eq_iff)

lemma in_range_pre:
  "b mod 4 = 0 \<Longrightarrow> b div 8 < length k \<or> b = 0 \<Longrightarrow> (b + 7) div 8 \<le> length p \<Longrightarrow> in_range k p b = in_pre k p b"
proof (induction k p b rule: in_pre.induct)
  case (1 k p b)
  consider (zero) "b = 0" | (half) "0 < b" "b < 8" | (whole) "8 \<le> b" by linarith
  then show ?case
  proof cases
    case zero
    then show ?thesis by (subst in_pre.simps) (simp add: in_range_all)
  next
    case half
    with 1(2) have "b = 4" by presburger
    moreover from half 1(3,4) obtain x xs y ys where "k = x # xs" "p = y # ys" by (cases k; cases p) auto
    moreover have "(\<forall>i<4. i mod 4 = 0 \<longrightarrow> P i) \<longleftrightarrow> P (0 :: nat)" for P by (auto simp: mod_less)
    ultimately show ?thesis by (subst in_pre.simps) (simp add: in_range_all nibbles_first)
  next
    case whole
    with 1(3,4) obtain x xs y ys where k: "k = x # xs" "p = y # ys" by (cases k; cases p) auto
    note e = eight [OF whole]
    have "in_range k p b \<longleftrightarrow> (nibble k 0 = nibble p 0 \<and> nibble k 4 = nibble p 4) \<and> in_range xs ys (b - 8)"
    proof
      assume r: "in_range k p b"
      have "nibble xs i = nibble ys i" if "i < b - 8" "i mod 4 = 0" for i
        using r that nibble_Cons [of "i + 8" x xs] nibble_Cons [of "i + 8" y ys] mod_add_self2
        by (auto simp: in_range_all k mod_add_right_eq [symmetric, of i 8 4] dest!: spec [of _ "i + 8"])
      with r whole show "(nibble k 0 = nibble p 0 \<and> nibble k 4 = nibble p 4) \<and> in_range xs ys (b - 8)"
        by (auto simp: in_range_all)
    next
      assume r: "(nibble k 0 = nibble p 0 \<and> nibble k 4 = nibble p 4) \<and> in_range xs ys (b - 8)"
      show "in_range k p b" unfolding in_range_all
      proof (intro allI impI)
        fix i assume i: "i < b" "i mod 4 = 0"
        show "nibble k i = nibble p i"
        proof (cases "8 \<le> i")
          case True
          with i r eight [OF True] show ?thesis by (auto simp: k nibble_Cons in_range_all)
        next
          case False
          with i(2) have "i = 0 \<or> i = 4" by presburger
          with r show ?thesis by blast
        qed
      qed
    qed
    also have "\<dots> \<longleftrightarrow> x = y \<and> in_range xs ys (b - 8)" by (simp add: k nibbles_first nibbles_eq)
    also have "in_range xs ys (b - 8) = in_pre xs ys (b - 8)"
      using 1(1) whole 1(2-4) e by (auto simp: k)
    finally show ?thesis using whole by (subst in_pre.simps) (simp add: k)
  qed
qed

lemma in_range_bounds:
  assumes "valid_range p b" "length k = 32"
  shows "in_range k p b \<longleftrightarrow> bound p b 0 \<le> k \<and> k \<le> bound p b 0xff"
proof -
  have b: "b mod 4 = 0" "b div 8 < 32" "(b + 7) div 8 \<le> length p"
    using assms(1) by (auto simp: valid_range_def MAX_BITS_def)
  have bound: "bound p b f = bound_of 32 p b f" for f
    unfolding bound_def using bound_bound_of [OF b(1) disjI1 [OF b(2)] b(3), of f] by simp
  show ?thesis
    using in_range_pre [OF b(1) _ b(3), of k] in_pre_bounds [OF assms(2) _ b(3)] b(2) assms(2)
    by (simp only: bound) simp
qed

section \<open>The invariant\<close>

definition xsum :: "bytes list \<Rightarrow> bytes" where
  "xsum xs = fold (\<lambda>x d. xor_bytes d x) xs zero32"

definition sized :: "item \<Rightarrow> bool" where
  "sized item \<longleftrightarrow> (\<forall>k n. length (item k n) = 32)"

definition contents :: "keys \<Rightarrow> bytes \<rightharpoonup> nat" where
  "contents K k = map_option fst (k_entries K (hex k))"

definition keys_ok :: "item \<Rightarrow> keys \<Rightarrow> bool" where
  "keys_ok item K \<longleftrightarrow> sorted (k_sorted K) \<and> distinct (k_sorted K) \<and> (\<forall>k\<in>set (k_sorted K). length k = 32)
     \<and> dom (k_entries K) = hex ` set (k_sorted K)
     \<and> (\<forall>k n i. k_entries K (hex k) = Some (n, i) \<longrightarrow> i = item k n)
     \<and> k_digest K = xsum (map (\<lambda>k. item k (the (contents K k))) (k_sorted K))"

lemma keys_okD:
  assumes "keys_ok item K"
  shows "sorted (k_sorted K)" "distinct (k_sorted K)" "k \<in> set (k_sorted K) \<Longrightarrow> length k = 32"
    "k_entries K (hex k) = Some (n, i) \<Longrightarrow> i = item k n"
    "k_digest K = xsum (map (\<lambda>k. item k (the (contents K k))) (k_sorted K))"
    "contents K k \<noteq> None \<longleftrightarrow> k \<in> set (k_sorted K)"
proof -
  from assms have "dom (k_entries K) = hex ` set (k_sorted K)" by (simp add: keys_ok_def)
  then show "contents K k \<noteq> None \<longleftrightarrow> k \<in> set (k_sorted K)" by (auto simp: contents_def dom_def set_eq_iff)
qed (use assms in \<open>auto simp: keys_ok_def\<close>)

lemma sorted_split: "sorted xs \<Longrightarrow> filter (\<lambda>x. x < a) xs @ filter (\<lambda>x. \<not> x < a) xs = xs" for a :: bytes
proof (induction xs)
  case (Cons x xs)
  show ?case
  proof (cases "x < a")
    case False
    with Cons.prems have "filter (\<lambda>x. x < a) xs = []" "filter (\<lambda>x. \<not> x < a) xs = xs"
      by (auto simp: filter_empty_conv filter_id_conv)
    with False show ?thesis by simp
  qed (use Cons in simp)
qed simp

lemma sorted_le_prefix: "sorted ys \<Longrightarrow> \<exists>zs. ys = filter (\<lambda>x. x \<le> b) ys @ zs" for b :: bytes
proof (induction ys)
  case (Cons y ys)
  show ?case
  proof (cases "y \<le> b")
    case False
    with Cons.prems have "filter (\<lambda>x. x \<le> b) (y # ys) = []" by (auto simp: filter_empty_conv)
    then show ?thesis by simp
  qed (use Cons in auto)
qed simp

lemma slice_filter:
  fixes xs :: "bytes list"
  assumes "sorted xs" "e = length (filter (\<lambda>x. x \<le> b) xs)" "s = length (filter (\<lambda>x. x < a) xs)"
  shows "take (e - s) (drop s xs) = filter (\<lambda>x. a \<le> x \<and> x \<le> b) xs"
proof -
  have "drop s xs = filter (\<lambda>x. \<not> x < a) xs"
    using arg_cong [OF sorted_split [OF assms(1), of a], of "drop s"] by (simp add: assms(3))
  moreover have "take (e - s) (filter (\<lambda>x. \<not> x < a) xs) = filter (\<lambda>x. x \<le> b) (filter (\<lambda>x. \<not> x < a) xs)"
  proof (cases "a \<le> b")
    case True
    have "filter (\<lambda>x. x \<le> b) xs = filter (\<lambda>x. x \<le> b) (filter (\<lambda>x. x < a) xs) @ filter (\<lambda>x. x \<le> b) (filter (\<lambda>x. \<not> x < a) xs)"
      by (metis filter_append sorted_split [OF assms(1)])
    moreover have "filter (\<lambda>x. x \<le> b) (filter (\<lambda>x. x < a) xs) = filter (\<lambda>x. x < a) xs"
      unfolding filter_filter using True by (intro filter_cong) auto
    ultimately have len: "e - s = length (filter (\<lambda>x. x \<le> b) (filter (\<lambda>x. \<not> x < a) xs))"
      by (simp add: assms(2,3))
    have "\<exists>zs. filter (\<lambda>x. \<not> x < a) xs = filter (\<lambda>x. x \<le> b) (filter (\<lambda>x. \<not> x < a) xs) @ zs"
    proof -
      have "sorted (filter (\<lambda>x. \<not> x < a) xs)"
        using sorted_filter [of "\<lambda>x. x" xs "\<lambda>x. \<not> x < a"] assms(1) by simp
      then show ?thesis by (rule sorted_le_prefix)
    qed
    then show ?thesis unfolding len by (metis append_eq_conv_conj)
  next
    case False
    then have "filter (\<lambda>x. x \<le> b) xs = filter (\<lambda>x. x \<le> b) (filter (\<lambda>x. x < a) xs)"
      by (auto simp: filter_filter intro!: filter_cong)
    then have "e \<le> s" by (simp add: assms(2,3)) (metis filter_filter length_filter_le)
    moreover have "filter (\<lambda>x. x \<le> b) (filter (\<lambda>x. \<not> x < a) xs) = []" using False by (auto simp: filter_empty_conv)
    ultimately show ?thesis by simp
  qed
  ultimately show ?thesis by (simp add: filter_filter not_less conj_commute)
qed

text \<open>What a range of the keys is: those under its prefix, in order.\<close>

lemma keys_within_filter:
  assumes "keys_ok item K" "valid_range p b"
  shows "keys_within K p b = filter (\<lambda>k. in_range k p b) (k_sorted K)"
proof (cases "b = 0")
  case True
  then show ?thesis by (simp add: keys_within_def range_of_def in_range_def)
next
  case False
  note K = keys_okD [OF assms(1)]
  define lo hi where "lo = bound p b 0" and "hi = bound p b 0xff"
  define start stop where "start = index_of K lo" and "stop = index_of K hi"
  define e where "e = (if stop < length (k_sorted K) \<and> k_sorted K ! stop = hi then stop + 1 else stop)"
  have start: "start = length (filter (\<lambda>x. x < lo) (k_sorted K))"
    using index_split [OF K(1), of lo] by (metis start_def length_take min.absorb2)
  have stop: "stop = length (filter (\<lambda>x. x < hi) (k_sorted K))"
    using index_split [OF K(1), of hi] by (metis stop_def length_take min.absorb2)
  have e: "e = length (filter (\<lambda>x. x \<le> hi) (k_sorted K))"
  proof -
    have "length (filter (\<lambda>x. x \<le> hi) (k_sorted K)) = stop + length (filter (\<lambda>x. x = hi) (filter (\<lambda>x. \<not> x < hi) (k_sorted K)))"
    proof -
      have "filter (\<lambda>x. x \<le> hi) (k_sorted K) = filter (\<lambda>x. x \<le> hi) (filter (\<lambda>x. x < hi) (k_sorted K) @ filter (\<lambda>x. \<not> x < hi) (k_sorted K))"
        by (simp only: sorted_split [OF K(1)])
      also have "\<dots> = filter (\<lambda>x. x < hi) (k_sorted K) @ filter (\<lambda>x. x = hi) (filter (\<lambda>x. \<not> x < hi) (k_sorted K))"
        unfolding filter_append filter_filter by (intro arg_cong2 [where f = append] filter_cong) auto
      finally show ?thesis by (simp add: stop)
    qed
    moreover have "filter (\<lambda>x. \<not> x < hi) (k_sorted K) = drop stop (k_sorted K)"
      using index_split(3) [OF K(1), of hi] by (simp add: stop_def)
    moreover have "length (filter (\<lambda>x. x = hi) (drop stop (k_sorted K))) = (if stop < length (k_sorted K) \<and> k_sorted K ! stop = hi then 1 else 0)"
    proof (cases "stop < length (k_sorted K)")
      case True
      then have d: "drop stop (k_sorted K) = k_sorted K ! stop # drop (Suc stop) (k_sorted K)" by (simp add: Cons_nth_drop_Suc)
      have ge: "\<forall>x\<in>set (drop stop (k_sorted K)). hi \<le> x"
        using index_split(3) [OF K(1), of hi] by (auto simp: stop_def not_less)
      have rest: "\<forall>x\<in>set (drop (Suc stop) (k_sorted K)). x \<noteq> hi"
      proof
        fix x assume x: "x \<in> set (drop (Suc stop) (k_sorted K))"
        have "sorted (drop stop (k_sorted K))" "distinct (drop stop (k_sorted K))"
          using K(1,2) by (simp_all add: sorted_wrt_drop)
        with x d have "k_sorted K ! stop \<le> x" "k_sorted K ! stop \<noteq> x" by auto
        moreover have "hi \<le> k_sorted K ! stop" using ge d by simp
        ultimately show "x \<noteq> hi" by auto
      qed
      then have "filter (\<lambda>x. x = hi) (drop (Suc stop) (k_sorted K)) = []" by (simp add: filter_empty_conv)
      with True d show ?thesis by simp
    qed simp
    ultimately show ?thesis by (simp add: e_def)
  qed
  have "keys_within K p b = take (e - start) (drop start (k_sorted K))"
    using False by (simp add: keys_within_def range_of_def Let_def e_def start_def stop_def lo_def hi_def)
  also have "\<dots> = filter (\<lambda>x. lo \<le> x \<and> x \<le> hi) (k_sorted K)" by (rule slice_filter [OF K(1) e start])
  also have "\<dots> = filter (\<lambda>k. in_range k p b) (k_sorted K)"
    using in_range_bounds [OF assms(2)] K(3) by (auto simp: lo_def hi_def intro!: filter_cong)
  finally show ?thesis .
qed

section \<open>Digests\<close>

lemma xor_length [simp]: "length (xor_bytes a b) = min (length a) (length b)"
  by (simp add: xor_bytes_def)

lemma xor_nth: "i < length a \<Longrightarrow> i < length b \<Longrightarrow> xor_bytes a b ! i = a ! i XOR b ! i"
  by (simp add: xor_bytes_def)

lemma xor_swap: "length a = length b \<Longrightarrow> length b = length c \<Longrightarrow> xor_bytes (xor_bytes a b) c = xor_bytes (xor_bytes a c) b"
  by (rule nth_equalityI) (simp_all add: xor_nth xor.left_commute xor.commute)

lemma xor_cancel: "length a = length b \<Longrightarrow> xor_bytes (xor_bytes a b) b = a"
  by (rule nth_equalityI) (simp_all add: xor_nth xor.assoc)

lemma fold_xor_length: "length d = 32 \<Longrightarrow> \<forall>x\<in>set xs. length x = 32 \<Longrightarrow> length (fold (\<lambda>x d. xor_bytes d x) xs d) = 32"
  by (induction xs arbitrary: d) simp_all

lemma zero32_length [simp]: "length zero32 = 32"
  by (simp add: zero32_def)

lemma fold_xor_out:
  "length d = 32 \<Longrightarrow> length y = 32 \<Longrightarrow> \<forall>x\<in>set xs. length x = 32 \<Longrightarrow>
   fold (\<lambda>x d. xor_bytes d x) xs (xor_bytes d y) = xor_bytes (fold (\<lambda>x d. xor_bytes d x) xs d) y"
proof (induction xs arbitrary: d)
  case (Cons x xs)
  then show ?case using xor_swap [of d y x] by simp
qed simp

lemma xsum_insert:
  assumes "\<forall>x\<in>set (y # as @ bs). length x = 32"
  shows "xsum (as @ y # bs) = xor_bytes (xsum (as @ bs)) y"
  using assms fold_xor_out [OF fold_xor_length [of zero32 as], of y bs] by (simp add: xsum_def)

section \<open>The operations keep it\<close>

lemma no_keys_ok: "keys_ok item no_keys"
  by (simp add: keys_ok_def no_keys_def xsum_def)

lemma index_insert:
  assumes "sorted (k_sorted K)"
  shows "x \<in> set (take (index_of K key) (k_sorted K)) \<Longrightarrow> x < key"
    "x \<in> set (drop (index_of K key) (k_sorted K)) \<Longrightarrow> key \<le> x"
  using index_split(2,3) [OF assms, of key] by (auto simp: not_less)

lemma set_key_ok:
  assumes "keys_ok item K" "sized item" "length key = 32"
  shows "keys_ok item (set_key item key n K) \<and> contents (set_key item key n K) = (contents K)(key \<mapsto> n)"
proof -
  note K = keys_okD [OF assms(1)]
  have size: "length (item k m) = 32" for k m using assms(2) by (simp add: sized_def)
  have dom: "dom (k_entries K) = hex ` set (k_sorted K)" using assms(1) by (simp add: keys_ok_def)
  show ?thesis
  proof (cases "k_entries K (hex key)")
    case None
    define as bs where "as = take (index_of K key) (k_sorted K)" and "bs = drop (index_of K key) (k_sorted K)"
    define K1 where "K1 = set_key item key n K"
    have split: "k_sorted K = as @ bs" by (simp add: as_def bs_def)
    have new: "key \<notin> set (as @ bs)" using None dom split by (metis domIff imageI)
    have lt: "\<And>x. x \<in> set as \<Longrightarrow> x < key" "\<And>x. x \<in> set bs \<Longrightarrow> key \<le> x"
      using index_insert [OF K(1)] by (auto simp: as_def bs_def)
    have K1: "k_sorted K1 = as @ key # bs" "k_entries K1 = (k_entries K)(hex key \<mapsto> (n, item key n))"
      "k_digest K1 = xor_bytes (k_digest K) (item key n)"
      using None by (simp_all add: K1_def set_key_def Let_def as_def bs_def)
    have con: "contents K1 = (contents K)(key \<mapsto> n)" by (rule ext) (simp add: contents_def K1(2))
    have "sorted (as @ key # bs)"
      using K(1) lt unfolding split by (auto simp: sorted_append intro: less_imp_le order_trans)
    moreover have "distinct (as @ key # bs)" using K(2) new unfolding split by auto
    moreover have "k_digest K1 = xsum (map (\<lambda>k. item k (the (contents K1 k))) (as @ key # bs))"
    proof -
      define A B where "A = map (\<lambda>k. item k (the (contents K k))) as" and "B = map (\<lambda>k. item k (the (contents K k))) bs"
      have same: "map (\<lambda>k. item k (the (contents K1 k))) as = A" "map (\<lambda>k. item k (the (contents K1 k))) bs = B"
        using new by (auto simp: con A_def B_def)
      have "\<forall>x\<in>set (A @ B). length x = 32" using size by (auto simp: A_def B_def)
      moreover have "k_digest K = xsum (A @ B)" by (simp add: K(5) split A_def B_def)
      moreover have "contents K1 key = Some n" by (simp add: con)
      ultimately show ?thesis
        using xsum_insert [of "item key n" A B] size unfolding K1(3) map_append list.map same by simp
    qed
    ultimately have "keys_ok item K1"
      using K(3,4) assms(3) dom unfolding keys_ok_def K1(1,2) by (auto simp: split)
    with con show ?thesis by (simp add: K1_def)
  next
    case (Some e)
    obtain m i where e: "e = (m, i)" by (cases e)
    have here: "key \<in> set (k_sorted K)" using Some dom by (metis domI hex_inject imageE)
    then obtain as bs where split: "k_sorted K = as @ key # bs" by (auto simp: in_set_conv_decomp)
    with K(2) have new: "key \<notin> set (as @ bs)" by auto
    have con0: "contents K key = Some m" by (simp add: contents_def Some e)
    have i: "i = item key m" using K(4) Some e by blast
    show ?thesis
    proof (cases "m = n")
      case True
      with Some e con0 assms(1) show ?thesis by (auto simp: set_key_def)
    next
      case False
      define K1 where "K1 = set_key item key n K"
      have K1: "k_sorted K1 = as @ key # bs" "k_entries K1 = (k_entries K)(hex key \<mapsto> (n, item key n))"
        "k_digest K1 = xor_bytes (xor_bytes (k_digest K) i) (item key n)"
        using Some e False by (simp_all add: K1_def set_key_def split)
      have con: "contents K1 = (contents K)(key \<mapsto> n)" by (rule ext) (simp add: contents_def K1(2))
      define A B where "A = map (\<lambda>k. item k (the (contents K k))) as" and "B = map (\<lambda>k. item k (the (contents K k))) bs"
      have same: "map (\<lambda>k. item k (the (contents K1 k))) as = A" "map (\<lambda>k. item k (the (contents K1 k))) bs = B"
        using new by (auto simp: con A_def B_def)
      have sizes: "\<forall>x\<in>set (A @ B). length x = 32" using size by (auto simp: A_def B_def)
      have "k_digest K = xor_bytes (xsum (A @ B)) i"
        using xsum_insert [of i A B] sizes size by (simp add: K(5) split A_def B_def con0 i)
      then have "xor_bytes (k_digest K) i = xsum (A @ B)"
        using xor_cancel [of "xsum (A @ B)" i] fold_xor_length [of zero32 "A @ B"] sizes size by (simp add: xsum_def i)
      then have "k_digest K1 = xsum (map (\<lambda>k. item k (the (contents K1 k))) (as @ key # bs))"
        using xsum_insert [of "item key n" A B] sizes size con unfolding K1(3) map_append list.map same by simp
      then have "keys_ok item K1"
        using assms(1) dom K(4) unfolding keys_ok_def K1(1,2) by (auto simp: split)
      with con show ?thesis by (simp add: K1_def)
    qed
  qed
qed

lemma delete_key_ok:
  assumes "keys_ok item K" "sized item"
  shows "keys_ok item (delete_key key K) \<and> contents (delete_key key K) = (contents K)(key := None)"
proof -
  note K = keys_okD [OF assms(1)]
  have size: "length (item k m) = 32" for k m using assms(2) by (simp add: sized_def)
  have dom: "dom (k_entries K) = hex ` set (k_sorted K)" using assms(1) by (simp add: keys_ok_def)
  show ?thesis
  proof (cases "k_entries K (hex key)")
    case None
    then have "delete_key key K = K" "contents K key = None" by (simp_all add: delete_key_def contents_def)
    with assms(1) show ?thesis by auto
  next
    case (Some e)
    obtain m i where e: "e = (m, i)" by (cases e)
    define as where "as = take (index_of K key) (k_sorted K)"
    have "key \<in> set (k_sorted K)" using Some dom by (metis domI hex_inject imageE)
    then have "key \<in> set as \<union> set (drop (index_of K key) (k_sorted K))"
      unfolding as_def set_append [symmetric] append_take_drop_id .
    then have "key \<in> set (drop (index_of K key) (k_sorted K))"
      using index_insert(1) [OF K(1), of key key] by (auto simp: as_def)
    then obtain b bs where bs: "drop (index_of K key) (k_sorted K) = b # bs" by (cases "drop (index_of K key) (k_sorted K)") auto
    have split: "k_sorted K = as @ b # bs" unfolding as_def bs [symmetric] by simp
    have "b = key"
    proof (rule ccontr)
      assume "b \<noteq> key"
      with \<open>key \<in> set (drop (index_of K key) (k_sorted K))\<close> bs have "key \<in> set bs" by auto
      with K(1) split have "b \<le> key" by (auto simp: sorted_append)
      moreover have "key \<le> b" using index_insert(2) [OF K(1), of b key] bs by simp
      ultimately show False using \<open>b \<noteq> key\<close> by simp
    qed
    with split have split: "k_sorted K = as @ key # bs" by simp
    define K1 where "K1 = delete_key key K"
    have "drop (Suc (index_of K key)) (k_sorted K) = bs" using bs by (metis drop_Suc list.sel(3) tl_drop)
    then have K1: "k_sorted K1 = as @ bs" "k_entries K1 = (k_entries K)(hex key := None)" "k_digest K1 = xor_bytes (k_digest K) i"
      using Some e by (simp_all add: K1_def delete_key_def Let_def as_def)
    have con: "contents K1 = (contents K)(key := None)" by (rule ext) (simp add: contents_def K1(2))
    have new: "key \<notin> set (as @ bs)" using K(2) split by auto
    define A B where "A = map (\<lambda>k. item k (the (contents K k))) as" and "B = map (\<lambda>k. item k (the (contents K k))) bs"
    have same: "map (\<lambda>k. item k (the (contents K1 k))) as = A" "map (\<lambda>k. item k (the (contents K1 k))) bs = B"
      using new by (auto simp: con A_def B_def)
    have sizes: "\<forall>x\<in>set (A @ B). length x = 32" using size by (auto simp: A_def B_def)
    have i: "i = item key m" "contents K key = Some m" using K(4) Some e by (simp_all add: contents_def)
    have "k_digest K = xor_bytes (xsum (A @ B)) i"
      using xsum_insert [of i A B] sizes size i by (simp add: K(5) split A_def B_def)
    then have "k_digest K1 = xsum (A @ B)"
      using xor_cancel [of "xsum (A @ B)" i] fold_xor_length [of zero32 "A @ B"] sizes size by (simp add: xsum_def i K1(3))
    then have "k_digest K1 = xsum (map (\<lambda>k. item k (the (contents K1 k))) (as @ bs))"
      unfolding map_append same .
    moreover have "sorted (as @ bs)" "distinct (as @ bs)" using K(1,2) by (auto simp: split sorted_append)
    ultimately have "keys_ok item K1"
      using K(3,4) dom new unfolding keys_ok_def K1(1,2) by (auto simp: split)
    with con show ?thesis by (simp add: K1_def)
  qed
qed

section \<open>Counts and digests of the parts of a range\<close>

lemma parts_fold:
  assumes "\<forall>k\<in>set ks. nibble k b < length out"
  shows "length (fold (\<lambda>k out. out[nibble k b := (fst (out ! nibble k b) + 1, xor_bytes (snd (out ! nibble k b)) (f k))]) ks out) = length out \<and>
    (\<forall>n<length out. fold (\<lambda>k out. out[nibble k b := (fst (out ! nibble k b) + 1, xor_bytes (snd (out ! nibble k b)) (f k))]) ks out ! n =
      (fst (out ! n) + length (filter (\<lambda>k. nibble k b = n) ks),
       fold (\<lambda>x d. xor_bytes d x) (map f (filter (\<lambda>k. nibble k b = n) ks)) (snd (out ! n))))"
  using assms
proof (induction ks arbitrary: out)
  case (Cons k ks)
  let ?out = "out[nibble k b := (fst (out ! nibble k b) + 1, xor_bytes (snd (out ! nibble k b)) (f k))]"
  from Cons.IH [of ?out] Cons.prems show ?case by (auto simp: nth_list_update)
qed simp

lemma nibble_less: "nibble k b < 16"
  by (simp add: nibble_def)

lemma parts_of:
  assumes "keys_ok item K"
  shows "length (parts K p b) = 16"
    "n < 16 \<Longrightarrow> parts K p b ! n = (length (filter (\<lambda>k. nibble k b = n) (keys_within K p b)),
       xsum (map (\<lambda>k. item k (the (contents K k))) (filter (\<lambda>k. nibble k b = n) (keys_within K p b))))"
proof -
  define f where "f = (\<lambda>k. snd (the (k_entries K (hex k))))"
  have parts: "parts K p b = fold (\<lambda>k out. out[nibble k b := (fst (out ! nibble k b) + 1, xor_bytes (snd (out ! nibble k b)) (f k))])
      (keys_within K p b) (replicate 16 (0, zero32))"
    by (simp add: parts_def Let_def PARTS_def f_def)
  have "\<forall>k\<in>set (keys_within K p b). nibble k b < length (replicate 16 (0::nat, zero32))" by (simp add: nibble_less)
  note fold = parts_fold [OF this, of f]
  show "length (parts K p b) = 16" using fold by (simp add: parts)
  have "set (keys_within K p b) \<subseteq> set (k_sorted K)"
    by (auto simp: keys_within_def split_def Let_def dest: in_set_takeD in_set_dropD)
  then have "f k = item k (the (contents K k))" if "k \<in> set (keys_within K p b)" for k
  proof -
    from \<open>set (keys_within K p b) \<subseteq> set (k_sorted K)\<close> that have "contents K k \<noteq> None"
      using keys_okD(6) [OF assms] by blast
    then obtain m i where "k_entries K (hex k) = Some (m, i)" by (auto simp: contents_def)
    with keys_okD(4) [OF assms this] show ?thesis by (simp add: f_def contents_def)
  qed
  then have same: "map f (filter (\<lambda>k. nibble k b = n) (keys_within K p b)) =
      map (\<lambda>k. item k (the (contents K k))) (filter (\<lambda>k. nibble k b = n) (keys_within K p b))"
    by (intro map_cong refl) auto
  assume n: "n < 16"
  then have "parts K p b ! n = (length (filter (\<lambda>k. nibble k b = n) (keys_within K p b)),
       fold (\<lambda>x d. xor_bytes d x) (map f (filter (\<lambda>k. nibble k b = n) (keys_within K p b))) zero32)"
    using fold by (simp add: parts)
  then show "parts K p b ! n = (length (filter (\<lambda>k. nibble k b = n) (keys_within K p b)),
       xsum (map (\<lambda>k. item k (the (contents K k))) (filter (\<lambda>k. nibble k b = n) (keys_within K p b))))"
    unfolding same xsum_def .
qed

lemma lengthOf_contents: "lengthOf K k = (case contents K k of None \<Rightarrow> -1 | Some n \<Rightarrow> int n)"
  by (auto simp: lengthOf_def contents_def split: option.split)

lemma count_of_within: "keys_ok item K \<Longrightarrow> valid_range p b \<Longrightarrow> count_of K p b = length (keys_within K p b)"
proof -
  assume "keys_ok item K"
  then have "sorted (k_sorted K)" by (rule keys_okD)
  then have "snd (range_of K p b) \<le> length (k_sorted K)"
    using index_split(1) [of K] by (auto simp: range_of_def Let_def Suc_leI)
  then show ?thesis by (auto simp: count_of_def keys_within_def split: prod.split)
qed

lemma within_set:
  assumes "keys_ok item K" "valid_range p b"
  shows "set (keys_within K p b) = {k. contents K k \<noteq> None \<and> in_range k p b}" "sorted (keys_within K p b)"
    "distinct (keys_within K p b)"
  using keys_okD [OF assms(1)] sorted_filter [of "\<lambda>x. x" "k_sorted K"]
  unfolding keys_within_filter [OF assms] by auto

lemma has_contents: "keys_ok item K \<Longrightarrow> has K k \<longleftrightarrow> contents K k \<noteq> None"
proof -
  assume ok: "keys_ok item K"
  note K = keys_okD [OF ok]
  define i where "i = index_of K k"
  have split: "drop i (k_sorted K) = filter (\<lambda>x. \<not> x < k) (k_sorted K)" "i \<le> length (k_sorted K)"
    using index_split [OF K(1), of k] by (simp_all add: i_def)
  have "k \<in> set (k_sorted K) \<longleftrightarrow> k \<in> set (drop i (k_sorted K))" unfolding split by auto
  also have "\<dots> \<longleftrightarrow> i < length (k_sorted K) \<and> k_sorted K ! i = k"
  proof
    assume k: "k \<in> set (drop i (k_sorted K))"
    then have i: "i < length (k_sorted K)" by (cases "i < length (k_sorted K)") auto
    then have d: "drop i (k_sorted K) = k_sorted K ! i # drop (Suc i) (k_sorted K)" by (simp add: Cons_nth_drop_Suc)
    have "k_sorted K ! i \<in> set (filter (\<lambda>x. \<not> x < k) (k_sorted K))" unfolding split(1) [symmetric] d by simp
    then have "k \<le> k_sorted K ! i" by auto
    moreover have "sorted (drop i (k_sorted K))" using K(1) by (simp add: sorted_wrt_drop)
    then have "k_sorted K ! i \<le> k" using k unfolding d by auto
    ultimately show "i < length (k_sorted K) \<and> k_sorted K ! i = k" using i by simp
  next
    assume i: "i < length (k_sorted K) \<and> k_sorted K ! i = k"
    then show "k \<in> set (drop i (k_sorted K))" by (metis Cons_nth_drop_Suc list.set_intros(1))
  qed
  finally show ?thesis unfolding has_def Let_def i_def [symmetric] K(6) [symmetric] by blast
qed

text \<open>C27: The keys a peer holds behave as the map from keys to lengths they stand for: setting and
  deleting change it at that key and keep the invariant, and what is asked of it (has, length, the keys of a
  range and their number, found by binary search between the range's bounds) is what the map says.\<close>

theorem keys_are_a_map:
  assumes "keys_ok item K" "sized item" "length key = 32"
  shows "keys_ok item (set_key item key n K) \<and> contents (set_key item key n K) = (contents K)(key \<mapsto> n) \<and>
    keys_ok item (delete_key key K) \<and> contents (delete_key key K) = (contents K)(key := None) \<and>
    has K k = (contents K k \<noteq> None) \<and> lengthOf K k = (case contents K k of None \<Rightarrow> -1 | Some m \<Rightarrow> int m) \<and>
    (valid_range p b \<longrightarrow> set (keys_within K p b) = {k. contents K k \<noteq> None \<and> in_range k p b} \<and>
       distinct (keys_within K p b) \<and> count_of K p b = card {k. contents K k \<noteq> None \<and> in_range k p b})"
  using set_key_ok [OF assms] delete_key_ok [OF assms(1,2)] has_contents [OF assms(1)] lengthOf_contents
    within_set [OF assms(1)] count_of_within [OF assms(1)] distinct_card [of "keys_within K p b"]
  by (metis (mono_tags, lifting))

theorem keys_are_a_map_witness:
  "contents (set_key (\<lambda>k n. replicate 32 1) (replicate 32 7) 5 no_keys) = [replicate 32 7 \<mapsto> 5]"
  using keys_are_a_map [OF no_keys_ok, of "\<lambda>k n. replicate 32 1" "replicate 32 7" 5]
  by (simp add: sized_def) (simp add: contents_def no_keys_def fun_eq_iff)

section \<open>As a set of keys\<close>

text \<open>What a session asks of the keys: each range's keys, their number and the parts' counts and digests.\<close>

locale key_set =
  fixes ok :: "'s \<Rightarrow> bool" and held :: "'s \<Rightarrow> bytes \<rightharpoonup> nat" and inside :: "'s \<Rightarrow> bytes \<Rightarrow> nat \<Rightarrow> bytes list"
    and number :: "'s \<Rightarrow> bytes \<Rightarrow> nat \<Rightarrow> nat" and part_list :: "'s \<Rightarrow> bytes \<Rightarrow> nat \<Rightarrow> (nat \<times> bytes) list"
    and item :: item
  assumes inside: "ok s \<Longrightarrow> valid_range p b \<Longrightarrow> set (inside s p b) = {k. held s k \<noteq> None \<and> in_range k p b}"
    and inside_sorted: "ok s \<Longrightarrow> valid_range p b \<Longrightarrow> sorted (inside s p b) \<and> distinct (inside s p b)"
    and key_length: "ok s \<Longrightarrow> held s k \<noteq> None \<Longrightarrow> length k = 32"
    and number: "ok s \<Longrightarrow> valid_range p b \<Longrightarrow> number s p b = length (inside s p b)"
    and part_count: "ok s \<Longrightarrow> length (part_list s p b) = 16"
    and part: "ok s \<Longrightarrow> n < 16 \<Longrightarrow> part_list s p b ! n =
      (length (filter (\<lambda>k. nibble k b = n) (inside s p b)),
       xsum (map (\<lambda>k. item k (the (held s k))) (filter (\<lambda>k. nibble k b = n) (inside s p b))))"

interpretation peer: key_set "keys_ok item" contents keys_within count_of parts item
proof unfold_locales
  fix s k assume "keys_ok item s" "contents s k \<noteq> None"
  then show "length k = 32" using keys_okD(3,6) by blast
qed (use within_set count_of_within parts_of in \<open>simp_all\<close>)

end
