(* ===== verification/Sessions.thy ===== *)
theory Sessions
  imports Ranges
begin

text \<open>
  One peer's side of the exchange that settles two lists of log keys (lib/ranges.js, class Session):
  the answers to a \<open>ranges\<close> and to a \<open>keys\<close> message. \<open>take\<close> is the answer of the session's
  callback. The lemmas are about the ranges below a range, their tags and the chunks of an answer:
  theory Settling rests on them.
\<close>

section \<open>Messages and sessions\<close>

datatype message =
    RangesMsg bytes nat "(nat \<times> bytes) list"
  | KeysMsg bytes nat nat "bytes list" "nat list"

fun answered :: "message \<Rightarrow> bool" where
  "answered (RangesMsg p b ps) = True"
| "answered (KeysMsg p b kind ks ns) = (kind = 0 \<or> kind = 1)"

record session =
  s_keys :: keys
  s_expect :: "nat \<times> string \<rightharpoonup> nat \<times> bytes"

definition new_session :: "keys \<Rightarrow> session" where
  "new_session K = \<lparr>s_keys = K, s_expect = Map.empty\<rparr>"

definition lengthsOf :: "keys \<Rightarrow> bytes list \<Rightarrow> nat list" where
  "lengthsOf K ks = map (\<lambda>k. nat (lengthOf K k)) ks"

definition keysMessage :: "keys \<Rightarrow> bytes \<Rightarrow> nat \<Rightarrow> nat \<Rightarrow> bytes list \<Rightarrow> message" where
  "keysMessage K prefix bits kind ks = KeysMsg prefix bits kind ks (lengthsOf K ks)"

definition start :: "session \<Rightarrow> message" where
  "start S = RangesMsg [] 0 (parts (s_keys S) [] 0)"

text \<open>The answer to one of the 16 parts of a peer's range, and what is expected of the peer for it.\<close>

definition onPart :: "bool \<Rightarrow> bytes \<Rightarrow> nat \<Rightarrow> (nat \<times> bytes) list \<Rightarrow> nat \<Rightarrow> message list \<times> session \<Rightarrow> message list \<times> session" where
  "onPart tk p b ps i = (\<lambda>(out, S).
     let K = s_keys S; mine = parts K p b ! i; theirs = ps ! i; prefix = child p b i; bits = b + 4
     in if fst theirs = fst mine \<and> snd theirs = snd mine then (out, S)
        else if \<not> tk then
          if fst mine > FEW then (out @ [RangesMsg prefix bits (parts K prefix bits)], S)
          else if fst mine \<noteq> 0 then (out @ [keysMessage K prefix bits 2 (keys_within K prefix bits)], S)
          else (out, S)
        else if fst theirs \<le> FEW then
          (out @ [KeysMsg prefix bits 1 [] []], S\<lparr>s_expect := (s_expect S)(tag prefix bits \<mapsto> theirs)\<rparr>)
        else if fst mine \<le> FEW then (out @ [keysMessage K prefix bits 0 (keys_within K prefix bits)], S)
        else (out @ [RangesMsg prefix bits (parts K prefix bits)], S))"

fun onRanges :: "bool \<Rightarrow> session \<Rightarrow> message \<Rightarrow> message list \<times> session" where
  "onRanges tk S (RangesMsg p b ps) =
     (if \<not> valid_range p b \<or> length ps \<noteq> PARTS \<or> b + 4 > MAX_BITS then ([], S)
      else let (out, S') = fold (onPart tk p b ps) [0..<PARTS] ([], S) in (out @ [KeysMsg p b 3 [] []], S'))"
| "onRanges tk S (KeysMsg p b kind ks ns) = ([], S)"

record reply =
  r_out :: "message list"
  r_learn :: "(bytes \<times> nat) list"
  r_ignored :: bool
  r_done :: bool

definition none_reply :: reply where
  "none_reply = \<lparr>r_out = [], r_learn = [], r_ignored = True, r_done = False\<rparr>"

definition reply_of :: "message list \<Rightarrow> (bytes \<times> nat) list \<Rightarrow> reply" where
  "reply_of out learn = \<lparr>r_out = out, r_learn = learn, r_ignored = False, r_done = False\<rparr>"

definition safe_length :: "nat \<Rightarrow> bool" where
  "safe_length n \<longleftrightarrow> int n \<le> 2 ^ 53 - 1"

function chunks :: "'a list \<Rightarrow> 'a list list" where
  "chunks xs = (if xs = [] then [] else take CHUNK xs # chunks (drop CHUNK xs))"
  by pat_completeness auto
termination by (relation "measure length") (auto simp: CHUNK_def)

declare chunks.simps [simp del]

definition learnt_of :: "keys \<Rightarrow> bytes list \<Rightarrow> nat list \<Rightarrow> (bytes \<times> nat) list" where
  "learnt_of K ks ns = filter (\<lambda>(k, n). int n > lengthOf K k) (zip ks ns)"

text \<open>The keys of the range the peer lacks, or holds shorter.\<close>

definition lack_of :: "keys \<Rightarrow> bytes \<Rightarrow> nat \<Rightarrow> bytes list \<Rightarrow> nat list \<Rightarrow> bytes list" where
  "lack_of K p b ks ns =
     (let theirs = map_of (rev (zip (map hex ks) ns))
      in filter (\<lambda>k. \<not> (case theirs (hex k) of None \<Rightarrow> False | Some n \<Rightarrow> int n \<ge> lengthOf K k)) (keys_within K p b))"

fun onKeys :: "item \<Rightarrow> bool \<Rightarrow> session \<Rightarrow> message \<Rightarrow> reply \<times> session" where
  "onKeys item tk S (KeysMsg p b kind ks ns) =
     (let K = s_keys S; done = KeysMsg p b 3 [] []
      in if \<not> valid_range p b \<or> length ks > CHUNK then (none_reply, S)
         else if kind = 3 then (none_reply\<lparr>r_ignored := False, r_done := True\<rparr>, S)
         else if \<not> list_all (\<lambda>k. length k = 32 \<and> in_range k p b) ks then (none_reply, S)
         else if length ns \<noteq> length ks \<or> \<not> list_all safe_length ns then (none_reply, S)
         else if kind = 1 then
           if count_of K p b > FEW then (reply_of [RangesMsg p b (parts K p b), done] [], S)
           else (reply_of [keysMessage K p b (if tk then 0 else 2) (keys_within K p b), done] [], S)
         else if kind = 2 then (reply_of [] (learnt_of K ks ns), S)
         else if kind \<noteq> 0 then (none_reply, S)
         else
           let expected = s_expect S (tag p b);
               S' = S\<lparr>s_expect := (s_expect S)(tag p b := None)\<rparr>
           in if (case expected of None \<Rightarrow> False | Some (c, d) \<Rightarrow> c \<noteq> length ks \<or> d \<noteq> digestOf item ks ns)
              then (none_reply\<lparr>r_out := [done]\<rparr>, S')
              else if expected = None \<and> length ks > FEW then (none_reply\<lparr>r_out := [done]\<rparr>, S')
              else (reply_of (map (keysMessage K p b 2) (chunks (lack_of K p b ks ns)) @ [done]) (learnt_of K ks ns), S'))"
| "onKeys item tk S (RangesMsg p b ps) = (none_reply, S)"

section \<open>The ranges below a range\<close>

lemma byte_or_all: "list_all (\<lambda>h. list_all (\<lambda>i. unat (((of_nat (16 * h) :: byte)) OR of_nat i) = 16 * h + i) [0..<16]) [0..<16]"
  by code_simp
lemma byte_push_all: "list_all (\<lambda>i. unat (push_bit 4 (of_nat i :: byte)) = 16 * i) [0..<16]"
  by code_simp

lemma byte_or: 
  assumes "i < 16"
  shows "unat (((y :: byte) AND 0xf0) OR of_nat i) = unat y div 16 * 16 + i"
proof -
  have h: "unat y div 16 < 16" using unat_byte [of y] by auto
  have "unat (y AND 0xf0) = unat y div 16 * 16"
    using byte_nibbles_all unat_byte [of y] by (auto simp: list_all_iff dest!: bspec [of _ _ "unat y"])
  then have "of_nat (unat (y AND 0xf0)) = (of_nat (16 * (unat y div 16)) :: byte)" by (simp only: mult.commute)
  then have "y AND 0xf0 = of_nat (16 * (unat y div 16))" by (simp only: of_nat_unat ucast_id)
  with byte_or_all h assms show ?thesis by (simp add: list_all_iff)
qed

lemma child_bytes:
  assumes "valid_range p b" "i < 16"
  shows "length (child p b i) = b div 8 + 1" "j < b div 8 \<Longrightarrow> child p b i ! j = p ! j"
    "unat (child p b i ! (b div 8)) = (if b mod 8 = 0 then 16 * i else unat (p ! (b div 8)) div 16 * 16 + i)"
proof -
  have b: "b mod 4 = 0" "(b + 7) div 8 \<le> length p" using assms(1) by (simp_all add: valid_range_def)
  from b(1) have m: "b mod 8 = 0 \<or> b mod 8 = 4" by presburger
  then have n: "(b + 4 + 7) div 8 = b div 8 + 1" by presburger
  from b(2) have l: "b div 8 \<le> length p" by presburger
  from b(2) m have l4: "b mod 8 = 4 \<Longrightarrow> b div 8 < length p" by presburger
  define out where "out = take (b div 8 + 1) p @ replicate (b div 8 + 1 - length p) (0 :: byte)"
  have out: "length out = b div 8 + 1" "j < b div 8 \<Longrightarrow> out ! j = p ! j" "b div 8 < length p \<Longrightarrow> out ! (b div 8) = p ! (b div 8)" for j
    using l by (auto simp: out_def nth_append)
  have child: "child p b i = (if b mod 8 = 0 then out[b div 8 := push_bit 4 (of_nat i)]
         else out[b div 8 := (out ! (b div 8) AND 0xf0) OR of_nat i])"
    by (simp only: child_def Let_def n out_def)
  show "length (child p b i) = b div 8 + 1" "j < b div 8 \<Longrightarrow> child p b i ! j = p ! j"
    using out by (simp_all add: child)
  show "unat (child p b i ! (b div 8)) = (if b mod 8 = 0 then 16 * i else unat (p ! (b div 8)) div 16 * 16 + i)"
  proof (cases "b mod 8 = 0")
    case True
    with out(1) byte_push_all assms(2) show ?thesis by (simp add: child list_all_iff)
  next
    case False
    with m l4 have "b div 8 < length p" by blast
    with out byte_or [OF assms(2), of "p ! (b div 8)"] False show ?thesis by (simp add: child)
  qed
qed

lemma quads: "n mod 4 = 0 \<Longrightarrow> \<exists>q. n = 8 * q \<or> n = 8 * q + 4" for n :: nat
  by presburger

lemma eights: "(8 * q + 4) div 8 = q" "(8 * q + 4) mod 8 = 4" "8 * q div 8 = q" "8 * q mod 8 = 0" for q :: nat
  by presburger+

lemma nibble_child:
  assumes "valid_range p b" "i < 16"
  shows "nibble (child p b i) b = i" "j < b \<Longrightarrow> j mod 4 = 0 \<Longrightarrow> nibble (child p b i) j = nibble p j"
proof -
  note c = child_bytes [OF assms]
  have b: "b mod 4 = 0" using assms(1) by (simp add: valid_range_def)
  show "nibble (child p b i) b = i" using assms(2) by (simp add: nibble_def c(3))
  assume j: "j < b" "j mod 4 = 0"
  show "nibble (child p b i) j = nibble p j"
  proof (cases "j div 8 < b div 8")
    case True
    with c(2) show ?thesis by (simp add: nibble_def)
  next
    case False
    obtain c d where "b = 8 * c \<or> b = 8 * c + 4" "j = 8 * d \<or> j = 8 * d + 4"
      using quads [OF b] quads [OF j(2)] by blast
    with False j(1) have "j div 8 = b div 8 \<and> j mod 8 = 0 \<and> b mod 8 \<noteq> 0" by (auto simp: eights)
    with assms(2) show ?thesis by (simp add: nibble_def c(3))
  qed
qed

lemma child_valid:
  assumes "valid_range p b" "i < 16" "b + 4 \<le> MAX_BITS"
  shows "valid_range (child p b i) (b + 4)"
proof -
  have b: "b mod 4 = 0" using assms(1) by (simp add: valid_range_def)
  then have "(b + 4 + 7) div 8 \<le> b div 8 + 1" by presburger
  with assms b child_bytes(1) [OF assms(1,2)] show ?thesis by (simp add: valid_range_def mod_add_left_eq [symmetric, of b 4 4])
qed

lemma in_range_child:
  assumes "valid_range p b" "i < 16"
  shows "in_range k (child p b i) (b + 4) \<longleftrightarrow> in_range k p b \<and> nibble k b = i"
proof -
  have b: "b mod 4 = 0" using assms(1) by (simp add: valid_range_def)
  have split: "(\<forall>j<b + 4. j mod 4 = 0 \<longrightarrow> P j) \<longleftrightarrow> (\<forall>j<b. j mod 4 = 0 \<longrightarrow> P j) \<and> P b" for P
  proof -
    have e: "j < b + 4 \<and> j mod 4 = 0 \<longleftrightarrow> (j < b \<and> j mod 4 = 0) \<or> j = b" for j
    proof -
      obtain c where c: "b = 4 * c" using b by (metis mod_0_imp_dvd dvdE)
      show ?thesis
      proof (cases "j mod 4 = 0")
        case True
        then obtain d where d: "j = 4 * d" by (metis mod_0_imp_dvd dvdE)
        have "4 * d < 4 * c + 4 \<longleftrightarrow> 4 * d < 4 * c \<or> 4 * d = 4 * c" by presburger
        then have "j < b + 4 \<longleftrightarrow> j < b \<or> j = b" by (simp only: c d)
        with True show ?thesis by (simp only: simp_thms)
      qed (use b in auto)
    qed
    have "(\<forall>j<b + 4. j mod 4 = 0 \<longrightarrow> P j) \<longleftrightarrow> (\<forall>j. j < b + 4 \<and> j mod 4 = 0 \<longrightarrow> P j)" by (simp only: imp_conjL)
    also have "\<dots> \<longleftrightarrow> (\<forall>j<b. j mod 4 = 0 \<longrightarrow> P j) \<and> P b" unfolding e by (metis (full_types))
    finally show ?thesis .
  qed
  show ?thesis unfolding in_range_all split using nibble_child [OF assms] by auto
qed

lemma tag_range:
  assumes "tag p b = tag q c" 
  shows "b = c" "in_range k p b \<longleftrightarrow> in_range k q c"
proof -
  from assms have e: "b = c" "take ((b + 7) div 8) p = take ((b + 7) div 8) q" by (auto simp: tag_def hex_inject)
  show "b = c" by (rule e)
  have "nibble p j = nibble q j" if "j < b" for j
  proof -
    from that have "(j + 8) div 8 \<le> (b + 7) div 8" by (intro div_le_mono) simp
    then have "j div 8 < (b + 7) div 8" by simp
    then have "p ! (j div 8) = q ! (j div 8)" using arg_cong [OF e(2), of "\<lambda>x. x ! (j div 8)"] by simp
    then show ?thesis by (simp add: nibble_def)
  qed
  then show "in_range k p b \<longleftrightarrow> in_range k q c" by (auto simp: in_range_all e(1) [symmetric])
qed

lemma within_cong:
  assumes "keys_ok item K" "valid_range p b" "valid_range q c" "\<And>k. in_range k p b \<longleftrightarrow> in_range k q c"
  shows "keys_within K p b = keys_within K q c"
  using keys_within_filter [OF assms(1,2)] keys_within_filter [OF assms(1,3)] assms(4) by simp

lemma within_child:
  assumes "keys_ok item K" "valid_range p b" "i < 16" "b + 4 \<le> MAX_BITS"
  shows "keys_within K (child p b i) (b + 4) = filter (\<lambda>k. nibble k b = i) (keys_within K p b)"
  using keys_within_filter [OF assms(1,2)] keys_within_filter [OF assms(1) child_valid [OF assms(2-4)]]
    in_range_child [OF assms(2,3)] by (simp add: conj_commute)

text \<open>A range of 252 bits holds at most 16 keys: no deeper range is needed.\<close>

lemma same_nibbles:
  assumes "length k = 32" "length k' = 32" "\<And>j. j < 256 \<Longrightarrow> j mod 4 = 0 \<Longrightarrow> nibble k j = nibble k' j"
  shows "k = k'"
proof (rule nth_equalityI)
  fix n assume "n < length k"
  with assms(1) have n: "8 * n < 256" "8 * n + 4 < 256" "8 * n mod 4 = 0" "(8 * n + 4) mod 4 = 0" by presburger+
  have "unat (k ! n) div 16 = unat (k' ! n) div 16"
    using assms(3) [OF n(1,3)] unat_byte [of "k ! n"] unat_byte [of "k' ! n"] by (simp add: nibble_def)
  moreover have "(8 * n + 4) div 8 = n" "(8 * n + 4) mod 8 = 4" by presburger+
  then have "unat (k ! n) mod 16 = unat (k' ! n) mod 16"
    using assms(3) [OF n(2,4)] by (simp add: nibble_def)
  ultimately show "k ! n = k' ! n" using nibbles_eq by blast
qed (use assms in simp)

lemma deepest_few:
  assumes "keys_ok item K" "valid_range p MAX_BITS"
  shows "length (keys_within K p MAX_BITS) \<le> FEW"
proof -
  note w = within_set [OF assms]
  have "inj_on (\<lambda>k. nibble k 252) (set (keys_within K p MAX_BITS))"
  proof (rule inj_onI)
    fix k k' assume k: "k \<in> set (keys_within K p MAX_BITS)" "k' \<in> set (keys_within K p MAX_BITS)" "nibble k 252 = nibble k' 252"
    have "length k = 32" "length k' = 32" using k(1,2) w(1) keys_okD(3,6) [OF assms(1)] by blast+
    moreover have "nibble k j = nibble k' j" if "j < 256" "j mod 4 = 0" for j
    proof (cases "j < 252")
      case True
      with k(1,2) w(1) that show ?thesis by (auto simp: in_range_all MAX_BITS_def)
    next
      case False
      with that have "j = 252" by presburger
      with k(3) show ?thesis by simp
    qed
    ultimately show "k = k'" by (rule same_nibbles)
  qed
  moreover have "(\<lambda>k. nibble k 252) ` set (keys_within K p MAX_BITS) \<subseteq> {..<16}" by (auto simp: nibble_less)
  ultimately have "card (set (keys_within K p MAX_BITS)) \<le> card {..<16::nat}" by (metis card_inj_on_le finite_lessThan)
  then show ?thesis using w(3) by (simp add: distinct_card FEW_def)
qed

lemma digest_within:
  assumes "keys_ok item K" "set ks \<subseteq> dom (contents K)"
  shows "digestOf item ks (lengthsOf K ks) = xsum (map (\<lambda>k. item k (the (contents K k))) ks)"
proof -
  have "map2 item ks (lengthsOf K ks) = map (\<lambda>k. item k (the (contents K k))) ks"
    using assms(2) by (induction ks) (auto simp: lengthsOf_def lengthOf_contents)
  moreover have "digestOf item ks ns = xsum (map2 item ks ns)" for ns
    by (simp add: digestOf_def xsum_def fold_map o_def split_def)
  ultimately show ?thesis by simp
qed

lemma concat_chunks: "concat (chunks xs) = xs"
  by (induction xs rule: chunks.induct) (subst chunks.simps, simp)

lemma chunks_size: "c \<in> set (chunks xs) \<Longrightarrow> length c \<le> CHUNK"
proof (induction xs rule: chunks.induct)
  case (1 xs)
  from "1.prems" "1.IH" show ?case by (subst (asm) chunks.simps) (auto split: if_splits)
qed

lemma chunks_number: "length (chunks xs) \<le> length xs"
proof (induction xs rule: chunks.induct)
  case (1 xs)
  show ?case
  proof (cases "xs = []")
    case False
    with 1 have "length (chunks (drop CHUNK xs)) \<le> length xs - CHUNK" by simp
    moreover from False have "0 < length xs" by simp
    ultimately have "Suc (length (chunks (drop CHUNK xs))) \<le> length xs" unfolding CHUNK_def by linarith
    with False show ?thesis by (subst chunks.simps) simp
  qed (subst chunks.simps, simp)
qed

end
