(* ===== verification/Settling.thy ===== *)
theory Settling
  imports Sessions
begin

text \<open>
  Two sessions of theory Sessions over fixed sets of keys (lib/ranges.js; lib/directory.js sends the
  messages), with the messages that are under way; \<open>deliver\<close> hands any one of them over, so that
  every order of delivery is a schedule. What the two sides hold may change during an exchange in
  the running program; here it is fixed, and the next exchange starts from what was kept.
\<close>

section \<open>Two sessions and the messages between them\<close>

record exchange =
  x_session :: "bool \<Rightarrow> session"
  x_flight :: "(bool \<times> message) list" \<comment> \<open>each with the side it goes to\<close>
  x_learnt :: "bool \<Rightarrow> (bytes \<times> nat) list"

definition handle :: "item \<Rightarrow> (bool \<Rightarrow> bool) \<Rightarrow> bool \<Rightarrow> message \<Rightarrow> session \<Rightarrow> message list \<times> (bytes \<times> nat) list \<times> session" where
  "handle item tk s m S =
     (case m of
        RangesMsg p b ps \<Rightarrow> (let (out, S') = onRanges (tk s) S m in (out, [], S'))
      | KeysMsg p b kind ks ns \<Rightarrow> (let (r, S') = onKeys item (tk s) S m in (r_out r, r_learn r, S')))"

text \<open>The \<open>i\<close>-th message under way is delivered, answered, and its answers sent.\<close>

definition deliver :: "item \<Rightarrow> (bool \<Rightarrow> bool) \<Rightarrow> nat \<Rightarrow> exchange \<Rightarrow> exchange option" where
  "deliver item tk i X =
     (if i < length (x_flight X) then
        let (s, m) = x_flight X ! i;
            (out, learn, S) = handle item tk s m (x_session X s)
        in Some \<lparr>x_session = (x_session X)(s := S),
                 x_flight = take i (x_flight X) @ drop (Suc i) (x_flight X) @ map (Pair (\<not> s)) out,
                 x_learnt = (x_learnt X)(s := x_learnt X s @ learn)\<rparr>
      else None)"

fun deliver_all :: "item \<Rightarrow> (bool \<Rightarrow> bool) \<Rightarrow> nat list \<Rightarrow> exchange \<Rightarrow> exchange option" where
  "deliver_all item tk [] X = Some X"
| "deliver_all item tk (i # is) X = (case deliver item tk i X of None \<Rightarrow> None | Some Y \<Rightarrow> deliver_all item tk is Y)"

text \<open>The start: one of the two sides, or both, sends its ranges.\<close>

definition begun :: "(bool \<Rightarrow> keys) \<Rightarrow> bool list \<Rightarrow> exchange" where
  "begun K who = \<lparr>x_session = (\<lambda>s. new_session (K s)),
     x_flight = map (\<lambda>s. (\<not> s, start (new_session (K s)))) who, x_learnt = (\<lambda>s. [])\<rparr>"

section \<open>What the exchange relies on\<close>

text \<open>What a side tells of a range: the number of its keys and their digest.\<close>

definition told :: "item \<Rightarrow> keys \<Rightarrow> bytes \<Rightarrow> nat \<Rightarrow> nat \<times> bytes" where
  "told item K p b = (length (keys_within K p b), xsum (map (\<lambda>k. item k (the (contents K k))) (keys_within K p b)))"

text \<open>The two sets: lengths a peer accepts, and no range in which they differ with the same count and digest.\<close>

definition settled_sets :: "item \<Rightarrow> (bool \<Rightarrow> keys) \<Rightarrow> bool" where
  "settled_sets item K \<longleftrightarrow> sized item \<and> (\<forall>s. keys_ok item (K s)) \<and>
     (\<forall>s k n. contents (K s) k = Some n \<longrightarrow> safe_length n) \<and>
     (\<forall>p b. valid_range p b \<longrightarrow> told item (K True) p b = told item (K False) p b \<longrightarrow>
        (\<forall>k. in_range k p b \<longrightarrow> contents (K True) k = contents (K False) k))"

lemma settledD:
  assumes "settled_sets item K"
  shows "sized item" "keys_ok item (K s)" "contents (K s) k = Some n \<Longrightarrow> safe_length n"
    "valid_range p b \<Longrightarrow> told item (K s) p b = told item (K (\<not> s)) p b \<Longrightarrow> in_range k p b \<Longrightarrow>
       contents (K x) k = contents (K y) k"
  using assms unfolding settled_sets_def by (cases s; cases x; cases y; simp)+

definition longer :: "(bool \<Rightarrow> keys) \<Rightarrow> bool \<Rightarrow> bytes \<Rightarrow> bool" where
  "longer K x k \<longleftrightarrow> lengthOf (K (\<not> x)) k < lengthOf (K x) k"

text \<open>What side \<open>s\<close> is to learn: the keys the other side holds more of.\<close>

definition missing :: "(bool \<Rightarrow> keys) \<Rightarrow> bool \<Rightarrow> (bytes \<times> nat) set" where
  "missing K s = {(k, n). lengthOf (K (\<not> s)) k = int n \<and> lengthOf (K s) k < int n}"

lemma longer_within:
  assumes "settled_sets item K" "longer K x k" "valid_range p b" "in_range k p b"
  shows "k \<in> set (keys_within (K x) p b)"
  using assms(2,4) within_set(1) [OF settledD(2) [OF assms(1)] assms(3), of x]
  by (auto simp: longer_def lengthOf_contents split: option.splits)

lemma parts_told:
  assumes "keys_ok item K" "valid_range p b" "b + 4 \<le> MAX_BITS" "i < 16"
  shows "parts K p b ! i = told item K (child p b i) (b + 4)"
  using parts_of(2) [OF assms(1,4)] within_child [OF assms(1,2,4,3)] by (simp add: told_def)

section \<open>Genuine messages\<close>

text \<open>The messages under way to side \<open>s\<close> are what the other side's keys give.\<close>

fun genuine :: "(bool \<Rightarrow> keys) \<Rightarrow> bool \<Rightarrow> message \<Rightarrow> bool" where
  "genuine K s (RangesMsg p b ps) \<longleftrightarrow> valid_range p b \<and> b + 4 \<le> MAX_BITS \<and> ps = parts (K (\<not> s)) p b"
| "genuine K s (KeysMsg p b kind ks ns) \<longleftrightarrow> valid_range p b \<and> ns = lengthsOf (K (\<not> s)) ks \<and>
     (kind = 3 \<and> ks = [] \<or> kind = 1 \<and> ks = [] \<and> length (keys_within (K s) p b) \<le> FEW \<or>
      kind = 0 \<and> ks = keys_within (K (\<not> s)) p b \<and> length ks \<le> FEW \<or>
      kind = 2 \<and> set ks \<subseteq> set (keys_within (K (\<not> s)) p b) \<and> length ks \<le> CHUNK)"

definition sess_ok :: "item \<Rightarrow> (bool \<Rightarrow> keys) \<Rightarrow> bool \<Rightarrow> session \<Rightarrow> bool" where
  "sess_ok item K s S \<longleftrightarrow> s_keys S = K s \<and>
     (\<forall>p b v. valid_range p b \<longrightarrow> s_expect S (tag p b) = Some v \<longrightarrow> v = told item (K (\<not> s)) p b)"

lemma sess_okD:
  assumes "sess_ok item K s S"
  shows "s_keys S = K s" "valid_range p b \<Longrightarrow> s_expect S (tag p b) = Some v \<Longrightarrow> v = told item (K (\<not> s)) p b"
  using assms unfolding sess_ok_def by blast+

text \<open>The messages that will make side \<open>\<not> x\<close> learn a key side \<open>x\<close> holds more of.\<close>

fun covers :: "bool \<Rightarrow> bytes \<Rightarrow> bool \<Rightarrow> message \<Rightarrow> bool" where
  "covers x k s (RangesMsg p b ps) \<longleftrightarrow> in_range k p b"
| "covers x k s (KeysMsg p b kind ks ns) \<longleftrightarrow> in_range k p b \<and> (kind = 0 \<or> kind = 1 \<or> kind = 2 \<and> s = (\<not> x) \<and> k \<in> set ks)"

text \<open>A bound of the messages that answers to a message may still bring.\<close>

fun weight :: "nat \<Rightarrow> message \<Rightarrow> nat" where
  "weight n (RangesMsg p b ps) = 17 ^ ((MAX_BITS - b) div 4) * (n + 4)"
| "weight n (KeysMsg p b kind ks ns) = (if kind = 1 then n + 4 else if kind = 0 then n + 2 else 1)"

definition held_in_all :: "(bool \<Rightarrow> keys) \<Rightarrow> nat" where
  "held_in_all K = length (k_sorted (K True)) + length (k_sorted (K False))"

lemma within_length: "length (keys_within K p b) \<le> length (k_sorted K)"
  by (simp add: keys_within_def split_def Let_def)

text \<open>What an answer of side \<open>s\<close> brings: genuine messages of less weight, and cover of what a range covered.\<close>

definition answers :: "item \<Rightarrow> (bool \<Rightarrow> keys) \<Rightarrow> (bool \<Rightarrow> bool) \<Rightarrow> bool \<Rightarrow> bytes \<Rightarrow> nat \<Rightarrow> message list \<Rightarrow> bool" where
  "answers item K tk s p b out \<longleftrightarrow> list_all (genuine K (\<not> s)) out \<and>
     (\<forall>x k. longer K x k \<longrightarrow> tk (\<not> x) \<longrightarrow> in_range k p b \<longrightarrow> (\<exists>m\<in>set out. covers x k (\<not> s) m))"

lemma onPart_new:
  assumes "settled_sets item K" "sess_ok item K s S" "valid_range p b" "b + 4 \<le> MAX_BITS"
    "ps = parts (K (\<not> s)) p b" "i < 16"
  shows "\<exists>new S'. onPart (tk s) p b ps i (out, S) = (out @ new, S') \<and> sess_ok item K s S' \<and>
    answers item K tk s (child p b i) (b + 4) new \<and> length new \<le> 1 \<and>
    (\<forall>m\<in>set new. weight n m \<le> 17 ^ ((MAX_BITS - (b + 4)) div 4) * (n + 4))"
proof -
  define q c where "q = child p b i" and "c = b + 4"
  note ok = settledD(2) [OF assms(1)]
  have keys: "s_keys S = K s" using assms(2) by (simp add: sess_ok_def)
  have c: "c \<le> MAX_BITS" "c mod 4 = 0" using assms(3,4) by (simp_all add: c_def valid_range_def mod_add_left_eq [symmetric, of b 4 4])
  have q: "valid_range q c" using child_valid [OF assms(3,6,4)] by (simp add: q_def c_def)
  have mine: "parts (K s) p b ! i = told item (K s) q c" and theirs: "ps ! i = told item (K (\<not> s)) q c"
    using parts_told [OF ok assms(3,4,6)] by (simp_all add: assms(5) q_def c_def)
  have deep: "c + 4 \<le> MAX_BITS" if "\<not> fst (told item (K y) q c) \<le> FEW" for y
  proof (rule ccontr)
    assume "\<not> c + 4 \<le> MAX_BITS"
    with c have "c = MAX_BITS" unfolding MAX_BITS_def by presburger
    with deepest_few [OF ok [of y], of q] q that show False by (simp add: told_def)
  qed
  have chunk: "FEW \<le> CHUNK" by (simp add: FEW_def CHUNK_def)
  have w: "n + 4 \<le> 17 ^ ((MAX_BITS - c) div 4) * (n + 4)" by simp
  note within = longer_within [OF assms(1) _ q]
  consider (same) "told item (K (\<not> s)) q c = told item (K s) q c"
    | (deeper) "told item (K (\<not> s)) q c \<noteq> told item (K s) q c" "\<not> fst (told item (K s) q c) \<le> FEW" "tk s \<longrightarrow> \<not> fst (told item (K (\<not> s)) q c) \<le> FEW"
    | (send) "told item (K (\<not> s)) q c \<noteq> told item (K s) q c" "fst (told item (K s) q c) \<le> FEW" "\<not> tk s"
    | (ask) "told item (K (\<not> s)) q c \<noteq> told item (K s) q c" "fst (told item (K (\<not> s)) q c) \<le> FEW" "tk s"
    | (offer) "told item (K (\<not> s)) q c \<noteq> told item (K s) q c" "\<not> fst (told item (K (\<not> s)) q c) \<le> FEW" "fst (told item (K s) q c) \<le> FEW" "tk s"
    by blast
  then show ?thesis
  proof cases
    case same
    have "onPart (tk s) p b ps i (out, S) = (out @ [], S)"
      using same by (simp add: onPart_def Let_def keys mine theirs)
    moreover have "\<not> (longer K x k \<and> in_range k q c)" for x k
      using settledD(4) [OF assms(1) q, of s k x "\<not> x"] same by (auto simp: longer_def lengthOf_contents)
    ultimately show ?thesis using assms(2) by (intro exI [of _ "[]"] exI [of _ S]) (auto simp: answers_def q_def c_def)
  next
    case deeper
    have "onPart (tk s) p b ps i (out, S) = (out @ [RangesMsg q c (parts (K s) q c)], S)"
      using deeper by (auto simp: onPart_def Let_def keys mine theirs q_def [symmetric] c_def [symmetric] prod_eq_iff)
    then show ?thesis using assms(2) q deep [OF deeper(2)]
      by (intro exI [of _ "[RangesMsg q c (parts (K s) q c)]"] exI [of _ S]) (auto simp: answers_def q_def c_def)
  next
    case send
    show ?thesis
    proof (cases "fst (told item (K s) q c) = 0")
      case True
      have "onPart (tk s) p b ps i (out, S) = (out @ [], S)"
        using send True by (auto simp: onPart_def Let_def keys mine theirs q_def [symmetric] c_def [symmetric] prod_eq_iff)
      moreover have "\<not> (longer K x k \<and> tk (\<not> x) \<and> in_range k q c)" for x k
      proof
        assume l: "longer K x k \<and> tk (\<not> x) \<and> in_range k q c"
        with send(3) have "x = s" by (cases x; cases s) auto
        with within [of x k] l True show False by (simp add: told_def)
      qed
      ultimately show ?thesis using assms(2) by (intro exI [of _ "[]"] exI [of _ S]) (auto simp: answers_def q_def c_def)
    next
      case False
      define m where "m = keysMessage (K s) q c 2 (keys_within (K s) q c)"
      have "onPart (tk s) p b ps i (out, S) = (out @ [m], S)"
        using send False by (auto simp: onPart_def Let_def keys mine theirs q_def [symmetric] c_def [symmetric] m_def prod_eq_iff)
      moreover have "covers x k (\<not> s) m" if "longer K x k" "tk (\<not> x)" "in_range k q c" for x k
      proof -
        from send(3) that(2) have "x = s" by (cases x; cases s) auto
        with within [of x k] that show ?thesis by (simp add: m_def keysMessage_def)
      qed
      moreover have "genuine K (\<not> s) m" using send(2) q chunk by (simp add: m_def keysMessage_def told_def)
      moreover have "weight n m \<le> 17 ^ ((MAX_BITS - c) div 4) * (n + 4)" using w by (simp add: m_def keysMessage_def)
      ultimately show ?thesis using assms(2) by (intro exI [of _ "[m]"] exI [of _ S]) (auto simp: answers_def q_def c_def)
    qed
  next
    case ask
    define S' where "S' = S\<lparr>s_expect := (s_expect S)(tag q c \<mapsto> ps ! i)\<rparr>"
    have "onPart (tk s) p b ps i (out, S) = (out @ [KeysMsg q c 1 [] []], S')"
      using ask by (auto simp: onPart_def Let_def keys mine theirs q_def [symmetric] c_def [symmetric] S'_def prod_eq_iff)
    moreover have "sess_ok item K s S'"
      unfolding sess_ok_def
    proof (intro conjI allI impI)
      fix p' b' v assume v: "valid_range p' b'" "s_expect S' (tag p' b') = Some v"
      show "v = told item (K (\<not> s)) p' b'"
      proof (cases "tag p' b' = tag q c")
        case True
        with v have "v = told item (K (\<not> s)) q c" by (simp add: S'_def theirs)
        also have "\<dots> = told item (K (\<not> s)) p' b'"
          using within_cong [OF ok v(1) q tag_range(2) [OF True]] by (simp add: told_def)
        finally show ?thesis .
      next
        case False
        with v have "s_expect S (tag p' b') = Some v" by (simp add: S'_def)
        with sess_okD(2) [OF assms(2) v(1)] show ?thesis by blast
      qed
    qed (simp add: S'_def keys)
    moreover have "genuine K (\<not> s) (KeysMsg q c 1 [] [])" using q ask(2) by (simp add: told_def lengthsOf_def)
    ultimately show ?thesis using w
      by (intro exI [of _ "[KeysMsg q c 1 [] []]"] exI [of _ S']) (auto simp: answers_def q_def c_def)
  next
    case offer
    define m where "m = keysMessage (K s) q c 0 (keys_within (K s) q c)"
    have "onPart (tk s) p b ps i (out, S) = (out @ [m], S)"
      using offer by (auto simp: onPart_def Let_def keys mine theirs q_def [symmetric] c_def [symmetric] m_def prod_eq_iff)
    moreover have "genuine K (\<not> s) m" using offer(3) q by (simp add: m_def keysMessage_def told_def)
    moreover have "weight n m \<le> n + 4" by (simp add: m_def keysMessage_def)
    with w have "weight n m \<le> 17 ^ ((MAX_BITS - c) div 4) * (n + 4)" by (rule order_trans [rotated])
    ultimately show ?thesis using assms(2)
      by (intro exI [of _ "[m]"] exI [of _ S]) (auto simp: answers_def q_def c_def m_def keysMessage_def)
  qed
qed


lemma onParts_new:
  assumes "settled_sets item K" "sess_ok item K s S" "valid_range p b" "b + 4 \<le> MAX_BITS" "ps = parts (K (\<not> s)) p b"
  shows "j \<le> 16 \<Longrightarrow> \<exists>out S'. fold (onPart (tk s) p b ps) [0..<j] ([], S) = (out, S') \<and> sess_ok item K s S' \<and>
    list_all (genuine K (\<not> s)) out \<and> sum_list (map (weight n) out) \<le> j * (17 ^ ((MAX_BITS - (b + 4)) div 4) * (n + 4)) \<and>
    (\<forall>x k. longer K x k \<longrightarrow> tk (\<not> x) \<longrightarrow> in_range k p b \<longrightarrow> nibble k b < j \<longrightarrow> (\<exists>m\<in>set out. covers x k (\<not> s) m))"
proof (induction j)
  case 0
  with assms(2) show ?case by (intro exI [of _ "[]"] exI [of _ S]) simp
next
  case (Suc j)
  define B where "B = 17 ^ ((MAX_BITS - (b + 4)) div 4) * (n + 4)"
  from Suc obtain out S1 where IH: "fold (onPart (tk s) p b ps) [0..<j] ([], S) = (out, S1)" "sess_ok item K s S1"
      "list_all (genuine K (\<not> s)) out" "sum_list (map (weight n) out) \<le> j * B"
      "\<And>x k. longer K x k \<Longrightarrow> tk (\<not> x) \<Longrightarrow> in_range k p b \<Longrightarrow> nibble k b < j \<Longrightarrow> \<exists>m\<in>set out. covers x k (\<not> s) m"
    unfolding B_def by force
  from Suc.prems have j: "j < 16" by simp
  from onPart_new [OF assms(1) IH(2) assms(3-5) j, of tk out n]
  obtain new S2 where new: "onPart (tk s) p b ps j (out, S1) = (out @ new, S2)" "sess_ok item K s S2"
      "answers item K tk s (child p b j) (b + 4) new" "length new \<le> 1" "\<And>m. m \<in> set new \<Longrightarrow> weight n m \<le> B"
    unfolding B_def by blast
  have "sum_list (map (weight n) new) \<le> B" using new(4,5) by (cases new) auto
  with IH(4) have "sum_list (map (weight n) (out @ new)) \<le> Suc j * B" by simp
  moreover have "\<exists>m\<in>set (out @ new). covers x k (\<not> s) m"
    if k: "longer K x k" "tk (\<not> x)" "in_range k p b" "nibble k b < Suc j" for x k
  proof (cases "nibble k b = j")
    case True
    with in_range_child [OF assms(3) j] k(3) have "in_range k (child p b j) (b + 4)" by simp
    with new(3) k(1,2) show ?thesis unfolding answers_def by auto
  next
    case False
    with IH(5) [OF k(1-3)] k(4) show ?thesis by auto
  qed
  moreover have "list_all (genuine K (\<not> s)) (out @ new)" using IH(3) new(3) by (simp add: answers_def)
  moreover have "fold (onPart (tk s) p b ps) [0..<Suc j] ([], S) = (out @ new, S2)" by (simp add: IH(1) new(1))
  ultimately show ?case using new(2) unfolding B_def by blast
qed

definition answered_well :: "item \<Rightarrow> (bool \<Rightarrow> keys) \<Rightarrow> (bool \<Rightarrow> bool) \<Rightarrow> bool \<Rightarrow> message \<Rightarrow> message list \<times> (bytes \<times> nat) list \<times> session \<Rightarrow> bool" where
  "answered_well item K tk s m = (\<lambda>(out, learn, S').
     sess_ok item K s S' \<and> list_all (genuine K (\<not> s)) out \<and> set learn \<subseteq> missing K s \<and>
     sum_list (map (weight (held_in_all K)) out) < weight (held_in_all K) m \<and>
     (\<forall>x k. longer K x k \<longrightarrow> tk (\<not> x) \<longrightarrow> covers x k s m \<longrightarrow>
        (\<exists>m'\<in>set out. covers x k (\<not> s) m') \<or> s = (\<not> x) \<and> (k, nat (lengthOf (K x) k)) \<in> set learn))"

lemma ranges_answered:
  assumes "settled_sets item K" "sess_ok item K s S" "genuine K s (RangesMsg p b ps)"
  shows "answered_well item K tk s (RangesMsg p b ps) (handle item tk s (RangesMsg p b ps) S)"
proof -
  define n where "n = held_in_all K"
  define B where "B = 17 ^ ((MAX_BITS - (b + 4)) div 4) * (n + 4)"
  from assms(3) have g: "valid_range p b" "b + 4 \<le> MAX_BITS" "ps = parts (K (\<not> s)) p b" by simp_all
  have len: "length ps = 16" using parts_of(1) [OF settledD(2) [OF assms(1)]] g(3) by simp
  from onParts_new [OF assms(1,2) g order_refl, of tk n]
  obtain out S' where f: "fold (onPart (tk s) p b ps) [0..<16] ([], S) = (out, S')" "sess_ok item K s S'"
      "list_all (genuine K (\<not> s)) out" "sum_list (map (weight n) out) \<le> 16 * B"
      "\<And>x k. longer K x k \<Longrightarrow> tk (\<not> x) \<Longrightarrow> in_range k p b \<Longrightarrow> nibble k b < 16 \<Longrightarrow> \<exists>m\<in>set out. covers x k (\<not> s) m"
    unfolding B_def by blast
  have h: "handle item tk s (RangesMsg p b ps) S = (out @ [KeysMsg p b 3 [] []], [], S')"
    using g(1,2) len f(1) by (simp add: handle_def PARTS_def)
  obtain d where d: "MAX_BITS = b + 4 + d" using g(2) le_Suc_ex by blast
  have w: "weight n (RangesMsg p b ps) = 17 * B" by (simp add: B_def d)
  obtain X where "(17 :: nat) ^ ((MAX_BITS - (b + 4)) div 4) = Suc X" using not0_implies_Suc by fastforce
  then have "1 < B" by (simp add: B_def)
  with w f(4) have "sum_list (map (weight n) (out @ [KeysMsg p b 3 [] []])) < weight n (RangesMsg p b ps)" by simp
  with f(2,3,5) g(1) nibble_less show ?thesis
    unfolding answered_well_def h n_def by (auto simp: lengthsOf_def)
qed


lemma lengths_map: "lengthsOf K ks = map (\<lambda>k. nat (lengthOf K k)) ks"
  by (simp add: lengthsOf_def)

lemma theirs_of:
  "map_of (rev (zip (map hex ks) (lengthsOf K ks))) (hex k) = (if k \<in> set ks then Some (nat (lengthOf K k)) else None)"
proof (cases "k \<in> set ks")
  case True
  have z: "set (zip (map hex ks) (lengthsOf K ks)) = (\<lambda>k. (hex k, nat (lengthOf K k))) ` set ks"
    unfolding lengths_map by (induction ks) auto
  have "map_of (rev (zip (map hex ks) (lengthsOf K ks))) (hex k) \<noteq> None"
    unfolding map_of_eq_None_iff set_rev z using True by force
  then obtain n where n: "map_of (rev (zip (map hex ks) (lengthsOf K ks))) (hex k) = Some n" by blast
  from map_of_SomeD [OF this] have "(hex k, n) \<in> (\<lambda>k. (hex k, nat (lengthOf K k))) ` set ks" unfolding set_rev z .
  with n True show ?thesis by (auto simp: hex_inject)
next
  case False
  have "fst ` set (zip (map hex ks) (lengthsOf K ks)) = hex ` set ks"
    unfolding lengths_map by (induction ks) auto
  with False show ?thesis by (auto simp: map_of_eq_None_iff hex_inject)
qed

lemma learnt_lengths:
  "set (learnt_of K ks (lengthsOf K' ks)) = {(k, n). k \<in> set ks \<and> n = nat (lengthOf K' k) \<and> lengthOf K k < int n}"
  unfolding learnt_of_def lengths_map by (induction ks) auto

lemma lack_lengths:
  "set (lack_of K p b ks (lengthsOf K' ks)) =
     {k \<in> set (keys_within K p b). k \<in> set ks \<longrightarrow> int (nat (lengthOf K' k)) < lengthOf K k}"
  by (auto simp: lack_of_def theirs_of)

lemma within_held:
  assumes "settled_sets item K" "valid_range p b" "k \<in> set (keys_within (K s) p b)"
  shows "length k = 32" "in_range k p b" "safe_length (nat (lengthOf (K s) k))" "0 \<le> lengthOf (K s) k" "k \<in> dom (contents (K s))"
proof -
  from within_set(1) [OF settledD(2) [OF assms(1)] assms(2)] assms(3)
  have k: "contents (K s) k \<noteq> None" "in_range k p b" by blast+
  then show "k \<in> dom (contents (K s))" "in_range k p b" by auto
  from k obtain n where n: "contents (K s) k = Some n" by blast
  with settledD(3) [OF assms(1)] show "safe_length (nat (lengthOf (K s) k))" "0 \<le> lengthOf (K s) k"
    by (auto simp: lengthOf_contents)
  from k(1) keys_okD(3,6) [OF settledD(2) [OF assms(1)]] show "length k = 32" by blast
qed

lemma learnt_missing:
  assumes "settled_sets item K" "valid_range p b" "set ks \<subseteq> set (keys_within (K (\<not> s)) p b)"
  shows "set (learnt_of (K s) ks (lengthsOf (K (\<not> s)) ks)) \<subseteq> missing K s"
    "longer K (\<not> s) k \<Longrightarrow> k \<in> set ks \<Longrightarrow> (k, nat (lengthOf (K (\<not> s)) k)) \<in> set (learnt_of (K s) ks (lengthsOf (K (\<not> s)) ks))"
  using within_held(4) [OF assms(1,2)] assms(3) unfolding learnt_lengths missing_def longer_def by fastforce+

lemma keys_accepted:
  assumes "settled_sets item K" "valid_range p b" "set ks \<subseteq> set (keys_within (K s) p b)"
  shows "list_all (\<lambda>k. length k = 32 \<and> in_range k p b) ks" "length (lengthsOf (K s) ks) = length ks"
    "list_all safe_length (lengthsOf (K s) ks)"
  using within_held(1-3) [OF assms(1,2)] assms(3) by (auto simp: list_all_iff lengthsOf_def)

text \<open>The answer to the keys of a range: what it brings, whatever was expected.\<close>

lemma offered_answered:
  assumes "settled_sets item K" "sess_ok item K s S" "genuine K s (KeysMsg p b 0 ks ns)"
  shows "answered_well item K tk s (KeysMsg p b 0 ks ns) (handle item tk s (KeysMsg p b 0 ks ns) S)"
proof -
  define n where "n = held_in_all K"
  from assms(3) have g: "valid_range p b" "ns = lengthsOf (K (\<not> s)) ks" "ks = keys_within (K (\<not> s)) p b" "length ks \<le> FEW" by auto
  have "set ks \<subseteq> set (keys_within (K (\<not> s)) p b)" using g(3) by simp
  note acc = keys_accepted [OF assms(1) g(1) this, folded g(2)]
  define S' where "S' = S\<lparr>s_expect := (s_expect S)(tag p b := None)\<rparr>"
  define lack where "lack = lack_of (K s) p b ks ns"
  define out where "out = map (keysMessage (K s) p b 2) (chunks lack) @ [KeysMsg p b 3 [] []]"
  have "digestOf item ks ns = snd (told item (K (\<not> s)) p b)"
    using digest_within [OF settledD(2) [OF assms(1)], of ks "\<not> s"] within_held(5) [OF assms(1) g(1)] g(2,3)
    by (auto simp: told_def)
  then have exp: "\<not> (case s_expect S (tag p b) of None \<Rightarrow> False | Some (c, d) \<Rightarrow> c \<noteq> length ks \<or> d \<noteq> digestOf item ks ns)"
    using sess_okD(2) [OF assms(2) g(1)] g(3) by (auto simp: told_def split: option.splits)
  have few: "length ks \<le> CHUNK" using g(4) by (simp add: FEW_def CHUNK_def)
  have h: "handle item tk s (KeysMsg p b 0 ks ns) S = (out, learnt_of (K s) ks ns, S')"
    using acc g(1,4) few exp sess_okD(1) [OF assms(2)]
    by (simp add: handle_def Let_def reply_of_def S'_def out_def lack_def not_less)
  have lack: "set lack \<subseteq> set (keys_within (K s) p b)" unfolding lack_def g(2) lack_lengths by blast
  have gen: "list_all (genuine K (\<not> s)) out"
  proof -
    have "set c \<subseteq> set lack" if "c \<in> set (chunks lack)" for c
      using that concat_chunks [of lack] by (metis set_concat UN_upper)
    with lack chunks_size g(1) show ?thesis by (fastforce simp: out_def list_all_iff keysMessage_def lengthsOf_def)
  qed
  have "length (chunks lack) \<le> n"
  proof -
    have "length lack \<le> length (keys_within (K s) p b)" by (simp add: lack_def lack_of_def Let_def)
    also have "\<dots> \<le> n" using within_length [of "K s" p b] by (cases s) (auto simp: n_def held_in_all_def)
    finally show ?thesis using chunks_number [of lack] by simp
  qed
  moreover have "sum_list (map (weight n) (map (keysMessage (K s) p b 2) cs)) = length cs" for cs
    by (induction cs) (simp_all add: keysMessage_def)
  ultimately have w: "sum_list (map (weight n) out) < weight n (KeysMsg p b 0 ks ns)" by (simp add: out_def)
  have cover: "(\<exists>m'\<in>set out. covers x k (\<not> s) m') \<or> s = (\<not> x) \<and> (k, nat (lengthOf (K x) k)) \<in> set (learnt_of (K s) ks ns)"
    if k: "longer K x k" "in_range k p b" for x k
  proof (cases "s = x")
    case True
    with k longer_within [OF assms(1) k(1) g(1) k(2)] within_held(4) [OF assms(1) g(1), of k "\<not> s"]
    have "k \<in> set lack" unfolding lack_def g(2) lack_lengths by (auto simp: longer_def g(3))
    then obtain c where "c \<in> set (chunks lack)" "k \<in> set c" using concat_chunks [of lack] by (metis UN_iff set_concat)
    with k(2) True have "keysMessage (K s) p b 2 c \<in> set out \<and> covers x k (\<not> s) (keysMessage (K s) p b 2 c)"
      by (auto simp: out_def keysMessage_def)
    then show ?thesis by blast
  next
    case False
    then have x: "x = (\<not> s)" by blast
    with longer_within [OF assms(1) k(1) g(1) k(2)] have "k \<in> set ks" by (simp add: g(3))
    with learnt_missing(2) [OF assms(1) g(1)] k(1) show ?thesis by (auto simp: x g(2,3))
  qed
  have "sess_ok item K s S'" using assms(2) unfolding sess_ok_def by (auto simp: S'_def)
  with gen w cover learnt_missing(1) [OF assms(1) g(1), of ks s] show ?thesis
    unfolding answered_well_def h n_def by (auto simp: g(2,3))
qed

lemma keys_answered:
  assumes "settled_sets item K" "sess_ok item K s S" "genuine K s (KeysMsg p b kind ks ns)"
  shows "answered_well item K tk s (KeysMsg p b kind ks ns) (handle item tk s (KeysMsg p b kind ks ns) S)"
proof -
  from assms(3) have g: "valid_range p b" "ns = lengthsOf (K (\<not> s)) ks" by auto
  have chunk: "FEW \<le> CHUNK" by (simp add: FEW_def CHUNK_def)
  note keys = sess_okD(1) [OF assms(2)]
  consider (finish) "kind = 3" "ks = []" | (ask) "kind = 1" "ks = []" "length (keys_within (K s) p b) \<le> FEW"
    | (offer) "kind = 0" | (lacking) "kind = 2" "set ks \<subseteq> set (keys_within (K (\<not> s)) p b)" "length ks \<le> CHUNK"
    using assms(3) by auto
  then show ?thesis
  proof cases
    case finish
    with g(1) have "handle item tk s (KeysMsg p b kind ks ns) S = ([], [], S)"
      by (simp add: handle_def none_reply_def Let_def)
    with finish assms(2) show ?thesis by (simp add: answered_well_def)
  next
    case ask
    define m where "m = keysMessage (K s) p b (if tk s then 0 else 2) (keys_within (K s) p b)"
    have "count_of (K s) p b \<le> FEW" using ask(3) count_of_within [OF settledD(2) [OF assms(1)] g(1)] by simp
    with ask g have h: "handle item tk s (KeysMsg p b kind ks ns) S = ([m, KeysMsg p b 3 [] []], [], S)"
      by (simp add: handle_def Let_def reply_of_def keys m_def lengthsOf_def)
    have "covers x k (\<not> s) m" if "longer K x k" "tk (\<not> x)" "in_range k p b" for x k
    proof (cases "s = x")
      case True
      with longer_within [OF assms(1) that(1) g(1) that(3)] that(3) show ?thesis by (simp add: m_def keysMessage_def)
    next
      case False
      then have "x = (\<not> s)" by blast
      with that show ?thesis by (simp add: m_def keysMessage_def)
    qed
    moreover have "genuine K (\<not> s) m" using ask(3) g(1) chunk by (simp add: m_def keysMessage_def)
    moreover have "weight (held_in_all K) m + 1 < weight (held_in_all K) (KeysMsg p b kind ks ns)"
      by (simp add: m_def keysMessage_def ask(1))
    ultimately show ?thesis using assms(2) g(1) unfolding answered_well_def h by (auto simp: ask lengthsOf_def)
  next
    case offer
    with offered_answered [OF assms(1,2)] assms(3) show ?thesis by blast
  next
    case lacking
    note acc = keys_accepted [OF assms(1) g(1) lacking(2), folded g(2)]
    have h: "handle item tk s (KeysMsg p b kind ks ns) S = ([], learnt_of (K s) ks ns, S)"
      using acc lacking(1,3) g(1) by (simp add: handle_def Let_def reply_of_def keys not_less)
    show ?thesis using assms(2) learnt_missing [OF assms(1) g(1) lacking(2)] lacking(1)
      unfolding answered_well_def h by (auto simp: g(2))
  qed
qed

lemma handled:
  assumes "settled_sets item K" "sess_ok item K s S" "genuine K s m"
  shows "answered_well item K tk s m (handle item tk s m S)"
  using assms ranges_answered keys_answered by (cases m) blast+


section \<open>Every order of delivery\<close>

definition exchange_ok :: "item \<Rightarrow> (bool \<Rightarrow> keys) \<Rightarrow> (bool \<Rightarrow> bool) \<Rightarrow> exchange \<Rightarrow> bool" where
  "exchange_ok item K tk X \<longleftrightarrow> (\<forall>s. sess_ok item K s (x_session X s)) \<and>
     list_all (\<lambda>(s, m). genuine K s m) (x_flight X) \<and> (\<forall>s. set (x_learnt X s) \<subseteq> missing K s) \<and>
     (\<forall>x k. longer K x k \<longrightarrow> tk (\<not> x) \<longrightarrow>
        list_ex (\<lambda>(s, m). covers x k s m) (x_flight X) \<or> (k, nat (lengthOf (K x) k)) \<in> set (x_learnt X (\<not> x)))"

lemma exchange_okD:
  assumes "exchange_ok item K tk X"
  shows "sess_ok item K s (x_session X s)" "list_all (\<lambda>(s, m). genuine K s m) (x_flight X)"
    "set (x_learnt X s) \<subseteq> missing K s"
    "longer K x k \<Longrightarrow> tk (\<not> x) \<Longrightarrow>
       list_ex (\<lambda>(s, m). covers x k s m) (x_flight X) \<or> (k, nat (lengthOf (K x) k)) \<in> set (x_learnt X (\<not> x))"
  using assms unfolding exchange_ok_def by blast+

definition flight_load :: "(bool \<Rightarrow> keys) \<Rightarrow> exchange \<Rightarrow> nat" where
  "flight_load K X = sum_list (map (\<lambda>(s, m). weight (held_in_all K) m) (x_flight X))"

lemma deliver_ok:
  assumes "settled_sets item K" "exchange_ok item K tk X" "deliver item tk i X = Some Y"
  shows "exchange_ok item K tk Y \<and> flight_load K Y < flight_load K X"
proof -
  define n where "n = held_in_all K"
  from assms(3) have i: "i < length (x_flight X)" by (simp add: deliver_def split: if_splits)
  obtain s m where sm: "x_flight X ! i = (s, m)" by (cases "x_flight X ! i")
  define as bs where "as = take i (x_flight X)" and "bs = drop (Suc i) (x_flight X)"
  have flight: "x_flight X = as @ (s, m) # bs" using id_take_nth_drop [OF i] by (simp add: as_def bs_def sm)
  obtain out learn S where h: "handle item tk s m (x_session X s) = (out, learn, S)" by (metis prod_cases3)
  have Y: "Y = \<lparr>x_session = (x_session X)(s := S), x_flight = as @ bs @ map (Pair (\<not> s)) out,
      x_learnt = (x_learnt X)(s := x_learnt X s @ learn)\<rparr>"
    using assms(3) i by (simp add: deliver_def sm h as_def bs_def)
  have ok: "\<And>s. sess_ok item K s (x_session X s)" "list_all (\<lambda>(s, m). genuine K s m) (as @ (s, m) # bs)"
      "\<And>s. set (x_learnt X s) \<subseteq> missing K s"
      "\<And>x k. longer K x k \<Longrightarrow> tk (\<not> x) \<Longrightarrow> list_ex (\<lambda>(s, m). covers x k s m) (as @ (s, m) # bs) \<or>
        (k, nat (lengthOf (K x) k)) \<in> set (x_learnt X (\<not> x))"
    using assms(2) unfolding exchange_ok_def flight by blast+
  from handled [OF assms(1) ok(1), of s m tk] ok(2)
  have a: "sess_ok item K s S" "list_all (genuine K (\<not> s)) out" "set learn \<subseteq> missing K s"
      "sum_list (map (weight n) out) < weight n m"
      "\<And>x k. longer K x k \<Longrightarrow> tk (\<not> x) \<Longrightarrow> covers x k s m \<Longrightarrow>
        (\<exists>m'\<in>set out. covers x k (\<not> s) m') \<or> s = (\<not> x) \<and> (k, nat (lengthOf (K x) k)) \<in> set learn"
    unfolding answered_well_def h n_def by auto
  have "flight_load K Y < flight_load K X"
    using a(4) by (simp add: flight_load_def Y flight o_def n_def [symmetric])
  moreover have "list_ex (\<lambda>(s, m). covers x k s m) (x_flight Y) \<or> (k, nat (lengthOf (K x) k)) \<in> set (x_learnt Y (\<not> x))"
    if k: "longer K x k" "tk (\<not> x)" for x k
  proof -
    consider (other) "list_ex (\<lambda>(s, m). covers x k s m) (as @ bs)" | (this) "covers x k s m"
      | (known) "(k, nat (lengthOf (K x) k)) \<in> set (x_learnt X (\<not> x))"
      using ok(4) [OF k] by auto
    then show ?thesis
    proof cases
      case other
      then show ?thesis by (auto simp: Y)
    next
      case this
      with a(5) [OF k] show ?thesis by (auto simp: Y list_ex_iff)
    next
      case known
      then show ?thesis by (auto simp: Y)
    qed
  qed
  moreover have "list_all (\<lambda>(s, m). genuine K s m) (x_flight Y)"
    using ok(2) a(2) by (auto simp: Y list_all_iff)
  moreover have "sess_ok item K t (x_session Y t)" "set (x_learnt Y t) \<subseteq> missing K t" for t
    using ok(1,3) a(1,3) by (auto simp: Y)
  ultimately show ?thesis unfolding exchange_ok_def by blast
qed

lemma deliver_all_ok:
  assumes "settled_sets item K" "exchange_ok item K tk X" "deliver_all item tk is X = Some Y"
  shows "exchange_ok item K tk Y \<and> length is + flight_load K Y \<le> flight_load K X"
  using assms(2,3)
proof (induction "is" arbitrary: X)
  case (Cons i "is")
  from Cons.prems(2) obtain Z where Z: "deliver item tk i X = Some Z" "deliver_all item tk is Z = Some Y"
    by (auto split: option.splits)
  from deliver_ok [OF assms(1) Cons.prems(1) Z(1)] Cons.IH [OF _ Z(2)] show ?case by auto
qed simp

lemma begun_ok:
  assumes "settled_sets item K" "who \<noteq> []"
  shows "exchange_ok item K tk (begun K who)" "flight_load K (begun K who) = length who * (17 ^ 63 * (held_in_all K + 4))"
proof -
  have "valid_range [] 0" by (simp add: valid_range_def)
  then have "list_all (\<lambda>(s, m). genuine K s m) (x_flight (begun K who))"
    by (auto simp: begun_def start_def new_session_def list_all_iff MAX_BITS_def)
  moreover have "list_ex (\<lambda>(s, m). covers x k s m) (x_flight (begun K who))" for x k
    using assms(2) by (cases who) (simp_all add: begun_def start_def in_range_def)
  moreover have "sess_ok item K s (x_session (begun K who) s)" for s
    by (simp add: sess_ok_def begun_def new_session_def)
  ultimately show "exchange_ok item K tk (begun K who)"
    unfolding exchange_ok_def by (auto simp: begun_def)
  show "flight_load K (begun K who) = length who * (17 ^ 63 * (held_in_all K + 4))"
    by (induction who) (simp_all add: flight_load_def begun_def start_def MAX_BITS_def)
qed

lemma nothing_under_way:
  assumes "exchange_ok item K tk X" "x_flight X = []" "tk s"
  shows "set (x_learnt X s) = missing K s"
proof
  show "set (x_learnt X s) \<subseteq> missing K s" using assms(1) by (simp add: exchange_ok_def)
  show "missing K s \<subseteq> set (x_learnt X s)"
  proof
    fix kn assume "kn \<in> missing K s"
    then obtain k n where kn: "kn = (k, n)" "longer K (\<not> s) k" "n = nat (lengthOf (K (\<not> s)) k)"
      by (auto simp: missing_def longer_def)
    from exchange_okD(4) [OF assms(1) kn(2)] assms(2,3)
    have "(k, nat (lengthOf (K (\<not> s)) k)) \<in> set (x_learnt X s)" by simp
    with kn show "kn \<in> set (x_learnt X s)" by simp
  qed
qed

text \<open>C28: Two sessions over two sets of keys that no range's count and digest confuse settle them: started
  by one side, the other or both, under every order of delivery of the messages, the exchange ends within
  a bound; what a side learns on the way is never anything but keys the other holds more of, with the length
  the other holds; and when nothing is under way any more, a side that takes keys has learnt all of them.\<close>

theorem exchange_settles:
  assumes "settled_sets item K" "who \<noteq> []" "deliver_all item tk is (begun K who) = Some X"
  shows "length is \<le> length who * (17 ^ 63 * (held_in_all K + 4)) \<and> (\<forall>s. set (x_learnt X s) \<subseteq> missing K s) \<and>
    (x_flight X = [] \<longrightarrow> (\<forall>s. tk s \<longrightarrow> set (x_learnt X s) = missing K s))"
proof -
  note b = begun_ok [OF assms(1,2)]
  note r = deliver_all_ok [OF assms(1) b(1) assms(3)]
  with b(2) [unfolded flight_load_def] have "length is \<le> length who * (17 ^ 63 * (held_in_all K + 4))"
    by (metis add_leD1 b(2))
  moreover have "\<forall>s. set (x_learnt X s) \<subseteq> missing K s" using r unfolding exchange_ok_def by blast
  ultimately show ?thesis using nothing_under_way r by blast
qed

text \<open>One side holds one key with length 5 and takes none, the other holds none: the answer to its ranges is the key.\<close>

definition one_item :: item where "one_item k n = replicate 32 1"

definition one_key :: "bool \<Rightarrow> keys" where
  "one_key s = (if s then set_key one_item (replicate 32 7) 5 no_keys else no_keys)"

lemma one_key_settled: "settled_sets one_item one_key"
proof -
  have sized: "sized one_item" by (simp add: sized_def one_item_def)
  have ok: "keys_ok one_item (one_key s)" for s
    using set_key_ok [OF no_keys_ok sized] no_keys_ok by (auto simp: one_key_def)
  have con: "contents (one_key True) = [replicate 32 7 \<mapsto> 5]" "contents (one_key False) = Map.empty"
    using set_key_ok [OF no_keys_ok sized, of "replicate 32 7" 5] by (auto simp: one_key_def contents_def no_keys_def fun_eq_iff)
  have "contents (one_key True) k = contents (one_key False) k"
    if r: "valid_range p b" "told one_item (one_key True) p b = told one_item (one_key False) p b" "in_range k p b" for p b k
  proof -
    have "keys_within (one_key False) p b = []" using within_set(1) [OF ok r(1), of False] con(2) by simp
    with r(2) have "keys_within (one_key True) p b = []" by (simp add: told_def)
    with within_set(1) [OF ok r(1), of True] r(3) have "contents (one_key True) k = None" by auto
    with con(2) show ?thesis by simp
  qed
  with sized ok con show ?thesis unfolding settled_sets_def by (auto simp: safe_length_def all_bool_eq split: if_splits)
qed





lemma one_key_run:
  "map_option (\<lambda>X. (x_flight X, x_learnt X False)) (deliver_all one_item Not [0, 0, 0] (begun one_key [False])) =
     Some ([], [(replicate 32 7, 5)])"
  by code_simp

theorem exchange_settles_witness:
  "\<exists>X. deliver_all one_item Not [0, 0, 0] (begun one_key [False]) = Some X \<and> missing one_key False = {(replicate 32 7, 5)}"
proof -
  obtain X where X: "deliver_all one_item Not [0, 0, 0] (begun one_key [False]) = Some X"
    "x_flight X = []" "x_learnt X False = [(replicate 32 7, 5)]"
    using one_key_run by auto
  from exchange_settles [OF one_key_settled _ X(1)] X(2) have "set (x_learnt X False) = missing one_key False" by blast
  with X(1,3) show ?thesis by (simp del: deliver_all.simps)
qed

end
