(* ===== verification/Codecs.thy ===== *)
theory Codecs
  imports Prelude "HOL-Library.Monad_Syntax"
begin

text \<open>
  What goes on the network (lib/encodings.js): record ids, the header of a log, records, decisions,
  invites and the messages of the space channel, as codecs built from the primitives of the package
  compact-encoding. The primitives are an argument \<open>P\<close> of every codec; \<open>prims_ok\<close> is what the package
  documents of them: each reads back what it wrote, whatever follows, and its size is what it adds to the
  buffer. \<open>c_size\<close>, \<open>c_put\<close> and \<open>c_get\<close> are preencode, encode and decode; a decoder that
  throws gives \<open>None\<close>. \<open>Z\<close> is the package z32: text of bytes and bytes of a text.
\<close>

section \<open>Values and primitives\<close>

datatype jsval =
    JUndef | JNull | JBool bool | JNum int
  | JReal "64 word" \<comment> \<open>a number that is no integer, by its bits\<close>
  | JStr string | JBuf bytes | JArr "jsval list" | JObj "(string \<times> jsval) list"

fun js_truthy :: "jsval \<Rightarrow> bool" where
  "js_truthy JUndef = False"
| "js_truthy JNull = False"
| "js_truthy (JBool b) = b"
| "js_truthy (JNum n) = (n \<noteq> 0)"
| "js_truthy (JStr s) = (s \<noteq> [])"
| "js_truthy v = True"

definition absent :: "jsval \<Rightarrow> bool" where
  "absent v \<longleftrightarrow> v = JUndef \<or> v = JNull"

fun prop_of :: "jsval \<Rightarrow> string \<Rightarrow> jsval" where
  "prop_of (JObj ps) name = (case map_of ps name of None \<Rightarrow> JUndef | Some v \<Rightarrow> v)"
| "prop_of v name = JUndef"

record 'a codec =
  c_size :: "'a \<Rightarrow> nat"
  c_put :: "'a \<Rightarrow> bytes"
  c_get :: "bytes \<Rightarrow> ('a \<times> bytes) option"

text \<open>\<open>c.encode\<close> and \<open>c.decode\<close>: bytes after the value are ignored.\<close>

definition decode :: "'a codec \<Rightarrow> bytes \<Rightarrow> 'a option" where
  "decode C bs = map_option fst (c_get C bs)"

record prims =
  p_uint :: "jsval codec"
  p_int :: "jsval codec"
  p_float :: "jsval codec"
  p_bool :: "jsval codec"
  p_string :: "jsval codec"
  p_fixed32 :: "jsval codec"
  p_buffer :: "jsval codec"
  p_raw :: "jsval codec"
  p_array :: "jsval codec \<Rightarrow> jsval codec"

record z32 =
  z_encode :: "bytes \<Rightarrow> string"
  z_decode :: "string \<Rightarrow> bytes option"

datatype hg_error = NOT_FOUND | INVALID_RECORD | INVALID_TYPE | INCOMPATIBLE_TYPES

section \<open>Optional values and structs\<close>

definition opt :: "prims \<Rightarrow> (jsval \<Rightarrow> bool) \<Rightarrow> jsval codec \<Rightarrow> jsval codec" where
  "opt P present C = \<lparr>
     c_size = (\<lambda>v. c_size (p_bool P) (JBool (present v)) + (if present v then c_size C v else 0)),
     c_put = (\<lambda>v. c_put (p_bool P) (JBool (present v)) @ (if present v then c_put C v else [])),
     c_get = (\<lambda>bs. do {
       (b, r) \<leftarrow> c_get (p_bool P) bs;
       if js_truthy b then c_get C r else Some (JNull, r) })\<rparr>"

definition trailing :: "prims \<Rightarrow> (jsval \<Rightarrow> bool) \<Rightarrow> jsval codec \<Rightarrow> jsval codec" where
  "trailing P present C = (opt P present C)\<lparr>
     c_get := (\<lambda>bs. if bs = [] then Some (JNull, []) else c_get (opt P present C) bs)\<rparr>"

definition optFixed32 :: "prims \<Rightarrow> jsval codec" where
  "optFixed32 P = opt P js_truthy (p_fixed32 P)"

definition optString :: "prims \<Rightarrow> jsval codec" where
  "optString P = opt P (\<lambda>v. \<not> absent v) (p_string P)"

definition optTrailingStrings :: "prims \<Rightarrow> jsval codec" where
  "optTrailingStrings P = trailing P js_truthy (p_array P (p_string P))"

definition optTrailingString :: "prims \<Rightarrow> jsval codec" where
  "optTrailingString P = trailing P (\<lambda>v. \<not> absent v) (p_string P)"

definition optTrailingBool :: "prims \<Rightarrow> jsval codec" where
  "optTrailingBool P = trailing P (\<lambda>v. \<not> absent v) (p_bool P)"

type_synonym fields = "(string \<times> jsval codec) list"

fun struct_get :: "fields \<Rightarrow> bytes \<Rightarrow> ((string \<times> jsval) list \<times> bytes) option" where
  "struct_get [] bs = Some ([], bs)"
| "struct_get ((name, C) # fs) bs = do {
     (v, r) \<leftarrow> c_get C bs;
     (vs, r') \<leftarrow> struct_get fs r;
     Some ((name, v) # vs, r') }"

definition struct :: "fields \<Rightarrow> jsval codec" where
  "struct fs = \<lparr>
     c_size = (\<lambda>v. sum_list (map (\<lambda>(name, C). c_size C (prop_of v name)) fs)),
     c_put = (\<lambda>v. concat (map (\<lambda>(name, C). c_put C (prop_of v name)) fs)),
     c_get = (\<lambda>bs. do { (vs, r) \<leftarrow> struct_get fs bs; Some (JObj vs, r) })\<rparr>"

definition listedLog :: "prims \<Rightarrow> jsval codec" where
  "listedLog P = struct [(''space'', p_fixed32 P), (''log'', p_fixed32 P)]"

definition cutEntry :: "prims \<Rightarrow> jsval codec" where
  "cutEntry P = struct [(''log'', p_fixed32 P), (''length'', p_uint P)]"

definition writeLimit :: "prims \<Rightarrow> jsval codec" where
  "writeLimit P = struct [(''records'', p_uint P), (''periodMs'', p_uint P)]"

definition optWriteLimit :: "prims \<Rightarrow> jsval codec" where
  "optWriteLimit P = opt P js_truthy (writeLimit P)"

section \<open>Decisions\<close>

definition DECISIONS :: "prims \<Rightarrow> (string \<times> fields) list" where
  "DECISIONS P = [
     (''space/init'', [(''name'', p_string P), (''parent'', optFixed32 P), (''private'', p_bool P), (''policy'', p_string P),
        (''version'', p_uint P), (''proof'', p_buffer P)]),
     (''member/add'', [(''identity'', p_fixed32 P)]),
     (''member/remove'', [(''identity'', p_fixed32 P), (''cut'', p_array P (cutEntry P))]),
     (''role/define'', [(''name'', p_string P), (''permissions'', p_array P (p_string P))]),
     (''role/set'', [(''identity'', p_fixed32 P), (''role'', p_string P), (''cut'', p_array P (cutEntry P))]),
     (''moderate'', [(''action'', p_string P), (''target'', p_buffer P), (''reason'', p_string P), (''cut'', p_array P (cutEntry P)),
        (''drop'', optTrailingString P)]),
     (''invite/create'', [(''invite'', p_buffer P)]),
     (''invite/revoke'', [(''invite'', p_buffer P)]),
     (''invite/redeem'', [(''redemption'', p_buffer P)]),
     (''key/rotate'', [(''epoch'', p_uint P), (''commit'', p_fixed32 P)]),
     (''subspace/create'', [(''key'', p_fixed32 P), (''name'', p_string P), (''private'', p_bool P), (''writeRoles'', p_array P (p_string P))]),
     (''settings/set'', [(''policy'', optString P), (''writeLimit'', optWriteLimit P), (''rules'', optTrailingStrings P),
        (''history'', optTrailingString P), (''helpers'', optTrailingStrings P), (''public'', optTrailingBool P)]),
     (''writer/add'', [(''key'', p_fixed32 P), (''proof'', p_buffer P)]),
     (''device/remove'', [(''device'', p_fixed32 P), (''cut'', p_buffer P), (''proof'', p_buffer P)]),
     (''scoped'', [(''space'', p_fixed32 P), (''decision'', p_buffer P)]),
     (''logs/list'', [(''logs'', p_array P (listedLog P))]),
     (''types/set'', [(''version'', p_uint P), (''types'', p_string P)])]"

definition DECISION_TYPES :: "string list" where
  "DECISION_TYPES = [''space/init'', ''member/add'', ''member/remove'', ''role/define'', ''role/set'', ''moderate'', ''invite/create'',
     ''invite/revoke'', ''invite/redeem'', ''key/rotate'', ''subspace/create'', ''settings/set'', ''writer/add'', ''device/remove'',
     ''scoped'', ''logs/list'', ''types/set'']"

fun indexOf :: "'a list \<Rightarrow> 'a \<Rightarrow> nat" where
  "indexOf [] x = 0"
| "indexOf (y # ys) x = (if y = x then 0 else Suc (indexOf ys x))"

definition bodyOf :: "prims \<Rightarrow> string \<Rightarrow> jsval codec option" where
  "bodyOf P t = map_option struct (map_of (DECISIONS P) t)"

text \<open>\<open>None\<close>: the type is unknown, and the code throws.\<close>

definition decision_put :: "prims \<Rightarrow> jsval \<Rightarrow> bytes option" where
  "decision_put P d = (case prop_of d ''type'' of
       JStr t \<Rightarrow> do {
         body \<leftarrow> bodyOf P t;
         Some (c_put (p_uint P) (JNum (int (indexOf DECISION_TYPES t))) @ c_put (p_uint P) (prop_of d ''stamp'') @ c_put body d) }
     | _ \<Rightarrow> None)"

definition decision_size :: "prims \<Rightarrow> jsval \<Rightarrow> nat option" where
  "decision_size P d = (case prop_of d ''type'' of
       JStr t \<Rightarrow> do {
         body \<leftarrow> bodyOf P t;
         Some (c_size (p_uint P) (JNum (int (indexOf DECISION_TYPES t))) + c_size (p_uint P) (prop_of d ''stamp'') + c_size body d) }
     | _ \<Rightarrow> None)"

definition decision_get :: "prims \<Rightarrow> bytes \<Rightarrow> (jsval \<times> bytes) option" where
  "decision_get P bs = do {
     (i, r) \<leftarrow> c_get (p_uint P) bs;
     t \<leftarrow> (case i of JNum n \<Rightarrow> if nat n < length DECISION_TYPES then Some (DECISION_TYPES ! nat n) else None | _ \<Rightarrow> None);
     (stamp, r') \<leftarrow> c_get (p_uint P) r;
     fs \<leftarrow> map_of (DECISIONS P) t;
     (vs, r'') \<leftarrow> struct_get fs r';
     Some (JObj ((''type'', JStr t) # (''stamp'', stamp) # vs), r'') }"

section \<open>Record ids\<close>

record rid =
  r_log :: bytes
  r_seq :: nat

definition recordId :: "prims \<Rightarrow> rid codec" where
  "recordId P = \<lparr>
     c_size = (\<lambda>i. c_size (p_fixed32 P) (JBuf (r_log i)) + c_size (p_uint P) (JNum (int (r_seq i)))),
     c_put = (\<lambda>i. c_put (p_fixed32 P) (JBuf (r_log i)) @ c_put (p_uint P) (JNum (int (r_seq i)))),
     c_get = (\<lambda>bs. do {
       (l, r) \<leftarrow> c_get (p_fixed32 P) bs;
       (n, r') \<leftarrow> c_get (p_uint P) r;
       (case (l, n) of (JBuf b, JNum s) \<Rightarrow> Some (\<lparr>r_log = b, r_seq = nat s\<rparr>, r') | _ \<Rightarrow> None) })\<rparr>"

datatype id_form = IdText string | IdBytes bytes | IdParts rid

definition idFromString :: "prims \<Rightarrow> z32 \<Rightarrow> string \<Rightarrow> hg_error + bytes" where
  "idFromString P Z s = (case z_decode Z s of
       None \<Rightarrow> Inl NOT_FOUND
     | Some bs \<Rightarrow> if length bs < 33 then Inl NOT_FOUND
                  else if decode (recordId P) bs = None then Inl NOT_FOUND else Inr bs)"

definition idBytes :: "prims \<Rightarrow> z32 \<Rightarrow> id_form \<Rightarrow> hg_error + bytes" where
  "idBytes P Z i = (case i of IdText s \<Rightarrow> idFromString P Z s | IdBytes bs \<Rightarrow> Inr bs | IdParts r \<Rightarrow> Inr (c_put (recordId P) r))"

definition idToString :: "prims \<Rightarrow> z32 \<Rightarrow> id_form \<Rightarrow> hg_error + string" where
  "idToString P Z i = map_sum id (z_encode Z) (idBytes P Z i)"

definition idParts :: "prims \<Rightarrow> z32 \<Rightarrow> id_form \<Rightarrow> rid option" where
  "idParts P Z i = (case idBytes P Z i of Inl e \<Rightarrow> None | Inr bs \<Rightarrow> decode (recordId P) bs)"

section \<open>The header of a log\<close>

record header =
  h_version :: nat
  h_space :: bytes
  h_decisions :: bytes
  h_proof :: "bytes option" \<comment> \<open>an empty buffer is read as null\<close>
  h_admitted :: "bytes option"

definition VERSION :: nat where "VERSION = 1"

definition buf :: "bytes option \<Rightarrow> jsval" where
  "buf b = (case b of None \<Rightarrow> JNull | Some bs \<Rightarrow> JBuf bs)"

fun unbuf :: "jsval \<Rightarrow> bytes option" where
  "unbuf (JBuf bs) = Some bs"
| "unbuf v = None"

definition header_codec :: "prims \<Rightarrow> header codec" where
  "header_codec P = \<lparr>
     c_size = (\<lambda>h. c_size (p_uint P) (JNum (int (h_version h))) + c_size (p_fixed32 P) (JBuf (h_space h)) +
       c_size (p_fixed32 P) (JBuf (h_decisions h)) + c_size (p_buffer P) (buf (h_proof h)) +
       (case h_admitted h of None \<Rightarrow> 0 | Some a \<Rightarrow> c_size (p_fixed32 P) (JBuf a))),
     c_put = (\<lambda>h. c_put (p_uint P) (JNum (int (h_version h))) @ c_put (p_fixed32 P) (JBuf (h_space h)) @
       c_put (p_fixed32 P) (JBuf (h_decisions h)) @ c_put (p_buffer P) (buf (h_proof h)) @
       (case h_admitted h of None \<Rightarrow> [] | Some a \<Rightarrow> c_put (p_fixed32 P) (JBuf a))),
     c_get = (\<lambda>bs. do {
       (v, r) \<leftarrow> c_get (p_uint P) bs;
       (s, r) \<leftarrow> c_get (p_fixed32 P) r;
       (d, r) \<leftarrow> c_get (p_fixed32 P) r;
       (p, r) \<leftarrow> c_get (p_buffer P) r;
       (a, r) \<leftarrow> (if r \<noteq> [] then c_get (p_fixed32 P) r else Some (JNull, r));
       (case (v, s, d) of
          (JNum n, JBuf sb, JBuf db) \<Rightarrow>
            Some (\<lparr>h_version = nat n, h_space = sb, h_decisions = db, h_proof = unbuf p, h_admitted = unbuf a\<rparr>, r)
        | _ \<Rightarrow> None) })\<rparr>"

section \<open>Records\<close>

definition MAX_RECORD :: nat where "MAX_RECORD = 64 * 1024"
definition PUT :: nat where "PUT = 0"
definition EDIT :: nat where "EDIT = 1"
definition DELETE :: nat where "DELETE = 2"

record lrec =
  l_kind :: nat
  l_type :: string
  l_stamp :: nat
  l_target :: "bytes option"
  l_links :: "bytes list"
  l_fields :: bytes
  l_sealed :: bool

definition record_flags :: "lrec \<Rightarrow> nat" where
  "record_flags r = (if l_target r \<noteq> None then 1 else 0) + (if l_sealed r then 2 else 0)"

definition record_put :: "prims \<Rightarrow> lrec \<Rightarrow> bytes" where
  "record_put P r = c_put (p_uint P) (JNum (int (l_kind r))) @ c_put (p_string P) (JStr (l_type r)) @
     c_put (p_uint P) (JNum (int (l_stamp r))) @ c_put (p_uint P) (JNum (int (record_flags r))) @
     (case l_target r of None \<Rightarrow> [] | Some t \<Rightarrow> c_put (p_buffer P) (JBuf t)) @
     c_put (p_array P (p_buffer P)) (JArr (map JBuf (l_links r))) @ c_put (p_raw P) (JBuf (l_fields r))"

definition record_size :: "prims \<Rightarrow> lrec \<Rightarrow> nat" where
  "record_size P r = c_size (p_uint P) (JNum (int (l_kind r))) + c_size (p_string P) (JStr (l_type r)) +
     c_size (p_uint P) (JNum (int (l_stamp r))) + c_size (p_uint P) (JNum 0) +
     (case l_target r of None \<Rightarrow> 0 | Some t \<Rightarrow> c_size (p_buffer P) (JBuf t)) +
     c_size (p_array P (p_buffer P)) (JArr (map JBuf (l_links r))) + c_size (p_raw P) (JBuf (l_fields r))"

fun bufs :: "jsval list \<Rightarrow> bytes list option" where
  "bufs [] = Some []"
| "bufs (JBuf b # vs) = map_option ((#) b) (bufs vs)"
| "bufs _ = None"

text \<open>A link that is no buffer (an empty one is read as null) makes \<open>decodeRecord\<close> throw, here already.\<close>

definition record_get :: "prims \<Rightarrow> bytes \<Rightarrow> (lrec \<times> bytes) option" where
  "record_get P bs = do {
     (k, r) \<leftarrow> c_get (p_uint P) bs;
     kind \<leftarrow> (case k of JNum n \<Rightarrow> if nat n > DELETE then None else Some (nat n) | _ \<Rightarrow> None);
     (t, r) \<leftarrow> c_get (p_string P) r;
     (s, r) \<leftarrow> c_get (p_uint P) r;
     (f, r) \<leftarrow> c_get (p_uint P) r;
     flags \<leftarrow> (case f of JNum n \<Rightarrow> Some (nat n) | _ \<Rightarrow> None);
     (g, r) \<leftarrow> (if odd flags then c_get (p_buffer P) r else Some (JNull, r));
     (ls, r) \<leftarrow> c_get (p_array P (p_buffer P)) r;
     (fs, r) \<leftarrow> c_get (p_raw P) r;
     (case (t, s, ls, fs) of
        (JStr type, JNum stamp, JArr links, JBuf content) \<Rightarrow> do {
          lks \<leftarrow> bufs links;
          Some (\<lparr>l_kind = kind, l_type = type, l_stamp = nat stamp, l_target = unbuf g, l_links = lks, l_fields = content,
                 l_sealed = odd (flags div 2)\<rparr>, r) }
      | _ \<Rightarrow> None) }"

definition encodeRecord :: "prims \<Rightarrow> lrec \<Rightarrow> hg_error + bytes" where
  "encodeRecord P r = (let bs = record_put P r in if length bs > MAX_RECORD then Inl INVALID_RECORD else Inr bs)"

definition decodeRecord :: "prims \<Rightarrow> bytes \<Rightarrow> hg_error + lrec" where
  "decodeRecord P bs =
     (if length bs > MAX_RECORD then Inl INVALID_RECORD
      else (case record_get P bs of
          None \<Rightarrow> Inl INVALID_RECORD
        | Some (r, _) \<Rightarrow>
            if (case l_target r of None \<Rightarrow> False | Some t \<Rightarrow> decode (recordId P) t = None) then Inl INVALID_RECORD
            else if list_ex (\<lambda>l. decode (recordId P) l = None) (l_links r) then Inl INVALID_RECORD
            else Inr r))"

section \<open>Invites and the messages of the space channel\<close>

definition inviteBody :: "prims \<Rightarrow> fields" where
  "inviteBody P = [(''space'', p_fixed32 P), (''id'', p_buffer P), (''role'', p_string P), (''uses'', p_uint P), (''expires'', p_uint P),
     (''subspaces'', p_array P (p_fixed32 P)), (''maker'', p_fixed32 P)]"

definition invite_codec :: "prims \<Rightarrow> jsval codec" where
  "invite_codec P = struct (inviteBody P @ [(''proof'', p_buffer P)])"

definition redemption_codec :: "prims \<Rightarrow> jsval codec" where
  "redemption_codec P = struct [(''invite'', invite_codec P), (''identity'', p_fixed32 P), (''writer'', p_fixed32 P), (''proof'', p_buffer P)]"

record summary =
  m_count :: nat
  m_digest :: bytes
  m_records :: nat

definition summary_put :: "prims \<Rightarrow> summary \<Rightarrow> bytes" where
  "summary_put P m = c_put (p_uint P) (JNum (int (m_count m))) @ c_put (p_fixed32 P) (JBuf (m_digest m)) @ c_put (p_uint P) (JNum (int (m_records m)))"

definition summary_get :: "prims \<Rightarrow> bytes \<Rightarrow> (summary \<times> bytes) option" where
  "summary_get P bs = do {
     (n, r) \<leftarrow> c_get (p_uint P) bs;
     (d, r) \<leftarrow> c_get (p_fixed32 P) r;
     (k, r) \<leftarrow> (if r \<noteq> [] then c_get (p_uint P) r else Some (JNum 0, r));
     (case (n, d, k) of (JNum c, JBuf b, JNum rs) \<Rightarrow> Some (\<lparr>m_count = nat c, m_digest = b, m_records = nat rs\<rparr>, r) | _ \<Rightarrow> None) }"

definition ranges_codec :: "prims \<Rightarrow> jsval codec" where
  "ranges_codec P = struct [(''prefix'', p_buffer P), (''bits'', p_uint P),
     (''parts'', p_array P (struct [(''count'', p_uint P), (''digest'', p_fixed32 P)]))]"

definition keys_codec :: "prims \<Rightarrow> jsval codec" where
  "keys_codec P = struct [(''prefix'', p_buffer P), (''bits'', p_uint P), (''kind'', p_uint P), (''keys'', p_array P (p_fixed32 P)),
     (''lengths'', p_array P (p_uint P))]"

definition redeem_codec :: "prims \<Rightarrow> jsval codec" where
  "redeem_codec P = struct [(''redemption'', p_buffer P)]"

definition ask_codec :: "prims \<Rightarrow> jsval codec" where
  "ask_codec P = struct [(''decision'', p_buffer P)]"

end
