(* ===== verification/Round_Trips.thy ===== *)
theory Round_Trips
  imports Codecs
begin

text \<open>
  Every codec of theory Codecs reads back what it wrote: what the package's primitives promise
  (\<open>prims_ok\<close>), the values each field of a decision, a record or a header may have, and the round
  trips of the codecs built from them. \<open>plain\<close> is one set of primitives that keeps the promises.
\<close>

named_theorems trips \<comment> \<open>round trips of codecs\<close>

section \<open>What the primitives promise\<close>

definition roundtrip :: "'a codec \<Rightarrow> ('a \<Rightarrow> bool) \<Rightarrow> bool" where
  "roundtrip C D \<longleftrightarrow> (\<forall>v r. D v \<longrightarrow> c_get C (c_put C v @ r) = Some (v, r) \<and> c_size C v = length (c_put C v))"

definition is_uint :: "jsval \<Rightarrow> bool" where
  "is_uint v \<longleftrightarrow> (case v of JNum n \<Rightarrow> 0 \<le> n \<and> n < 2 ^ 53 | _ \<Rightarrow> False)"

definition is_int :: "jsval \<Rightarrow> bool" where
  "is_int v \<longleftrightarrow> (case v of JNum n \<Rightarrow> - (2 ^ 53) < n \<and> n < 2 ^ 53 | _ \<Rightarrow> False)"

definition is_float :: "jsval \<Rightarrow> bool" where
  "is_float v \<longleftrightarrow> (case v of JNum n \<Rightarrow> - (2 ^ 53) < n \<and> n < 2 ^ 53 | JReal w \<Rightarrow> True | _ \<Rightarrow> False)"

definition is_bool :: "jsval \<Rightarrow> bool" where
  "is_bool v \<longleftrightarrow> (case v of JBool b \<Rightarrow> True | _ \<Rightarrow> False)"

definition is_str :: "jsval \<Rightarrow> bool" where
  "is_str v \<longleftrightarrow> (case v of JStr s \<Rightarrow> length s < 2 ^ 32 | _ \<Rightarrow> False)"

definition is_fixed32 :: "jsval \<Rightarrow> bool" where
  "is_fixed32 v \<longleftrightarrow> (case v of JBuf b \<Rightarrow> length b = 32 | _ \<Rightarrow> False)"

text \<open>A buffer: an empty one is read as null.\<close>

definition is_buffer :: "jsval \<Rightarrow> bool" where
  "is_buffer v \<longleftrightarrow> (case v of JBuf b \<Rightarrow> b \<noteq> [] \<and> length b < 2 ^ 32 | JNull \<Rightarrow> True | _ \<Rightarrow> False)"

definition is_arr :: "(jsval \<Rightarrow> bool) \<Rightarrow> jsval \<Rightarrow> bool" where
  "is_arr D v \<longleftrightarrow> (case v of JArr vs \<Rightarrow> length vs < 2 ^ 32 \<and> list_all D vs | _ \<Rightarrow> False)"

definition prims_ok :: "prims \<Rightarrow> bool" where
  "prims_ok P \<longleftrightarrow> roundtrip (p_uint P) is_uint \<and> roundtrip (p_int P) is_int \<and> roundtrip (p_float P) is_float \<and>
     roundtrip (p_bool P) is_bool \<and> (\<forall>b. c_put (p_bool P) (JBool b) \<noteq> []) \<and>
     roundtrip (p_string P) is_str \<and> roundtrip (p_fixed32 P) is_fixed32 \<and> roundtrip (p_buffer P) is_buffer \<and>
     (\<forall>bs. c_put (p_raw P) (JBuf bs) = bs \<and> c_size (p_raw P) (JBuf bs) = length bs \<and> c_get (p_raw P) bs = Some (JBuf bs, [])) \<and>
     (\<forall>C D. roundtrip C D \<longrightarrow> roundtrip (p_array P C) (is_arr D)) \<and>
     (\<forall>n. 0 \<le> n \<longrightarrow> n < 4 \<longrightarrow> c_size (p_uint P) (JNum n) = c_size (p_uint P) (JNum 0))"

lemma prims_okD:
  assumes "prims_ok P"
  shows uint_trip: "roundtrip (p_uint P) is_uint" and int_trip: "roundtrip (p_int P) is_int"
    and float_trip: "roundtrip (p_float P) is_float" and bool_trip: "roundtrip (p_bool P) is_bool"
    and bool_bytes: "c_put (p_bool P) (JBool b) \<noteq> []" and string_trip: "roundtrip (p_string P) is_str"
    and fixed32_trip: "roundtrip (p_fixed32 P) is_fixed32" and buffer_trip: "roundtrip (p_buffer P) is_buffer"
    and raw_trip: "c_put (p_raw P) (JBuf bs) = bs" "c_size (p_raw P) (JBuf bs) = length bs" "c_get (p_raw P) bs = Some (JBuf bs, [])"
    and array_trip: "roundtrip C D \<Longrightarrow> roundtrip (p_array P C) (is_arr D)"
    and small_uint: "0 \<le> n \<Longrightarrow> n < 4 \<Longrightarrow> c_size (p_uint P) (JNum n) = c_size (p_uint P) (JNum 0)"
  using assms unfolding prims_ok_def by blast+

lemmas [trips] = uint_trip bool_trip string_trip fixed32_trip buffer_trip array_trip

lemma roundtripD:
  assumes "roundtrip C D" "D v"
  shows "c_get C (c_put C v @ r) = Some (v, r)" "c_get C (c_put C v) = Some (v, [])" "c_size C v = length (c_put C v)"
  using assms append_Nil2 unfolding roundtrip_def by metis+

section \<open>Optional values and structs\<close>

definition nullable :: "(jsval \<Rightarrow> bool) \<Rightarrow> jsval \<Rightarrow> bool" where
  "nullable D v \<longleftrightarrow> v = JNull \<or> D v"

lemma opt_trip:
  assumes "prims_ok P" "roundtrip C D" "\<And>v. D v \<Longrightarrow> present v" "\<not> present JNull"
  shows "roundtrip (opt P present C) (nullable D)"
proof -
  note b = roundtripD [OF bool_trip [OF assms(1)], of "JBool x" for x]
  show ?thesis
    unfolding roundtrip_def nullable_def
    using assms(3,4) b roundtripD [OF assms(2)] by (auto simp: opt_def is_bool_def)
qed

lemma trailing_trip:
  assumes "prims_ok P" "roundtrip C D" "\<And>v. D v \<Longrightarrow> present v" "\<not> present JNull"
  shows "roundtrip (trailing P present C) (nullable D)" "c_get (trailing P present C) [] = Some (JNull, [])"
proof -
  have "c_put (opt P present C) v \<noteq> []" for v using bool_bytes [OF assms(1)] by (simp add: opt_def)
  moreover have "roundtrip (opt P present C) (nullable D)" using assms by (rule opt_trip)
  ultimately show "roundtrip (trailing P present C) (nullable D)"
    unfolding roundtrip_def by (auto simp: trailing_def)
qed (simp add: trailing_def)

lemma present_facts:
  "is_fixed32 v \<Longrightarrow> js_truthy v" "is_arr D v \<Longrightarrow> js_truthy v" "is_str v \<Longrightarrow> \<not> absent v" "is_bool v \<Longrightarrow> \<not> absent v"
  by (cases v; simp add: is_fixed32_def is_arr_def is_str_def is_bool_def absent_def)+

lemma opts_trip [trips]:
  assumes "prims_ok P"
  shows "roundtrip (optFixed32 P) (nullable is_fixed32)" "roundtrip (optString P) (nullable is_str)"
    "roundtrip (optTrailingStrings P) (nullable (is_arr is_str))" "roundtrip (optTrailingString P) (nullable is_str)"
    "roundtrip (optTrailingBool P) (nullable is_bool)"
  unfolding optFixed32_def optString_def optTrailingStrings_def optTrailingString_def optTrailingBool_def
  by (intro opt_trip trailing_trip(1) trips assms; auto simp: absent_def dest: present_facts)+

lemma trailing_empty:
  "c_get (optTrailingStrings P) [] = Some (JNull, [])" "c_get (optTrailingString P) [] = Some (JNull, [])"
  "c_get (optTrailingBool P) [] = Some (JNull, [])"
  by (simp_all add: optTrailingStrings_def optTrailingString_def optTrailingBool_def trailing_def)

text \<open>Structs: the fields a value has, one by one, whatever else the value has.\<close>

definition fields_fit :: "(string \<times> (jsval \<Rightarrow> bool)) list \<Rightarrow> jsval \<Rightarrow> bool" where
  "fields_fit ds v \<longleftrightarrow> list_all (\<lambda>(n, D). D (prop_of v n)) ds"

definition fields_trip :: "fields \<Rightarrow> (string \<times> (jsval \<Rightarrow> bool)) list \<Rightarrow> bool" where
  "fields_trip fs ds \<longleftrightarrow> list_all2 (\<lambda>(n, C) (m, D). n = m \<and> roundtrip C D) fs ds"

definition fields_of :: "fields \<Rightarrow> jsval \<Rightarrow> (string \<times> jsval) list" where
  "fields_of fs v = map (\<lambda>(n, C). (n, prop_of v n)) fs"

lemma struct_get_put:
  assumes "fields_trip fs ds" "fields_fit ds v"
  shows "struct_get fs (c_put (struct fs) v @ r) = Some (fields_of fs v, r) \<and> c_size (struct fs) v = length (c_put (struct fs) v)"
  using assms
proof (induction fs arbitrary: ds)
  case (Cons f fs)
  obtain n C where f: "f = (n, C)" by (cases f)
  from Cons.prems(1) f obtain D ds' where ds: "ds = (n, D) # ds'" "roundtrip C D" "fields_trip fs ds'"
    by (auto simp: fields_trip_def list_all2_Cons1)
  with Cons.prems(2) have "D (prop_of v n)" "fields_fit ds' v" by (simp_all add: fields_fit_def)
  with Cons.IH [OF ds(3)] roundtripD [OF ds(2)] show ?case
    by (simp add: f struct_def fields_of_def)
qed (simp add: struct_def fields_of_def)

text \<open>A reader that declares more fields at the end, all of them trailing.\<close>

lemma struct_get_append:
  "struct_get (fs @ gs) bs = do { (vs, r) \<leftarrow> struct_get fs bs; (ws, r') \<leftarrow> struct_get gs r; Some (vs @ ws, r') }"
proof (induction fs arbitrary: bs)
  case Nil
  then show ?case by (cases "struct_get gs bs") auto
next
  case (Cons f fs)
  obtain n C where f: "f = (n, C)" by (cases f)
  show ?case using Cons.IH unfolding f by (cases "c_get C bs") (auto split: bind_splits simp: bind_eq_Some_conv)
qed

lemma struct_get_missing:
  "list_all (\<lambda>(n, C). c_get C [] = Some (JNull, [])) gs \<Longrightarrow> struct_get gs [] = Some (map (\<lambda>(n, C). (n, JNull)) gs, [])"
  by (induction gs) auto

definition is_struct :: "(string \<times> (jsval \<Rightarrow> bool)) list \<Rightarrow> jsval \<Rightarrow> bool" where
  "is_struct ds v \<longleftrightarrow> v = JObj (map (\<lambda>(n, D). (n, prop_of v n)) ds) \<and> fields_fit ds v"

lemma struct_trip [trips]:
  assumes "fields_trip fs ds"
  shows "roundtrip (struct fs) (is_struct ds)"
proof -
  have "fields_of fs v = map (\<lambda>(n, D). (n, prop_of v n)) ds" for v
    using assms unfolding fields_trip_def by (induction fs ds rule: list_all2_induct) (auto simp: fields_of_def)
  with struct_get_put [OF assms] show ?thesis
    unfolding roundtrip_def is_struct_def by (auto simp: struct_def)
qed


section \<open>Decisions\<close>

definition cut_fields :: "(string \<times> (jsval \<Rightarrow> bool)) list" where
  "cut_fields = [(''log'', is_fixed32), (''length'', is_uint)]"

definition limit_fields :: "(string \<times> (jsval \<Rightarrow> bool)) list" where
  "limit_fields = [(''records'', is_uint), (''periodMs'', is_uint)]"

definition listed_fields :: "(string \<times> (jsval \<Rightarrow> bool)) list" where
  "listed_fields = [(''space'', is_fixed32), (''log'', is_fixed32)]"

text \<open>The values the fields of each type of decision may have.\<close>

definition DECISION_VALUES :: "(string \<times> (string \<times> (jsval \<Rightarrow> bool)) list) list" where
  "DECISION_VALUES = [
     (''space/init'', [(''name'', is_str), (''parent'', nullable is_fixed32), (''private'', is_bool), (''policy'', is_str),
        (''version'', is_uint), (''proof'', is_buffer)]),
     (''member/add'', [(''identity'', is_fixed32)]),
     (''member/remove'', [(''identity'', is_fixed32), (''cut'', is_arr (is_struct cut_fields))]),
     (''role/define'', [(''name'', is_str), (''permissions'', is_arr is_str)]),
     (''role/set'', [(''identity'', is_fixed32), (''role'', is_str), (''cut'', is_arr (is_struct cut_fields))]),
     (''moderate'', [(''action'', is_str), (''target'', is_buffer), (''reason'', is_str), (''cut'', is_arr (is_struct cut_fields)),
        (''drop'', nullable is_str)]),
     (''invite/create'', [(''invite'', is_buffer)]),
     (''invite/revoke'', [(''invite'', is_buffer)]),
     (''invite/redeem'', [(''redemption'', is_buffer)]),
     (''key/rotate'', [(''epoch'', is_uint), (''commit'', is_fixed32)]),
     (''subspace/create'', [(''key'', is_fixed32), (''name'', is_str), (''private'', is_bool), (''writeRoles'', is_arr is_str)]),
     (''settings/set'', [(''policy'', nullable is_str), (''writeLimit'', nullable (is_struct limit_fields)),
        (''rules'', nullable (is_arr is_str)), (''history'', nullable is_str), (''helpers'', nullable (is_arr is_str)),
        (''public'', nullable is_bool)]),
     (''writer/add'', [(''key'', is_fixed32), (''proof'', is_buffer)]),
     (''device/remove'', [(''device'', is_fixed32), (''cut'', is_buffer), (''proof'', is_buffer)]),
     (''scoped'', [(''space'', is_fixed32), (''decision'', is_buffer)]),
     (''logs/list'', [(''logs'', is_arr (is_struct listed_fields))]),
     (''types/set'', [(''version'', is_uint), (''types'', is_str)])]"

lemma structs_trip [trips]:
  assumes "prims_ok P"
  shows "roundtrip (cutEntry P) (is_struct cut_fields)" "roundtrip (listedLog P) (is_struct listed_fields)"
    "roundtrip (writeLimit P) (is_struct limit_fields)" "roundtrip (optWriteLimit P) (nullable (is_struct limit_fields))"
proof -
  show limit: "roundtrip (writeLimit P) (is_struct limit_fields)"
    unfolding writeLimit_def by (intro struct_trip) (simp add: fields_trip_def limit_fields_def trips assms)
  show "roundtrip (cutEntry P) (is_struct cut_fields)"
    unfolding cutEntry_def by (intro struct_trip) (simp add: fields_trip_def cut_fields_def trips assms)
  show "roundtrip (listedLog P) (is_struct listed_fields)"
    unfolding listedLog_def by (intro struct_trip) (simp add: fields_trip_def listed_fields_def trips assms)
  show "roundtrip (optWriteLimit P) (nullable (is_struct limit_fields))"
    unfolding optWriteLimit_def
  proof (rule opt_trip [OF assms limit])
    show "js_truthy v" if "is_struct limit_fields v" for v using that unfolding is_struct_def by (metis js_truthy.simps(9))
  qed simp
qed

lemma decisions_trip:
  assumes "prims_ok P"
  shows "list_all2 (\<lambda>(t, fs) (u, ds). t = u \<and> fields_trip fs ds) (DECISIONS P) DECISION_VALUES"
  unfolding DECISIONS_def DECISION_VALUES_def by (simp add: fields_trip_def trips assms)

lemma map_of_all2:
  assumes "list_all2 (\<lambda>(t, fs) (u, ds). t = u \<and> R fs ds) xs ys" "map_of ys t = Some ds"
  shows "\<exists>fs. map_of xs t = Some fs \<and> R fs ds"
  using assms by (induction xs ys rule: list_all2_induct) (auto split: if_splits)

lemma indexOf_nth: "x \<in> set xs \<Longrightarrow> indexOf xs x < length xs \<and> xs ! indexOf xs x = x"
  by (induction xs) auto

lemma decision_types: "map fst (DECISIONS P) = DECISION_TYPES"
  by (simp add: DECISIONS_def DECISION_TYPES_def)

definition decision_fits :: "jsval \<Rightarrow> bool" where
  "decision_fits d \<longleftrightarrow> (case prop_of d ''type'' of
       JStr t \<Rightarrow> (case map_of DECISION_VALUES t of
           Some ds \<Rightarrow> is_uint (prop_of d ''stamp'') \<and> fields_fit ds d \<and>
             d = JObj ((''type'', JStr t) # (''stamp'', prop_of d ''stamp'') # map (\<lambda>(n, D). (n, prop_of d n)) ds)
         | None \<Rightarrow> False)
     | _ \<Rightarrow> False)"

text \<open>The first field of a type that decisions written before it existed lack.\<close>

definition optional_from :: "string \<Rightarrow> nat" where
  "optional_from t = (if t = ''moderate'' then 4 else if t = ''settings/set'' then 2 else 6)"

text \<open>A decision written when its type had only its first \<open>k\<close> fields, and as it is read today.\<close>

definition written_with :: "prims \<Rightarrow> nat \<Rightarrow> jsval \<Rightarrow> bytes option" where
  "written_with P k d = (case prop_of d ''type'' of
       JStr t \<Rightarrow> do {
         fs \<leftarrow> map_of (DECISIONS P) t;
         Some (c_put (p_uint P) (JNum (int (indexOf DECISION_TYPES t))) @ c_put (p_uint P) (prop_of d ''stamp'') @
               c_put (struct (take k fs)) d) }
     | _ \<Rightarrow> None)"

definition read_back :: "nat \<Rightarrow> jsval \<Rightarrow> jsval" where
  "read_back k d = (case d of JObj ps \<Rightarrow> JObj (take (k + 2) ps @ map (\<lambda>(n, v). (n, JNull)) (drop (k + 2) ps)) | _ \<Rightarrow> d)"

lemma fields_of_fits:
  "fields_trip fs ds \<Longrightarrow> fields_of fs v = map (\<lambda>(n, D). (n, prop_of v n)) ds"
  unfolding fields_trip_def by (induction fs ds rule: list_all2_induct) (auto simp: fields_of_def)

lemma decision_get_head:
  assumes "prims_ok P" "map_of (DECISIONS P) t = Some fs" "is_uint stamp"
  shows "decision_get P (c_put (p_uint P) (JNum (int (indexOf DECISION_TYPES t))) @ c_put (p_uint P) stamp @ bs) =
    map_option (\<lambda>(vs, r). (JObj ((''type'', JStr t) # (''stamp'', stamp) # vs), r)) (struct_get fs bs)"
proof -
  have "t \<in> set DECISION_TYPES" using assms(2) decision_types [of P] by (metis map_of_SomeD image_eqI fst_conv list.set_map)
  note i = indexOf_nth [OF this]
  have "length DECISION_TYPES = 17" by (simp add: DECISION_TYPES_def)
  with i have "is_uint (JNum (int (indexOf DECISION_TYPES t)))" by (simp add: is_uint_def)
  note u = roundtripD(1) [OF uint_trip [OF assms(1)] this] roundtripD(1) [OF uint_trip [OF assms(1)] assms(3)]
  show ?thesis
    using i assms(2) by (cases "struct_get fs bs") (simp_all add: decision_get_def u split_def)
qed

lemma optional_trailing:
  assumes "map_of (DECISIONS P) t = Some fs" "optional_from t \<le> k"
  shows "list_all (\<lambda>(n, C). c_get C [] = Some (JNull, [])) (drop k fs)"
proof -
  have "list_all (\<lambda>(t, fs). list_all (\<lambda>(n, C). c_get C [] = Some (JNull, [])) (drop (optional_from t) fs)) (DECISIONS P)"
    by (simp add: DECISIONS_def optional_from_def trailing_empty)
  then have "list_all (\<lambda>(n, C). c_get C [] = Some (JNull, [])) (drop (optional_from t) fs)"
    using map_of_SomeD [OF assms(1)] by (auto simp: list_all_iff)
  moreover have "drop k fs = drop (k - optional_from t) (drop (optional_from t) fs)" using assms(2) by simp
  ultimately show ?thesis by (metis (no_types, lifting) in_set_dropD list_all_iff)
qed


lemma decision_fitsD:
  assumes "prims_ok P" "decision_fits d"
  obtains t fs ds where "prop_of d ''type'' = JStr t" "map_of (DECISIONS P) t = Some fs" "fields_trip fs ds" "fields_fit ds d"
    "is_uint (prop_of d ''stamp'')" "d = JObj ((''type'', JStr t) # (''stamp'', prop_of d ''stamp'') # fields_of fs d)"
proof -
  from assms(2) obtain t ds where t: "prop_of d ''type'' = JStr t" "map_of DECISION_VALUES t = Some ds"
    "is_uint (prop_of d ''stamp'')" "fields_fit ds d"
    "d = JObj ((''type'', JStr t) # (''stamp'', prop_of d ''stamp'') # map (\<lambda>(n, D). (n, prop_of d n)) ds)"
    unfolding decision_fits_def by (auto split: jsval.splits option.splits)
  from map_of_all2 [OF decisions_trip [OF assms(1)] t(2)] obtain fs
    where fs: "map_of (DECISIONS P) t = Some fs" "fields_trip fs ds" by blast
  show thesis using that [OF t(1) fs t(4,3)] t(5) fields_of_fits [OF fs(2), of d] by simp
qed

lemma fields_trip_take: "fields_trip fs ds \<Longrightarrow> fields_trip (take k fs) (take k ds)"
  by (simp add: fields_trip_def list_all2_takeI)

lemma fields_fit_take: "fields_fit ds v \<Longrightarrow> fields_fit (take k ds) v"
  unfolding fields_fit_def list_all_iff using in_set_takeD by fast

text \<open>C29: A decision whose fields have values of their kinds is written with exactly the bytes its size
  announced and read back as it was, whatever follows it; and one written by an app that did not know the
  last optional fields of its type yet is read with those fields null and all others unchanged.\<close>

theorem decision_round_trip:
  assumes "prims_ok P" "decision_fits d"
  shows "(\<exists>bs. decision_put P d = Some bs \<and> decision_size P d = Some (length bs) \<and> decision_get P (bs @ r) = Some (d, r)) \<and>
    (\<forall>t k. prop_of d ''type'' = JStr t \<longrightarrow> optional_from t \<le> k \<longrightarrow>
       (\<exists>bs. written_with P k d = Some bs \<and> decision_get P bs = Some (read_back k d, [])))"
proof -
  obtain t fs ds where t: "prop_of d ''type'' = JStr t" "map_of (DECISIONS P) t = Some fs" "fields_trip fs ds" "fields_fit ds d"
    "is_uint (prop_of d ''stamp'')" and d: "d = JObj ((''type'', JStr t) # (''stamp'', prop_of d ''stamp'') # fields_of fs d)"
    by (rule decision_fitsD [OF assms])
  note body = struct_get_put [OF t(3,4)]
  have "t \<in> set DECISION_TYPES" using t(2) decision_types [of P] by (metis map_of_SomeD image_eqI fst_conv list.set_map)
  then have "is_uint (JNum (int (indexOf DECISION_TYPES t)))"
    using indexOf_nth [of t DECISION_TYPES] by (simp add: is_uint_def DECISION_TYPES_def)
  note head = roundtripD(3) [OF uint_trip [OF assms(1)] this] roundtripD(3) [OF uint_trip [OF assms(1)] t(5)]
  define bs where "bs = c_put (p_uint P) (JNum (int (indexOf DECISION_TYPES t))) @ c_put (p_uint P) (prop_of d ''stamp'') @ c_put (struct fs) d"
  have "decision_put P d = Some bs" "decision_size P d = Some (length bs)"
    using t(1,2) head body by (simp_all add: decision_put_def decision_size_def bodyOf_def bs_def)
  moreover have "decision_get P (bs @ r) = Some (d, r)"
    using decision_get_head [OF assms(1) t(2,5), of "c_put (struct fs) d @ r"] body d by (simp add: bs_def)
  moreover have "\<exists>bs. written_with P k d = Some bs \<and> decision_get P bs = Some (read_back k d, [])" if k: "optional_from t \<le> k" for k
  proof -
    define old where "old = c_put (p_uint P) (JNum (int (indexOf DECISION_TYPES t))) @ c_put (p_uint P) (prop_of d ''stamp'') @
      c_put (struct (take k fs)) d"
    have "struct_get fs (c_put (struct (take k fs)) d) = struct_get (take k fs @ drop k fs) (c_put (struct (take k fs)) d @ [])" by simp
    also have "\<dots> = Some (fields_of (take k fs) d @ map (\<lambda>(n, C). (n, JNull)) (drop k fs), [])"
      unfolding struct_get_append
      using struct_get_put [OF fields_trip_take [OF t(3), of k] fields_fit_take [OF t(4), of k], of "[]"]
        struct_get_missing [OF optional_trailing [OF t(2) k]] by simp
    finally have get: "struct_get fs (c_put (struct (take k fs)) d) = Some (fields_of (take k fs) d @ map (\<lambda>(n, C). (n, JNull)) (drop k fs), [])" .
    have "read_back k (JObj (x # y # fields_of fs d)) = JObj (x # y # fields_of (take k fs) d @ map (\<lambda>(n, C). (n, JNull)) (drop k fs))" for x y
      by (simp add: read_back_def fields_of_def take_map drop_map split_def o_def)
    with d have "read_back k d = JObj ((''type'', JStr t) # (''stamp'', prop_of d ''stamp'') # fields_of (take k fs) d @ map (\<lambda>(n, C). (n, JNull)) (drop k fs))"
      by metis
    with decision_get_head [OF assms(1) t(2,5), of "c_put (struct (take k fs)) d"] get
    have "decision_get P old = Some (read_back k d, [])" by (simp add: old_def)
    moreover have "written_with P k d = Some old" using t(1,2) by (simp add: written_with_def old_def)
    ultimately show ?thesis by blast
  qed
  ultimately show ?thesis using t(1) by auto
qed


section \<open>Records, headers, ids and messages\<close>

lemma num_trip:
  assumes "prims_ok P" "n < 2 ^ 53"
  shows "c_get (p_uint P) (c_put (p_uint P) (JNum (int n)) @ r) = Some (JNum (int n), r)"
    "c_get (p_uint P) (c_put (p_uint P) (JNum (int n))) = Some (JNum (int n), [])"
    "c_size (p_uint P) (JNum (int n)) = length (c_put (p_uint P) (JNum (int n)))"
proof -
  have "int n < 2 ^ 53" using assms(2) by (metis of_nat_less_iff of_nat_numeral of_nat_power)
  then have "is_uint (JNum (int n))" by (simp add: is_uint_def)
  note u = roundtripD [OF uint_trip [OF assms(1)] this]
  show "c_get (p_uint P) (c_put (p_uint P) (JNum (int n)) @ r) = Some (JNum (int n), r)"
    "c_get (p_uint P) (c_put (p_uint P) (JNum (int n))) = Some (JNum (int n), [])"
    "c_size (p_uint P) (JNum (int n)) = length (c_put (p_uint P) (JNum (int n)))" by (rule u)+
qed

lemma key_trip:
  assumes "prims_ok P" "length b = 32"
  shows "c_get (p_fixed32 P) (c_put (p_fixed32 P) (JBuf b) @ r) = Some (JBuf b, r)"
    "c_get (p_fixed32 P) (c_put (p_fixed32 P) (JBuf b)) = Some (JBuf b, [])"
    "c_size (p_fixed32 P) (JBuf b) = length (c_put (p_fixed32 P) (JBuf b))"
proof -
  have "is_fixed32 (JBuf b)" using assms(2) by (simp add: is_fixed32_def)
  note u = roundtripD [OF fixed32_trip [OF assms(1)] this]
  show "c_get (p_fixed32 P) (c_put (p_fixed32 P) (JBuf b) @ r) = Some (JBuf b, r)"
    "c_get (p_fixed32 P) (c_put (p_fixed32 P) (JBuf b)) = Some (JBuf b, [])"
    "c_size (p_fixed32 P) (JBuf b) = length (c_put (p_fixed32 P) (JBuf b))" by (rule u)+
qed

definition rid_ok :: "rid \<Rightarrow> bool" where
  "rid_ok i \<longleftrightarrow> length (r_log i) = 32 \<and> r_seq i < 2 ^ 53"

lemma recordId_trip: "prims_ok P \<Longrightarrow> roundtrip (recordId P) rid_ok"
  unfolding roundtrip_def rid_ok_def by (auto simp: recordId_def num_trip key_trip)

text \<open>A link or a target: bytes that read as a record id.\<close>

definition id_bytes :: "prims \<Rightarrow> bytes \<Rightarrow> bool" where
  "id_bytes P bs \<longleftrightarrow> decode (recordId P) bs \<noteq> None \<and> bs \<noteq> [] \<and> length bs < 2 ^ 32"

definition record_ok :: "prims \<Rightarrow> lrec \<Rightarrow> bool" where
  "record_ok P r \<longleftrightarrow> l_kind r \<le> DELETE \<and> length (l_type r) < 2 ^ 32 \<and> l_stamp r < 2 ^ 53 \<and>
     (case l_target r of None \<Rightarrow> True | Some t \<Rightarrow> id_bytes P t) \<and> list_all (id_bytes P) (l_links r) \<and> length (l_links r) < 2 ^ 32"

lemma bufs_map [simp]: "bufs (map JBuf bs) = Some bs"
  by (induction bs) auto

lemma flags_facts: "odd (record_flags r) \<longleftrightarrow> l_target r \<noteq> None" "odd (record_flags r div 2) \<longleftrightarrow> l_sealed r" "record_flags r < 4"
  by (auto simp: record_flags_def)

lemma record_get_put:
  assumes "prims_ok P" "record_ok P r"
  shows "record_get P (record_put P r) = Some (r, [])"
proof -
  from assms(2) have ok: "l_kind r \<le> 2" "length (l_type r) < 2 ^ 32" "l_stamp r < 2 ^ 53" "list_all (id_bytes P) (l_links r)"
    "length (l_links r) < 2 ^ 32" and target: "\<And>t. l_target r = Some t \<Longrightarrow> id_bytes P t"
    by (auto simp: record_ok_def DELETE_def)
  have "is_str (JStr (l_type r))" using ok(2) by (simp add: is_str_def)
  note type = roundtripD(1) [OF string_trip [OF assms(1)] this]
  have "is_arr is_buffer (JArr (map JBuf (l_links r)))"
    using ok(4,5) by (auto simp: is_arr_def is_buffer_def id_bytes_def list_all_iff)
  note links = roundtripD(1) [OF array_trip [OF assms(1) buffer_trip [OF assms(1)]] this]
  have buffer: "c_get (p_buffer P) (c_put (p_buffer P) (JBuf t) @ x) = Some (JBuf t, x)" if "l_target r = Some t" for t x
    using roundtripD(1) [OF buffer_trip [OF assms(1)], of "JBuf t"] target [OF that] by (simp add: is_buffer_def id_bytes_def)
  have "record_flags r < 2 ^ 53" "l_kind r < 2 ^ 53" using flags_facts(3) [of r] ok(1) by simp_all
  note nums = this [THEN num_trip(1) [OF assms(1)]] num_trip(1) [OF assms(1) ok(3)]
  have small: "\<not> l_kind r > DELETE" using ok(1) by (simp add: DELETE_def)
  show ?thesis
    using small
    by (cases "l_target r")
      (simp_all add: record_get_def record_put_def nums type links raw_trip [OF assms(1)] buffer flags_facts)
qed

text \<open>C30: A record is written with exactly the bytes its size announced (the size counts its flags as 0), and unless
  it is over 64 KB, when writing and reading both refuse it, reading it back gives it unchanged: its target and
  links, its sealed mark and its fields, empty ones included.\<close>

theorem record_round_trip:
  assumes "prims_ok P" "record_ok P r"
  shows "record_size P r = length (record_put P r) \<and>
    (if length (record_put P r) > MAX_RECORD
     then encodeRecord P r = Inl INVALID_RECORD \<and> decodeRecord P (record_put P r) = Inl INVALID_RECORD
     else encodeRecord P r = Inr (record_put P r) \<and> decodeRecord P (record_put P r) = Inr r)"
proof -
  from assms(2) have ok: "l_kind r < 2 ^ 53" "length (l_type r) < 2 ^ 32" "l_stamp r < 2 ^ 53" "list_all (id_bytes P) (l_links r)"
    "length (l_links r) < 2 ^ 32" and target: "\<And>t. l_target r = Some t \<Longrightarrow> id_bytes P t"
    by (auto simp: record_ok_def DELETE_def)
  have "is_str (JStr (l_type r))" using ok(2) by (simp add: is_str_def)
  note type = roundtripD(3) [OF string_trip [OF assms(1)] this]
  have "is_arr is_buffer (JArr (map JBuf (l_links r)))"
    using ok(4,5) by (auto simp: is_arr_def is_buffer_def id_bytes_def list_all_iff)
  note links = roundtripD(3) [OF array_trip [OF assms(1) buffer_trip [OF assms(1)]] this]
  have buffer: "c_size (p_buffer P) (JBuf t) = length (c_put (p_buffer P) (JBuf t))" if "l_target r = Some t" for t
    using roundtripD(3) [OF buffer_trip [OF assms(1)], of "JBuf t"] target [OF that] by (simp add: is_buffer_def id_bytes_def)
  have flags: "c_size (p_uint P) (JNum 0) = length (c_put (p_uint P) (JNum (int (record_flags r))))"
    using small_uint [OF assms(1), of "int (record_flags r)"] flags_facts(3) [of r] num_trip(3) [OF assms(1), of "record_flags r"] by simp
  note nums = ok(1) [THEN num_trip(3) [OF assms(1)]] num_trip(3) [OF assms(1) ok(3)]
  have "record_size P r = length (record_put P r)"
    by (cases "l_target r")
      (simp_all add: record_size_def record_put_def nums type links buffer flags raw_trip [OF assms(1)])
  moreover have "decodeRecord P (record_put P r) = Inr r" if "\<not> length (record_put P r) > MAX_RECORD"
    using that ok(4) target record_get_put [OF assms]
    by (auto simp: decodeRecord_def id_bytes_def list_ex_iff list_all_iff split: option.splits)
  ultimately show ?thesis by (simp add: encodeRecord_def decodeRecord_def)
qed

definition header_ok :: "header \<Rightarrow> bool" where
  "header_ok h \<longleftrightarrow> h_version h < 2 ^ 53 \<and> length (h_space h) = 32 \<and> length (h_decisions h) = 32 \<and>
     (case h_proof h of None \<Rightarrow> True | Some p \<Rightarrow> p \<noteq> [] \<and> length p < 2 ^ 32) \<and>
     (case h_admitted h of None \<Rightarrow> True | Some a \<Rightarrow> length a = 32)"

lemma unbuf_buf [simp]: "unbuf (buf b) = b"
  by (cases b) (simp_all add: buf_def)

lemma header_get_put:
  assumes "prims_ok P" "header_ok h"
  shows "c_get (header_codec P) (c_put (header_codec P) h) = Some (h, [])" "c_size (header_codec P) h = length (c_put (header_codec P) h)"
proof -
  from assms(2) have ok: "h_version h < 2 ^ 53" "length (h_space h) = 32" "length (h_decisions h) = 32"
    and admitted: "\<And>a. h_admitted h = Some a \<Longrightarrow> length a = 32" and p: "is_buffer (buf (h_proof h))"
    by (auto simp: header_ok_def is_buffer_def buf_def split: option.splits)
  note pr = roundtripD [OF buffer_trip [OF assms(1)] p]
  note num = num_trip [OF assms(1) ok(1)]
  have full: "c_put (p_fixed32 P) (JBuf a) \<noteq> []" if "length a = 32" for a
  proof
    assume e: "c_put (p_fixed32 P) (JBuf a) = []"
    obtain b :: bytes where b: "length b = 32" "b \<noteq> a" using that by (metis length_replicate one_neq_zero replicate_Suc list.inject numeral_eq_Suc)
    have "c_get (p_fixed32 P) (c_put (p_fixed32 P) (JBuf b)) = Some (JBuf a, c_put (p_fixed32 P) (JBuf b))"
      using key_trip(1) [OF assms(1) that, of "c_put (p_fixed32 P) (JBuf b)"] e by simp
    with key_trip(2) [OF assms(1) b(1)] b(2) show False by simp
  qed
  show "c_get (header_codec P) (c_put (header_codec P) h) = Some (h, [])"
    using ok(2,3) admitted pr full num
    by (cases "h_admitted h") (simp_all add: header_codec_def key_trip [OF assms(1)])
  show "c_size (header_codec P) h = length (c_put (header_codec P) h)"
    using ok(2,3) admitted pr num by (cases "h_admitted h") (simp_all add: header_codec_def key_trip [OF assms(1)])
qed

text \<open>Invites, redemptions and the messages: what each of their fields may be.\<close>

definition invite_fields :: "(string \<times> (jsval \<Rightarrow> bool)) list" where
  "invite_fields = [(''space'', is_fixed32), (''id'', is_buffer), (''role'', is_str), (''uses'', is_uint), (''expires'', is_uint),
     (''subspaces'', is_arr is_fixed32), (''maker'', is_fixed32), (''proof'', is_buffer)]"

definition redemption_fields :: "(string \<times> (jsval \<Rightarrow> bool)) list" where
  "redemption_fields = [(''invite'', is_struct invite_fields), (''identity'', is_fixed32), (''writer'', is_fixed32), (''proof'', is_buffer)]"

lemma messages_trip [trips]:
  assumes "prims_ok P"
  shows "roundtrip (ranges_codec P) (is_struct [(''prefix'', is_buffer), (''bits'', is_uint),
      (''parts'', is_arr (is_struct [(''count'', is_uint), (''digest'', is_fixed32)]))])"
    "roundtrip (keys_codec P) (is_struct [(''prefix'', is_buffer), (''bits'', is_uint), (''kind'', is_uint),
      (''keys'', is_arr is_fixed32), (''lengths'', is_arr is_uint)])"
    "roundtrip (invite_codec P) (is_struct invite_fields)"
    "roundtrip (redeem_codec P) (is_struct [(''redemption'', is_buffer)])"
    "roundtrip (ask_codec P) (is_struct [(''decision'', is_buffer)])"
  unfolding ranges_codec_def keys_codec_def invite_codec_def inviteBody_def redeem_codec_def ask_codec_def
  by (intro struct_trip; simp add: fields_trip_def trips struct_trip assms invite_fields_def)+

lemma redemption_trip [trips]: "prims_ok P \<Longrightarrow> roundtrip (redemption_codec P) (is_struct redemption_fields)"
  unfolding redemption_codec_def by (intro struct_trip) (simp add: fields_trip_def trips redemption_fields_def)

lemma summary_trip:
  assumes "prims_ok P" "m_count m < 2 ^ 53" "length (m_digest m) = 32" "m_records m < 2 ^ 53"
  shows "summary_get P (summary_put P m) = Some (m, [])"
    "summary_get P (c_put (p_uint P) (JNum (int (m_count m))) @ c_put (p_fixed32 P) (JBuf (m_digest m))) = Some (m\<lparr>m_records := 0\<rparr>, [])"
proof -
  have full: "c_put (p_uint P) (JNum (int (m_records m))) \<noteq> []"
  proof
    assume e: "c_put (p_uint P) (JNum (int (m_records m))) = []"
    define n :: nat where "n = (if m_records m = 0 then 1 else 0)"
    have "n < 2 ^ 53" "n \<noteq> m_records m" by (simp_all add: n_def)
    with num_trip(1) [OF assms(1,4), of "c_put (p_uint P) (JNum (int n))"] num_trip(2) [OF assms(1), of n] e show False by simp
  qed
  show "summary_get P (summary_put P m) = Some (m, [])"
    using full num_trip(1) [OF assms(1,2)] num_trip(2) [OF assms(1,4)] key_trip(1) [OF assms(1,3)]
    by (simp add: summary_get_def summary_put_def)
  show "summary_get P (c_put (p_uint P) (JNum (int (m_count m))) @ c_put (p_fixed32 P) (JBuf (m_digest m))) = Some (m\<lparr>m_records := 0\<rparr>, [])"
    using num_trip(1) [OF assms(1,2)] key_trip(2) [OF assms(1,3)] by (simp add: summary_get_def)
qed

section \<open>Primitives that keep the promises\<close>

text \<open>One set of primitives: numbers in 8 bytes, lengths before what has one.\<close>

fun le :: "nat \<Rightarrow> nat \<Rightarrow> bytes" where
  "le 0 n = []"
| "le (Suc k) n = of_nat (n mod 256) # le k (n div 256)"

fun unle :: "bytes \<Rightarrow> nat" where
  "unle [] = 0"
| "unle (b # bs) = unat b + 256 * unle bs"

lemma length_le [simp]: "length (le k n) = k"
  by (induction k arbitrary: n) auto

lemma unle_le: "n < 256 ^ k \<Longrightarrow> unle (le k n) = n"
proof (induction k arbitrary: n)
  case (Suc k)
  then have "n div 256 < 256 ^ k" by (simp add: less_mult_imp_div_less)
  then have "unle (le k (n div 256)) = n div 256" by (rule Suc.IH)
  moreover have "unat (of_nat (n mod 256) :: byte) = n mod 256" by (simp add: unsigned_of_nat take_bit_eq_mod)
  ultimately show ?case by simp
qed simp

definition fixed_get :: "nat \<Rightarrow> bytes \<Rightarrow> (bytes \<times> bytes) option" where
  "fixed_get k bs = (if length bs < k then None else Some (take k bs, drop k bs))"

fun as_nat :: "jsval \<Rightarrow> nat" where
  "as_nat (JNum n) = nat (n + 2 ^ 53)"
| "as_nat v = 0"

definition plain_int :: "jsval codec" where
  "plain_int = \<lparr>c_size = (\<lambda>v. 8), c_put = (\<lambda>v. le 8 (as_nat v)),
     c_get = (\<lambda>bs. do { (b, r) \<leftarrow> fixed_get 8 bs; Some (JNum (int (unle b) - 2 ^ 53), r) })\<rparr>"

fun plain_float_put :: "jsval \<Rightarrow> bytes" where
  "plain_float_put (JReal w) = 1 # le 8 (unat w)"
| "plain_float_put v = 0 # le 8 (as_nat v)"

definition plain_float :: "jsval codec" where
  "plain_float = \<lparr>c_size = (\<lambda>v. 9), c_put = plain_float_put,
     c_get = (\<lambda>bs. do { (b, r) \<leftarrow> fixed_get 9 bs;
       Some (if hd b = 1 then JReal (of_nat (unle (tl b))) else JNum (int (unle (tl b)) - 2 ^ 53), r) })\<rparr>"

definition plain_bool :: "jsval codec" where
  "plain_bool = \<lparr>c_size = (\<lambda>v. 1), c_put = (\<lambda>v. [if v = JBool True then 1 else 0]),
     c_get = (\<lambda>bs. case bs of [] \<Rightarrow> None | b # r \<Rightarrow> Some (JBool (b = 1), r))\<rparr>"

fun chars_of :: "jsval \<Rightarrow> bytes" where
  "chars_of (JStr s) = map (\<lambda>c. of_nat (of_char c)) s"
| "chars_of v = []"

definition sized_get :: "bytes \<Rightarrow> (bytes \<times> bytes) option" where
  "sized_get bs = do { (b, r) \<leftarrow> fixed_get 4 bs; fixed_get (unle b) r }"

definition plain_string :: "jsval codec" where
  "plain_string = \<lparr>c_size = (\<lambda>v. 4 + length (chars_of v)), c_put = (\<lambda>v. le 4 (length (chars_of v)) @ chars_of v),
     c_get = (\<lambda>bs. do { (b, r) \<leftarrow> sized_get bs; Some (JStr (map (\<lambda>b. char_of (unat b)) b), r) })\<rparr>"

fun bytes_of :: "jsval \<Rightarrow> bytes" where
  "bytes_of (JBuf b) = b"
| "bytes_of v = []"

definition plain_fixed32 :: "jsval codec" where
  "plain_fixed32 = \<lparr>c_size = (\<lambda>v. length (bytes_of v)), c_put = bytes_of,
     c_get = (\<lambda>bs. do { (b, r) \<leftarrow> fixed_get 32 bs; Some (JBuf b, r) })\<rparr>"

definition plain_buffer :: "jsval codec" where
  "plain_buffer = \<lparr>c_size = (\<lambda>v. 4 + length (bytes_of v)), c_put = (\<lambda>v. le 4 (length (bytes_of v)) @ bytes_of v),
     c_get = (\<lambda>bs. do { (b, r) \<leftarrow> sized_get bs; Some (if b = [] then JNull else JBuf b, r) })\<rparr>"

definition plain_raw :: "jsval codec" where
  "plain_raw = \<lparr>c_size = (\<lambda>v. length (bytes_of v)), c_put = bytes_of, c_get = (\<lambda>bs. Some (JBuf bs, []))\<rparr>"

fun elements :: "jsval \<Rightarrow> jsval list" where
  "elements (JArr vs) = vs"
| "elements v = []"

fun gets :: "jsval codec \<Rightarrow> nat \<Rightarrow> bytes \<Rightarrow> (jsval list \<times> bytes) option" where
  "gets C 0 bs = Some ([], bs)"
| "gets C (Suc n) bs = do { (v, r) \<leftarrow> c_get C bs; (vs, r') \<leftarrow> gets C n r; Some (v # vs, r') }"

definition plain_array :: "jsval codec \<Rightarrow> jsval codec" where
  "plain_array C = \<lparr>c_size = (\<lambda>v. 4 + sum_list (map (c_size C) (elements v))),
     c_put = (\<lambda>v. le 4 (length (elements v)) @ concat (map (c_put C) (elements v))),
     c_get = (\<lambda>bs. do { (b, r) \<leftarrow> fixed_get 4 bs; (vs, r') \<leftarrow> gets C (unle b) r; Some (JArr vs, r') })\<rparr>"

definition plain :: prims where
  "plain = \<lparr>p_uint = plain_int, p_int = plain_int, p_float = plain_float, p_bool = plain_bool, p_string = plain_string,
     p_fixed32 = plain_fixed32, p_buffer = plain_buffer, p_raw = plain_raw, p_array = plain_array\<rparr>"

lemma fixed_get_append [simp]: "length b = k \<Longrightarrow> fixed_get k (b @ r) = Some (b, r)"
  by (simp add: fixed_get_def)

lemma sized_get_append: "length b = n \<Longrightarrow> n < 2 ^ 32 \<Longrightarrow> sized_get (le 4 n @ b @ r) = Some (b, r)"
  by (simp add: sized_get_def unle_le)

lemma plain_int_trip: "roundtrip plain_int is_int"
proof -
  have "unle (le 8 (nat (n + 2 ^ 53))) = nat (n + 2 ^ 53)" if "- (2 ^ 53) < n" "n < 2 ^ 53" for n :: int
    using that by (intro unle_le) (simp add: nat_less_iff)
  then show ?thesis
    unfolding roundtrip_def by (auto simp: plain_int_def is_int_def split: jsval.splits)
qed

lemma plain_float_trip: "roundtrip plain_float is_float"
proof -
  have n: "unle (le 8 (nat (n + 2 ^ 53))) = nat (n + 2 ^ 53)" if "- (2 ^ 53) < n" "n < 2 ^ 53" for n :: int
    using that by (intro unle_le) (simp add: nat_less_iff)
  have w: "unle (le 8 (unat w)) = unat w" for w :: "64 word"
    using unsigned_less [of w, where ?'a = nat] by (intro unle_le) simp
  have put: "c_get plain_float ((b # le 8 k) @ r) =
      Some (if b = 1 then JReal (of_nat (unle (le 8 k))) else JNum (int (unle (le 8 k)) - 2 ^ 53), r)" for b k r
    unfolding plain_float_def using fixed_get_append [of "b # le 8 k" 9 r] by simp
  show ?thesis
    unfolding roundtrip_def
  proof (intro allI impI)
    fix v r assume "is_float v"
    then consider (num) m where "v = JNum m" "- (2 ^ 53) < m" "m < 2 ^ 53" | (real) x where "v = JReal x"
      by (auto simp: is_float_def split: jsval.splits)
    then show "c_get plain_float (c_put plain_float v @ r) = Some (v, r) \<and> c_size plain_float v = length (c_put plain_float v)"
    proof cases
      case num
      then have "c_put plain_float v = 0 # le 8 (nat (m + 2 ^ 53))" by (simp add: plain_float_def)
      with put [of 0 "nat (m + 2 ^ 53)" r] n [of m] num show ?thesis by (simp add: plain_float_def)
    next
      case real
      then have "c_put plain_float v = 1 # le 8 (unat x)" by (simp add: plain_float_def)
      with put [of 1 "unat x" r] w [of x] real show ?thesis by (simp add: plain_float_def)
    qed
  qed
qed

lemma char_byte: "char_of (unat (of_nat (of_char c) :: byte)) = c"
  by (simp add: unsigned_of_nat take_bit_eq_mod)

lemma plain_string_trip: "roundtrip plain_string is_str"
  unfolding roundtrip_def
  by (auto simp: plain_string_def is_str_def sized_get_append char_byte o_def map_idI split: jsval.splits)

lemma gets_puts:
  assumes "roundtrip C D" "list_all D vs"
  shows "gets C (length vs) (concat (map (c_put C) vs) @ r) = Some (vs, r) \<and>
    sum_list (map (c_size C) vs) = length (concat (map (c_put C) vs))"
  using assms(2) by (induction vs) (auto simp: roundtripD [OF assms(1)])

lemma plain_array_trip: "roundtrip C D \<Longrightarrow> roundtrip (plain_array C) (is_arr D)"
  unfolding roundtrip_def [of "plain_array C"]
  by (auto simp: plain_array_def is_arr_def unle_le gets_puts split: jsval.splits)

lemma plain_ok: "prims_ok plain"
  unfolding prims_ok_def
proof (intro conjI allI impI)
  have "is_uint v \<Longrightarrow> is_int v" for v by (cases v) (auto simp: is_uint_def is_int_def)
  with plain_int_trip show "roundtrip (p_uint plain) is_uint" by (auto simp: plain_def roundtrip_def)
  show "roundtrip (p_buffer plain) is_buffer"
    unfolding roundtrip_def
    by (auto simp: plain_def plain_buffer_def is_buffer_def sized_get_append split: jsval.splits) (simp add: sized_get_def unle_le fixed_get_def)
  show "roundtrip (p_bool plain) is_bool"
    unfolding roundtrip_def by (auto simp: plain_def plain_bool_def is_bool_def split: jsval.splits)
  show "roundtrip (p_fixed32 plain) is_fixed32"
    unfolding roundtrip_def by (auto simp: plain_def plain_fixed32_def is_fixed32_def split: jsval.splits)
  show "c_size (p_uint plain) (JNum n) = c_size (p_uint plain) (JNum 0)" for n
    by (simp add: plain_def plain_int_def)
qed (simp_all add: plain_def plain_int_trip plain_float_trip plain_string_trip plain_array_trip plain_raw_def plain_bool_def)

section \<open>The round trips on values\<close>

definition some_moderation :: jsval where
  "some_moderation = JObj [(''type'', JStr ''moderate''), (''stamp'', JNum 7), (''action'', JStr ''hide''), (''target'', JBuf [1, 2]),
     (''reason'', JStr ''''), (''cut'', JArr [JObj [(''log'', JBuf (replicate 32 3)), (''length'', JNum 4)]]), (''drop'', JStr ''all'')]"

theorem decision_round_trip_witness:
  "\<exists>bs. written_with plain 4 some_moderation = Some bs \<and> decision_get plain bs = Some (read_back 4 some_moderation, [])"
proof -
  have "decision_fits some_moderation"
    by (simp add: decision_fits_def some_moderation_def DECISION_VALUES_def fields_fit_def is_uint_def is_str_def is_buffer_def
        is_arr_def is_struct_def cut_fields_def is_fixed32_def nullable_def)
  from decision_round_trip [OF plain_ok this, THEN conjunct2] show ?thesis
    by (simp add: some_moderation_def optional_from_def)
qed

definition some_record :: lrec where
  "some_record = \<lparr>l_kind = EDIT, l_type = ''note'', l_stamp = 5, l_target = Some (replicate 32 9 @ le 8 (2 ^ 53 + 3)), l_links = [],
     l_fields = [], l_sealed = True\<rparr>"

theorem record_round_trip_witness:
  "length (record_put plain some_record) \<le> MAX_RECORD \<and> decodeRecord plain (record_put plain some_record) = Inr some_record"
proof -
  have t: "decode (recordId plain) (replicate 32 9 @ le 8 (2 ^ 53 + 3)) \<noteq> None"
    by (simp add: decode_def recordId_def plain_def plain_fixed32_def plain_int_def fixed_get_def)
  have "length (record_put plain some_record) \<le> MAX_RECORD"
    by (simp add: record_put_def some_record_def plain_def plain_int_def plain_string_def plain_array_def plain_buffer_def plain_raw_def MAX_RECORD_def)
  moreover have "record_ok plain some_record" using t by (simp add: record_ok_def some_record_def id_bytes_def EDIT_def DELETE_def)
  ultimately show ?thesis using record_round_trip [OF plain_ok, of some_record] by simp
qed

end
