(* ===== verification/Record_Fields.thy ===== *)
theory Record_Fields
  imports Round_Trips
begin

text \<open>
  The fields of a record (lib/fields.js): numbered by declaration order, each present field written as its
  number, its length and its value; links as indices into the record's list of links. A reader skips
  numbers it does not know and gives null for declared fields a record lacks. \<open>keep\<close> is the version an edit
  replaces: its entries this app does not know are kept byte for byte, with that version's links. A list
  of fields pairs names with kinds; \<open>None\<close> is a throw (or, reading, a loop that does not end).
\<close>

section \<open>Kinds\<close>

definition js_or :: "jsval \<Rightarrow> jsval \<Rightarrow> jsval" where
  "js_or v d = (if js_truthy v then v else d)"

definition ref_codec :: "prims \<Rightarrow> jsval codec" where
  "ref_codec P = (let C = struct [(''src'', p_array P (p_string P)), (''size'', p_uint P), (''type'', p_string P),
         (''digest'', p_string P), (''mutable'', p_bool P)];
       given = (\<lambda>r. JObj [(''src'', js_or (prop_of r ''src'') (JArr [])), (''size'', js_or (prop_of r ''size'') (JNum 0)),
         (''type'', js_or (prop_of r ''type'') (JStr [])), (''digest'', js_or (prop_of r ''digest'') (JStr [])),
         (''mutable'', JBool (js_truthy (prop_of r ''mutable'')))])
     in \<lparr>c_size = c_size C \<circ> given, c_put = c_put C \<circ> given, c_get = c_get C\<rparr>)"

text \<open>\<open>None\<close>: not a space key, and the code throws.\<close>

definition toKey :: "z32 \<Rightarrow> jsval \<Rightarrow> bytes option" where
  "toKey Z k = do {
     key \<leftarrow> (case k of JStr s \<Rightarrow> z_decode Z s | JBuf b \<Rightarrow> Some b | _ \<Rightarrow> None);
     if length key = 32 then Some key else None }"

definition FIELD_KINDS :: "string list" where
  "FIELD_KINDS = [''string'', ''text'', ''int'', ''uint'', ''float'', ''bool'', ''bytes'', ''ref'', ''space'', ''link'']"

definition kind_codec :: "prims \<Rightarrow> string \<Rightarrow> jsval codec" where
  "kind_codec P kind =
     (if kind = ''string'' \<or> kind = ''text'' then p_string P
      else if kind = ''int'' then p_int P
      else if kind = ''uint'' \<or> kind = ''link'' then p_uint P
      else if kind = ''float'' then p_float P
      else if kind = ''bool'' then p_bool P
      else if kind = ''bytes'' then p_raw P
      else if kind = ''ref'' then ref_codec P
      else p_fixed32 P)"

definition field_put :: "prims \<Rightarrow> z32 \<Rightarrow> string \<Rightarrow> jsval \<Rightarrow> bytes option" where
  "field_put P Z kind v =
     (if kind = ''space'' then map_option (\<lambda>b. c_put (kind_codec P kind) (JBuf b)) (toKey Z v)
      else Some (c_put (kind_codec P kind) v))"

definition field_get :: "prims \<Rightarrow> z32 \<Rightarrow> string \<Rightarrow> bytes \<Rightarrow> jsval option" where
  "field_get P Z kind bs = do {
     v \<leftarrow> decode (kind_codec P kind) bs;
     if kind = ''space'' then (case v of JBuf b \<Rightarrow> Some (JStr (z_encode Z b)) | _ \<Rightarrow> None) else Some v }"

section \<open>Encoding and decoding\<close>

type_synonym field = "string \<times> string" \<comment> \<open>name and kind\<close>

definition uints :: "prims \<Rightarrow> nat \<Rightarrow> nat \<Rightarrow> bytes" where
  "uints P a b = c_put (p_uint P) (JNum (int a)) @ c_put (p_uint P) (JNum (int b))"

definition get_num :: "prims \<Rightarrow> bytes \<Rightarrow> (nat \<times> bytes) option" where
  "get_num P bs = do { (v, r) \<leftarrow> c_get (p_uint P) bs; (case v of JNum n \<Rightarrow> Some (nat n, r) | _ \<Rightarrow> None) }"

text \<open>The entries whose number is none of \<open>1..k\<close>.\<close>

partial_function (option) unknownOf :: "prims \<Rightarrow> nat \<Rightarrow> bytes \<Rightarrow> bytes list option" where
  "unknownOf P k bs =
     (if bs = [] then Some []
      else do {
        (n, r) \<leftarrow> get_num P bs;
        (len, r) \<leftarrow> get_num P r;
        if length r < len then None
        else do {
          rest \<leftarrow> unknownOf P k (drop len r);
          Some (if n = 0 \<or> k < n then take (length bs - (length r - len)) bs # rest else rest) } })"

definition link_id :: "prims \<Rightarrow> z32 \<Rightarrow> jsval \<Rightarrow> bytes option" where
  "link_id P Z v = (case v of
       JStr s \<Rightarrow> (case idFromString P Z s of Inl e \<Rightarrow> None | Inr b \<Rightarrow> Some b)
     | JObj ps \<Rightarrow> (case (prop_of v ''log'', prop_of v ''seq'') of
           (JBuf l, JNum n) \<Rightarrow> Some (c_put (recordId P) \<lparr>r_log = l, r_seq = nat n\<rparr>) | _ \<Rightarrow> None)
     | _ \<Rightarrow> None)"

fun encode_each :: "prims \<Rightarrow> z32 \<Rightarrow> (nat \<times> field) list \<Rightarrow> jsval \<Rightarrow> bytes list \<Rightarrow> (bytes list \<times> bytes list) option" where
  "encode_each P Z [] values links = Some ([], links)"
| "encode_each P Z ((n, name, kind) # fs) values links =
     (let v = prop_of values name
      in if absent v then encode_each P Z fs values links
         else do {
           (value, links') \<leftarrow>
             (if kind = ''link'' then do {
                id \<leftarrow> link_id P Z v;
                let pos = indexOf links id;
                Some (JNum (int pos), if pos = length links then links @ [id] else links) }
              else Some (v, links));
           bytes \<leftarrow> field_put P Z kind value;
           (parts, links'') \<leftarrow> encode_each P Z fs values links';
           Some (uints P n (length bytes) # bytes # parts, links'') })"

definition encode_fields :: "prims \<Rightarrow> z32 \<Rightarrow> field list \<Rightarrow> jsval \<Rightarrow> bytes list \<Rightarrow> (bytes \<times> bytes list) option \<Rightarrow> (bytes \<times> bytes list) option" where
  "encode_fields P Z fs values links keep = do {
     unknown \<leftarrow> (case keep of None \<Rightarrow> Some [] | Some (f, l) \<Rightarrow> unknownOf P (length fs) f);
     let links' = (if unknown \<noteq> [] then links @ snd (the keep) else links);
     (parts, links'') \<leftarrow> encode_each P Z (zip [1..<Suc (length fs)] fs) values links';
     Some (concat (parts @ unknown), links'') }"

partial_function (option) decode_each :: "prims \<Rightarrow> z32 \<Rightarrow> field list \<Rightarrow> bytes list \<Rightarrow> bytes \<Rightarrow> jsval list \<Rightarrow> jsval list option" where
  "decode_each P Z fs links bs out =
     (if bs = [] then Some out
      else do {
        (n, r) \<leftarrow> get_num P bs;
        (len, r) \<leftarrow> get_num P r;
        if length r < len then None
        else if n = 0 \<or> length fs < n then decode_each P Z fs links (drop len r) out
        else do {
          value \<leftarrow> field_get P Z (snd (fs ! (n - 1))) (take len r);
          value' \<leftarrow> (if snd (fs ! (n - 1)) = ''link'' then
              (case value of JNum i \<Rightarrow> if nat i < length links then Some (JStr (z_encode Z (links ! nat i))) else None | _ \<Rightarrow> None)
            else Some value);
          decode_each P Z fs links (drop len r) (out[n - 1 := value']) } })"

definition decode_fields :: "prims \<Rightarrow> z32 \<Rightarrow> field list \<Rightarrow> bytes \<Rightarrow> bytes list \<Rightarrow> jsval option" where
  "decode_fields P Z fs bs links =
     map_option (\<lambda>out. JObj (zip (map fst fs) out)) (decode_each P Z fs links bs (replicate (length fs) JNull))"

section \<open>Entries\<close>

definition entry_bytes :: "prims \<Rightarrow> nat \<times> bytes \<Rightarrow> bytes" where
  "entry_bytes P e = uints P (fst e) (length (snd e)) @ snd e"

definition small_entries :: "(nat \<times> bytes) list \<Rightarrow> bool" where
  "small_entries es \<longleftrightarrow> list_all (\<lambda>(n, b). n < 2 ^ 53 \<and> length b < 2 ^ 53) es"

fun decode_list :: "prims \<Rightarrow> z32 \<Rightarrow> field list \<Rightarrow> bytes list \<Rightarrow> (nat \<times> bytes) list \<Rightarrow> jsval list \<Rightarrow> jsval list option" where
  "decode_list P Z fs links [] out = Some out"
| "decode_list P Z fs links ((n, b) # es) out =
     (if n = 0 \<or> length fs < n then decode_list P Z fs links es out
      else do {
        value \<leftarrow> field_get P Z (snd (fs ! (n - 1))) b;
        value' \<leftarrow> (if snd (fs ! (n - 1)) = ''link'' then
            (case value of JNum i \<Rightarrow> if nat i < length links then Some (JStr (z_encode Z (links ! nat i))) else None | _ \<Rightarrow> None)
          else Some value);
        decode_list P Z fs links es (out[n - 1 := value']) })"

lemma get_num_put: "prims_ok P \<Longrightarrow> n < 2 ^ 53 \<Longrightarrow> get_num P (c_put (p_uint P) (JNum (int n)) @ r) = Some (n, r)"
  using num_trip(1) [of P n r] by (simp add: get_num_def)

lemma put_num_some:
  assumes "prims_ok P" "n < 2 ^ 53"
  shows "c_put (p_uint P) (JNum (int n)) \<noteq> []"
proof
  assume e: "c_put (p_uint P) (JNum (int n)) = []"
  define m :: nat where "m = (if n = 0 then 1 else 0)"
  have m: "m < 2 ^ 53" "m \<noteq> n" by (simp_all add: m_def)
  have "get_num P (c_put (p_uint P) (JNum (int m)) @ []) = Some (n, c_put (p_uint P) (JNum (int m)))"
    using get_num_put [OF assms, of "c_put (p_uint P) (JNum (int m))"] e by simp
  with get_num_put [OF assms(1) m(1), of "[]"] m(2) show False by simp
qed

lemma entry_parts:
  assumes "prims_ok P" "n < 2 ^ 53" "length b < 2 ^ 53"
  shows "entry_bytes P (n, b) \<noteq> []" "get_num P (entry_bytes P (n, b) @ r) = Some (n, c_put (p_uint P) (JNum (int (length b))) @ b @ r)"
    "get_num P (c_put (p_uint P) (JNum (int (length b))) @ b @ r) = Some (length b, b @ r)"
  using put_num_some [OF assms(1,2)] get_num_put [OF assms(1)] assms(2,3)
  by (simp_all add: entry_bytes_def uints_def)

lemma unknownOf_entries:
  assumes "prims_ok P" "small_entries es"
  shows "unknownOf P k (concat (map (entry_bytes P) es)) = Some (map (entry_bytes P) (filter (\<lambda>(n, b). n = 0 \<or> k < n) es))"
  using assms(2)
proof (induction es)
  case (Cons e es)
  obtain n b where e: "e = (n, b)" by (cases e)
  from Cons.prems have small: "n < 2 ^ 53" "length b < 2 ^ 53" "small_entries es" by (simp_all add: small_entries_def e)
  define rest where "rest = concat (map (entry_bytes P) es)"
  note p = entry_parts(1) [OF assms(1) small(1,2)] entry_parts(2,3) [OF assms(1) small(1,2), of rest]
  have "unknownOf P k (entry_bytes P (n, b) @ rest) =
    Some (map (entry_bytes P) (filter (\<lambda>(n, b). n = 0 \<or> k < n) ((n, b) # es)))"
    using Cons.IH [OF small(3), folded rest_def] by (subst unknownOf.simps) (simp add: p)
  then show ?case by (simp add: e rest_def)
qed (simp add: unknownOf.simps)

lemma decode_entries:
  assumes "prims_ok P" "small_entries es"
  shows "decode_each P Z fs links (concat (map (entry_bytes P) es)) out = decode_list P Z fs links es out"
  using assms(2)
proof (induction es arbitrary: out)
  case (Cons e es)
  obtain n b where e: "e = (n, b)" by (cases e)
  from Cons.prems have small: "n < 2 ^ 53" "length b < 2 ^ 53" "small_entries es" by (simp_all add: small_entries_def e)
  define rest where "rest = concat (map (entry_bytes P) es)"
  note p = entry_parts(1) [OF assms(1) small(1,2)] entry_parts(2,3) [OF assms(1) small(1,2), of rest]
  have "decode_each P Z fs links (entry_bytes P (n, b) @ rest) out = decode_list P Z fs links ((n, b) # es) out"
    using Cons.IH [OF small(3), folded rest_def] by (subst decode_each.simps) (simp add: p cong: if_cong)
  then show ?case by (simp add: e rest_def)
qed (simp add: decode_each.simps)

section \<open>Values of the kinds\<close>

definition z_ok :: "z32 \<Rightarrow> bool" where
  "z_ok Z \<longleftrightarrow> z_encode Z [] = [] \<and> (\<forall>b. z_decode Z (z_encode Z b) = Some b)"

definition ref_fields :: "(string \<times> (jsval \<Rightarrow> bool)) list" where
  "ref_fields = [(''src'', is_arr is_str), (''size'', is_uint), (''type'', is_str), (''digest'', is_str), (''mutable'', is_bool)]"

definition value_fits :: "prims \<Rightarrow> z32 \<Rightarrow> string \<Rightarrow> jsval \<Rightarrow> bool" where
  "value_fits P Z kind v \<longleftrightarrow>
     (if kind = ''string'' \<or> kind = ''text'' then is_str v
      else if kind = ''int'' then is_int v
      else if kind = ''uint'' then is_uint v
      else if kind = ''float'' then is_float v
      else if kind = ''bool'' then is_bool v
      else if kind = ''bytes'' then (case v of JBuf b \<Rightarrow> True | _ \<Rightarrow> False)
      else if kind = ''ref'' then is_struct ref_fields v
      else if kind = ''space'' then \<exists>b. v = JStr (z_encode Z b) \<and> length b = 32
      else if kind = ''link'' then \<exists>b. v = JStr (z_encode Z b) \<and> 33 \<le> length b \<and> decode (recordId P) b \<noteq> None
      else False)"

definition values_fit :: "prims \<Rightarrow> z32 \<Rightarrow> field list \<Rightarrow> jsval \<Rightarrow> bool" where
  "values_fit P Z fs v \<longleftrightarrow> list_all (\<lambda>(name, kind). absent (prop_of v name) \<or> value_fits P Z kind (prop_of v name)) fs"

lemma js_or_fits: "is_uint v \<Longrightarrow> js_or v (JNum 0) = v" "is_str v \<Longrightarrow> js_or v (JStr []) = v" "is_arr D v \<Longrightarrow> js_or v d = v"
  "is_bool v \<Longrightarrow> JBool (js_truthy v) = v"
  by (cases v; simp add: js_or_def is_uint_def is_str_def is_arr_def is_bool_def)+

lemma ref_trip:
  assumes "prims_ok P"
  shows "roundtrip (ref_codec P) (is_struct ref_fields)"
proof -
  have "roundtrip (struct [(''src'', p_array P (p_string P)), (''size'', p_uint P), (''type'', p_string P),
         (''digest'', p_string P), (''mutable'', p_bool P)]) (is_struct ref_fields)"
    by (intro struct_trip) (simp add: fields_trip_def ref_fields_def trips assms)
  moreover have "JObj [(''src'', js_or (prop_of v ''src'') (JArr [])), (''size'', js_or (prop_of v ''size'') (JNum 0)),
         (''type'', js_or (prop_of v ''type'') (JStr [])), (''digest'', js_or (prop_of v ''digest'') (JStr [])),
         (''mutable'', JBool (js_truthy (prop_of v ''mutable'')))] = v" if "is_struct ref_fields v" for v
  proof -
    from that have e: "v = JObj (map (\<lambda>(n, D). (n, prop_of v n)) ref_fields)" and f: "fields_fit ref_fields v"
      unfolding is_struct_def by blast+
    from f have "js_or (prop_of v ''src'') (JArr []) = prop_of v ''src''" "js_or (prop_of v ''size'') (JNum 0) = prop_of v ''size''"
      "js_or (prop_of v ''type'') (JStr []) = prop_of v ''type''" "js_or (prop_of v ''digest'') (JStr []) = prop_of v ''digest''"
      "JBool (js_truthy (prop_of v ''mutable'')) = prop_of v ''mutable''"
      by (simp_all add: fields_fit_def ref_fields_def js_or_fits js_or_fits(3) [of is_str])
    then show ?thesis using e by (simp add: ref_fields_def)
  qed
  ultimately show ?thesis unfolding roundtrip_def ref_codec_def Let_def by simp
qed

lemma field_trip:
  assumes "prims_ok P" "z_ok Z" "kind \<noteq> ''link''" "value_fits P Z kind v"
  shows "\<exists>b. field_put P Z kind v = Some b \<and> field_get P Z kind b = Some v"
proof (cases "kind = ''space''")
  case True
  with assms(4) obtain b where b: "v = JStr (z_encode Z b)" "length b = 32" by (auto simp: value_fits_def)
  with assms(2) have "toKey Z v = Some b" by (simp add: toKey_def z_ok_def)
  with True b key_trip(2) [OF assms(1) b(2)] show ?thesis
    by (simp add: field_put_def field_get_def kind_codec_def decode_def)
next
  case False
  have "c_get (kind_codec P kind) (c_put (kind_codec P kind) v) = Some (v, [])"
  proof (cases "kind = ''bytes''")
    case True
    with assms(4) obtain b where "v = JBuf b" by (auto simp: value_fits_def split: jsval.splits)
    with True raw_trip [OF assms(1)] show ?thesis by (simp add: kind_codec_def)
  next
    case bytes: False
    note t = roundtripD(2) [OF string_trip [OF assms(1)]] roundtripD(2) [OF int_trip [OF assms(1)]]
      roundtripD(2) [OF uint_trip [OF assms(1)]] roundtripD(2) [OF float_trip [OF assms(1)]]
      roundtripD(2) [OF bool_trip [OF assms(1)]] roundtripD(2) [OF ref_trip [OF assms(1)]]
    from assms(3,4) False bytes t show ?thesis by (auto simp: value_fits_def kind_codec_def split: if_splits)
  qed
  with False show ?thesis by (simp add: field_put_def field_get_def decode_def)
qed

lemma link_trip:
  assumes "prims_ok P" "i < 2 ^ 53"
  shows "\<exists>b. field_put P Z ''link'' (JNum (int i)) = Some b \<and> field_get P Z ''link'' b = Some (JNum (int i))"
  using num_trip(2) [OF assms] by (simp add: field_put_def field_get_def kind_codec_def decode_def)

lemma link_of_text:
  assumes "z_ok Z" "33 \<le> length b" "decode (recordId P) b \<noteq> None"
  shows "link_id P Z (JStr (z_encode Z b)) = Some b"
  using assms by (simp add: link_id_def idFromString_def z_ok_def)

section \<open>What is written is read\<close>

text \<open>The fields with their numbers, and the values a reader gets: null for absent ones.\<close>

definition numbered :: "nat \<Rightarrow> field list \<Rightarrow> (nat \<times> field) list" where
  "numbered k fs = zip [Suc k..<Suc (k + length fs)] fs"

definition normal :: "jsval \<Rightarrow> jsval" where
  "normal v = (if absent v then JNull else v)"

fun put_values :: "(nat \<times> field) list \<Rightarrow> jsval \<Rightarrow> jsval list \<Rightarrow> jsval list" where
  "put_values [] v out = out"
| "put_values ((n, name, kind) # fs) v out =
     put_values fs v (if absent (prop_of v name) then out else out[n - 1 := prop_of v name])"

lemma decode_list_append:
  "decode_list P Z fs L (es @ es') out = do { o1 \<leftarrow> decode_list P Z fs L es out; decode_list P Z fs L es' o1 }"
proof (induction es arbitrary: out)
  case (Cons e es)
  obtain n b where e: "e = (n, b)" by (cases e)
  show ?case by (simp add: e Cons.IH cong: if_cong)
qed simp

text \<open>The entries an encoder writes for its fields, and how a reader that has these fields too reads them.\<close>

definition written :: "prims \<Rightarrow> z32 \<Rightarrow> (nat \<times> field) list \<Rightarrow> jsval \<Rightarrow> bytes list \<Rightarrow> bytes list \<Rightarrow> (nat \<times> bytes) list \<Rightarrow> bool" where
  "written P Z nfs v links parts es \<longleftrightarrow>
     concat parts = concat (map (entry_bytes P) es) \<and> set (map fst es) \<subseteq> fst ` set nfs \<and>
     (\<forall>fs x out. (\<forall>(n, f)\<in>set nfs. 1 \<le> n \<and> n \<le> length fs \<and> fs ! (n - 1) = f) \<longrightarrow>
        decode_list P Z fs (links @ x) es out = Some (put_values nfs v out))"

lemma indexOf_bounds: "indexOf xs x \<le> length xs" "indexOf xs x < length xs \<Longrightarrow> xs ! indexOf xs x = x"
  by (induction xs) auto

lemma encode_each_written:
  assumes "prims_ok P" "z_ok Z" "values_fit P Z (map snd nfs) v" "length links + length nfs < 2 ^ 53"
  shows "\<exists>parts links' es. encode_each P Z nfs v links = Some (parts, links') \<and> written P Z nfs v links' parts es \<and>
    (\<exists>more. links' = links @ more \<and> length more \<le> length nfs)"
  using assms(3,4)
proof (induction nfs arbitrary: links)
  case Nil
  show ?case by (intro exI [of _ "[]"] exI [of _ links]) (simp add: written_def)
next
  case (Cons nf nfs)
  obtain n name kind where nf: "nf = (n, name, kind)" by (cases nf) auto
  have fit: "absent (prop_of v name) \<or> value_fits P Z kind (prop_of v name)" "values_fit P Z (map snd nfs) v"
    using Cons.prems(1) by (simp_all add: values_fit_def nf)
  show ?case
  proof (cases "absent (prop_of v name)")
    case True
    from Cons.IH [OF fit(2), of links] Cons.prems(2) obtain parts links' es where
      "encode_each P Z nfs v links = Some (parts, links')" "written P Z nfs v links' parts es"
      "\<exists>more. links' = links @ more \<and> length more \<le> length nfs" by auto
    with True show ?thesis
      by (intro exI [of _ parts] exI [of _ links'] exI [of _ es]) (auto simp: nf written_def)
  next
    case False
    with fit(1) have fits: "value_fits P Z kind (prop_of v name)" by blast
    define pv where "pv = prop_of v name"
    have "\<exists>value l1 b. (if kind = ''link'' then do {
                id \<leftarrow> link_id P Z pv;
                let pos = indexOf links id;
                Some (JNum (int pos), if pos = length links then links @ [id] else links) }
              else Some (pv, links)) = Some (value, l1) \<and> field_put P Z kind value = Some b \<and>
        (\<exists>more. l1 = links @ more \<and> length more \<le> 1) \<and>
        (\<forall>x. \<exists>val. field_get P Z kind b = Some val \<and> (if kind = ''link'' then
            (case val of JNum i \<Rightarrow> if nat i < length (l1 @ x) then Some (JStr (z_encode Z ((l1 @ x) ! nat i))) else None | _ \<Rightarrow> None)
          else Some val) = Some pv)"
    proof (cases "kind = ''link''")
      case True
      with fits obtain b where b: "pv = JStr (z_encode Z b)" "33 \<le> length b" "decode (recordId P) b \<noteq> None"
        by (auto simp: value_fits_def pv_def)
      define pos where "pos = indexOf links b"
      define l1 where "l1 = (if pos = length links then links @ [b] else links)"
      have pos: "pos < length l1" "l1 ! pos = b" "pos < 2 ^ 53"
        using indexOf_bounds [of links b] Cons.prems(2) by (auto simp: pos_def l1_def nth_append)
      from link_trip [OF assms(1) pos(3), of Z] obtain c where
        c: "field_put P Z ''link'' (JNum (int pos)) = Some c" "field_get P Z ''link'' c = Some (JNum (int pos))" by blast
      show ?thesis
        using c pos link_of_text [OF assms(2) b(2,3)]
        by (intro exI [of _ "JNum (int pos)"] exI [of _ l1] exI [of _ c])
          (auto simp: True b(1) Let_def pos_def [symmetric] l1_def [symmetric] nth_append, auto simp: l1_def)
    next
      case False
      from field_trip [OF assms(1,2) False, of pv] fits pv_def obtain b where
        "field_put P Z kind pv = Some b" "field_get P Z kind b = Some pv" by auto
      with False show ?thesis by (intro exI [of _ pv] exI [of _ links] exI [of _ b]) auto
    qed
    then obtain w l1 b more1 where one:
      "(if kind = ''link'' then do {
                id \<leftarrow> link_id P Z pv;
                let pos = indexOf links id;
                Some (JNum (int pos), if pos = length links then links @ [id] else links) }
              else Some (pv, links)) = Some (w, l1)" "field_put P Z kind w = Some b"
      "l1 = links @ more1" "length more1 \<le> 1"
      "\<And>x. \<exists>val. field_get P Z kind b = Some val \<and> (if kind = ''link'' then
            (case val of JNum i \<Rightarrow> if nat i < length (l1 @ x) then Some (JStr (z_encode Z ((l1 @ x) ! nat i))) else None | _ \<Rightarrow> None)
          else Some val) = Some pv" by blast
    from Cons.IH [OF fit(2), of l1] Cons.prems(2) one(3,4) obtain parts links' es more2 where
      rest: "encode_each P Z nfs v l1 = Some (parts, links')" "written P Z nfs v links' parts es"
        "links' = l1 @ more2" "length more2 \<le> length nfs" by auto
    have enc: "encode_each P Z (nf # nfs) v links = Some (uints P n (length b) # b # parts, links')"
      using False one(1,2) rest(1) unfolding nf encode_each.simps Let_def pv_def by simp
    have "decode_list P Z fs (links' @ x) ((n, b) # es) out = Some (put_values (nf # nfs) v out)"
      if fs: "\<forall>(n, f)\<in>set (nf # nfs). 1 \<le> n \<and> n \<le> length fs \<and> fs ! (n - 1) = f" for fs x out
    proof -
      from one(5) [of "more2 @ x"] obtain val where val: "field_get P Z kind b = Some val" "(if kind = ''link'' then
            (case val of JNum i \<Rightarrow> if nat i < length (links' @ x) then Some (JStr (z_encode Z ((links' @ x) ! nat i))) else None | _ \<Rightarrow> None)
          else Some val) = Some pv" unfolding rest(3) append_assoc by blast
      from fs have n: "n \<noteq> 0" "\<not> length fs < n" "snd (fs ! (n - 1)) = kind" by (auto simp: nf)
      from rest(2) fs have "decode_list P Z fs (links' @ x) es (out[n - 1 := pv]) = Some (put_values nfs v (out[n - 1 := pv]))"
        unfolding written_def by auto
      with n val False show ?thesis by (simp add: nf pv_def [symmetric])
    qed
    with rest(2) have "written P Z (nf # nfs) v links' (uints P n (length b) # b # parts) ((n, b) # es)"
      by (auto simp: written_def entry_bytes_def nf)
    with enc one(3,4) rest(3,4) show ?thesis
      by (intro exI [of _ "uints P n (length b) # b # parts"] exI [of _ links'] exI [of _ "(n, b) # es"]) auto
  qed
qed

lemma encode_each_append:
  "encode_each P Z (as @ bs) v links = do {
     (p1, l1) \<leftarrow> encode_each P Z as v links;
     (p2, l2) \<leftarrow> encode_each P Z bs v l1;
     Some (p1 @ p2, l2) }"
proof (induction as arbitrary: links)
  case Nil
  then show ?case by (cases "encode_each P Z bs v links") auto
next
  case (Cons a as)
  obtain n name kind where a: "a = (n, name, kind)" by (cases a) auto
  show ?case
  proof (cases "absent (prop_of v name)")
    case True
    then show ?thesis by (simp add: a Cons.IH)
  next
    case False
    then show ?thesis
      by (auto simp: a Cons.IH Let_def bind_eq_Some_conv split: Option.bind_split prod.splits intro!: option.expand)
  qed
qed

lemma numbered_append: "numbered k (fs @ gs) = numbered k fs @ numbered (k + length fs) gs"
proof -
  have "[Suc k..<Suc (k + length (fs @ gs))] = [Suc k..<Suc (k + length fs)] @ [Suc (k + length fs)..<Suc (k + length fs + length gs)]"
    using upt_add_eq_append [of "Suc k" "Suc (k + length fs)" "length gs"] by (simp add: add.assoc del: upt_Suc)
  then show ?thesis by (simp add: numbered_def add.assoc del: upt_Suc)
qed

lemma numbered_facts:
  "length (numbered k fs) = length fs" "map snd (numbered k fs) = fs" "fst ` set (numbered k fs) = {k<..k + length fs}"
  "(n, f) \<in> set (numbered k fs) \<Longrightarrow> k < n \<and> n \<le> k + length fs \<and> fs ! (n - Suc k) = f"
proof -
  show "fst ` set (numbered k fs) = {k<..k + length fs}"
  proof -
    have "fst ` set (numbered k fs) = set (map fst (numbered k fs))" by simp
    also have "map fst (numbered k fs) = [Suc k..<Suc (k + length fs)]" by (simp add: numbered_def del: upt_Suc)
    finally show ?thesis by auto
  qed
  assume "(n, f) \<in> set (numbered k fs)"
  then show "k < n \<and> n \<le> k + length fs \<and> fs ! (n - Suc k) = f"
    by (auto simp: numbered_def set_zip simp del: upt_Suc)
qed (simp_all add: numbered_def del: upt_Suc)

lemma put_numbered:
  "length as = k \<Longrightarrow> put_values (numbered k fs) v (as @ replicate (length fs) JNull @ rest) =
     as @ map (\<lambda>(n, kind). normal (prop_of v n)) fs @ rest"
proof (induction fs arbitrary: k as)
  case (Cons f fs)
  obtain name kind where f: "f = (name, kind)" by (cases f)
  have n: "numbered k (f # fs) = (Suc k, f) # numbered (Suc k) fs"
    using upt_conv_Cons [of "Suc k" "Suc (k + length (f # fs))"] by (simp add: numbered_def del: upt_Suc)
  have "put_values (numbered (Suc k) fs) v ((as @ [normal (prop_of v name)]) @ replicate (length fs) JNull @ rest) =
     (as @ [normal (prop_of v name)]) @ map (\<lambda>(n, kind). normal (prop_of v n)) fs @ rest"
    using Cons.IH [of "as @ [normal (prop_of v name)]" "Suc k"] Cons.prems by simp
  with Cons.prems show ?case by (simp add: n [unfolded f] f normal_def list_update_append split: if_splits)
qed (simp add: numbered_def)

lemma decode_list_skip:
  "list_all (\<lambda>(n, b). n = 0 \<or> length fs < n) es \<Longrightarrow> decode_list P Z fs links es out = Some out"
  by (induction es) auto

text \<open>What an app writes for its fields \<open>fs @ gs\<close>: the entries of \<open>fs\<close>, then those of \<open>gs\<close>.\<close>

lemma encode_two:
  assumes "prims_ok P" "z_ok Z" "values_fit P Z (fs @ gs) v" "length links + length (fs @ gs) < 2 ^ 53"
  shows "\<exists>parts l1 more es1 es2. encode_each P Z (numbered 0 (fs @ gs)) v links = Some (parts, l1 @ more) \<and>
    concat parts = concat (map (entry_bytes P) (es1 @ es2)) \<and> length (l1 @ more) \<le> length links + length (fs @ gs) \<and>
    (\<exists>m. l1 = links @ m) \<and>
    written P Z (numbered 0 fs) v l1 [concat (map (entry_bytes P) es1)] es1 \<and>
    written P Z (numbered (length fs) gs) v (l1 @ more) [concat (map (entry_bytes P) es2)] es2"
proof -
  have fits: "values_fit P Z (map snd (numbered 0 fs)) v" "values_fit P Z (map snd (numbered (length fs) gs)) v"
    using assms(3) by (simp_all add: numbered_facts values_fit_def)
  have "length links + length (numbered 0 fs) < 2 ^ 53" using assms(4) by (simp add: numbered_facts)
  from encode_each_written [OF assms(1,2) fits(1) this] obtain p1 l1 es1 m1 where
    one: "encode_each P Z (numbered 0 fs) v links = Some (p1, l1)" "written P Z (numbered 0 fs) v l1 p1 es1"
      "l1 = links @ m1" "length m1 \<le> length fs" by (auto simp: numbered_facts)
  have "length l1 + length (numbered (length fs) gs) < 2 ^ 53" using assms(4) one(3,4) by (simp add: numbered_facts)
  from encode_each_written [OF assms(1,2) fits(2) this] obtain p2 l2 es2 m2 where
    two: "encode_each P Z (numbered (length fs) gs) v l1 = Some (p2, l2)" "written P Z (numbered (length fs) gs) v l2 p2 es2"
      "l2 = l1 @ m2" "length m2 \<le> length gs" by (auto simp: numbered_facts)
  have "encode_each P Z (numbered 0 (fs @ gs)) v links = Some (p1 @ p2, l1 @ m2)"
    using one(1) two(1,3) by (simp add: numbered_append encode_each_append)
  moreover have "concat (p1 @ p2) = concat (map (entry_bytes P) (es1 @ es2))" using one(2) two(2) by (simp add: written_def)
  ultimately show ?thesis
    using one two unfolding written_def by (intro exI [of _ "p1 @ p2"] exI [of _ l1] exI [of _ m2] exI [of _ es1] exI [of _ es2]) auto
qed

lemma small_of_length:
  assumes "length (concat (map (entry_bytes P) es)) < 2 ^ 53" "\<And>n b. (n, b) \<in> set es \<Longrightarrow> n < 2 ^ 53"
  shows "small_entries es"
proof -
  have "length b < 2 ^ 53" if "(n, b) \<in> set es" for n b
  proof -
    from that obtain as bs where "es = as @ (n, b) # bs" by (metis split_list)
    with assms(1) show ?thesis by (simp add: entry_bytes_def)
  qed
  with assms(2) show ?thesis unfolding small_entries_def list_all_iff by auto
qed

lemma written_numbers: "written P Z (numbered k fs) v l ps es \<Longrightarrow> (n, b) \<in> set es \<Longrightarrow> k < n \<and> n \<le> k + length fs"
  unfolding written_def numbered_facts by force

lemma written_reads:
  assumes "written P Z (numbered (length as) fs) v l ps es"
  shows "decode_list P Z (as @ fs @ bs) (l @ x) es out = Some (put_values (numbered (length as) fs) v out)"
proof -
  have "1 \<le> n \<and> n \<le> length (as @ fs @ bs) \<and> (as @ fs @ bs) ! (n - 1) = f" if "(n, f) \<in> set (numbered (length as) fs)" for n f
  proof -
    from numbered_facts(4) [OF that] have n: "length as < n" "n \<le> length as + length fs" "fs ! (n - Suc (length as)) = f" by simp_all
    then show ?thesis by (auto simp: nth_append)
  qed
  with assms show ?thesis unfolding written_def by blast
qed

definition read_as :: "field list \<Rightarrow> jsval \<Rightarrow> (string \<times> jsval) list" where
  "read_as fs v = map (\<lambda>(name, kind). (name, normal (prop_of v name))) fs"

lemma zip_read: "zip (map fst fs) (map (\<lambda>(n, kind). normal (prop_of v n)) fs) = read_as fs v"
  by (induction fs) (auto simp: read_as_def)

lemma zip_null: "zip (map fst gs) (replicate (length gs) JNull) = map (\<lambda>(name, kind). (name, JNull)) gs"
  by (induction gs) auto

lemma zip_nat: "zip [1..<Suc (length fs)] fs = numbered 0 fs"
  by (simp add: numbered_def)

text \<open>C31: What an app writes of a record's fields, every reader of the type gets back: one with the same fields, one
  of an older version with only the first of them (it skips the others), and one of a newer version with more
  (null for those). Absent values are read as null, links as the ids they were given by.\<close>

theorem fields_read_by_any_version:
  assumes "prims_ok P" "z_ok Z" "values_fit P Z (fs @ gs) v" "length (fs @ gs) < 2 ^ 53"
  shows "\<exists>bytes links. encode_fields P Z (fs @ gs) v [] None = Some (bytes, links) \<and>
    (length bytes \<le> MAX_RECORD \<longrightarrow> decode_fields P Z fs bytes links = Some (JObj (read_as fs v)) \<and>
       (\<forall>hs. decode_fields P Z (fs @ gs @ hs) bytes links = Some (JObj (read_as (fs @ gs) v @ map (\<lambda>(name, kind). (name, JNull)) hs))))"
proof -
  from encode_two [OF assms(1-3), of "[]"] assms(4) obtain parts l1 more es1 es2 where
    e: "encode_each P Z (numbered 0 (fs @ gs)) v [] = Some (parts, l1 @ more)"
      "concat parts = concat (map (entry_bytes P) (es1 @ es2))"
      "written P Z (numbered 0 fs) v l1 [concat (map (entry_bytes P) es1)] es1"
      "written P Z (numbered (length fs) gs) v (l1 @ more) [concat (map (entry_bytes P) es2)] es2" by auto
  define bytes where "bytes = concat (map (entry_bytes P) (es1 @ es2))"
  have enc: "encode_fields P Z (fs @ gs) v [] None = Some (bytes, l1 @ more)"
    unfolding encode_fields_def zip_nat using e(1,2) by (simp add: bytes_def)
  have read: "decode_fields P Z fs bytes (l1 @ more) = Some (JObj (read_as fs v)) \<and>
       (\<forall>hs. decode_fields P Z (fs @ gs @ hs) bytes (l1 @ more) = Some (JObj (read_as (fs @ gs) v @ map (\<lambda>(name, kind). (name, JNull)) hs)))"
    if small: "length bytes \<le> MAX_RECORD"
  proof -
    have "n < 2 ^ 53" if "(n, b) \<in> set (es1 @ es2)" for n b
      using that written_numbers [OF e(3), of n b] written_numbers [OF e(4), of n b] assms(4) by auto
    moreover have "length bytes < 2 ^ 53" using small by (simp add: MAX_RECORD_def)
    ultimately have se: "small_entries (es1 @ es2)" unfolding bytes_def by (intro small_of_length)
    note d = decode_entries [OF assms(1) se]
    have r1: "decode_list P Z (fs @ bs) (l1 @ more) es1 out = Some (put_values (numbered 0 fs) v out)" for bs out
      using written_reads [of P Z "[]" fs v l1 _ es1 bs more] e(3) by simp
    have r2: "decode_list P Z (fs @ gs @ hs) (l1 @ more) es2 out = Some (put_values (numbered (length fs) gs) v out)" for hs out
      using written_reads [OF e(4), of hs "[]"] by simp
    have "list_all (\<lambda>(n, b). n = 0 \<or> length fs < n) es2" using written_numbers [OF e(4)] by (auto simp: list_all_iff)
    then have "decode_each P Z fs (l1 @ more) bytes (replicate (length fs) JNull) = Some (map (\<lambda>(n, kind). normal (prop_of v n)) fs)"
      using r1 [of "[]"] put_numbered [of "[]" 0 fs v "[]"] decode_list_skip [of fs es2]
      by (simp only: bytes_def d decode_list_append) simp
    then have "decode_fields P Z fs bytes (l1 @ more) = Some (JObj (read_as fs v))"
      by (simp add: decode_fields_def zip_read)
    moreover have "decode_fields P Z (fs @ gs @ hs) bytes (l1 @ more) =
        Some (JObj (read_as (fs @ gs) v @ map (\<lambda>(name, kind). (name, JNull)) hs))" for hs
    proof -
      have "decode_each P Z (fs @ gs @ hs) (l1 @ more) bytes (replicate (length (fs @ gs @ hs)) JNull) =
        Some (map (\<lambda>(n, kind). normal (prop_of v n)) fs @ map (\<lambda>(n, kind). normal (prop_of v n)) gs @ replicate (length hs) JNull)"
        using r1 [of "gs @ hs"] r2 [of hs]
          put_numbered [of "[]" 0 fs v "replicate (length gs) JNull @ replicate (length hs) JNull"]
          put_numbered [of "map (\<lambda>(n, kind). normal (prop_of v n)) fs" "length fs" gs v "replicate (length hs) JNull"]
        by (simp only: bytes_def d decode_list_append) (simp add: replicate_add)
      then show ?thesis by (simp add: decode_fields_def zip_read zip_null) (simp add: read_as_def)
    qed
    ultimately show ?thesis by blast
  qed
  with enc show ?thesis by blast
qed

lemma decode_two:
  assumes "prims_ok P" "small_entries (es @ es2)"
    and "\<And>out. decode_list P Z (fs @ gs) l es out = Some (put_values (numbered 0 fs) v out)"
    and "\<And>out. decode_list P Z (fs @ gs) l es2 out = Some (put_values (numbered (length fs) gs) w out)"
  shows "decode_fields P Z (fs @ gs) (concat (map (entry_bytes P) (es @ es2))) l = Some (JObj (read_as fs v @ read_as gs w))"
proof -
  have "decode_each P Z (fs @ gs) l (concat (map (entry_bytes P) (es @ es2))) (replicate (length (fs @ gs)) JNull) =
    Some (map (\<lambda>(n, kind). normal (prop_of v n)) fs @ map (\<lambda>(n, kind). normal (prop_of w n)) gs)"
    using assms(3,4) put_numbered [of "[]" 0 fs v "replicate (length gs) JNull"]
      put_numbered [of "map (\<lambda>(n, kind). normal (prop_of v n)) fs" "length fs" gs w "[]"]
    by (simp only: decode_entries [OF assms(1,2)] decode_list_append) (simp add: replicate_add)
  then show ?thesis by (simp add: decode_fields_def zip_read)
qed

text \<open>C32: An app of an older version that edits a record keeps the fields it does not know: read by the newer version
  that wrote it, the edited record has the values the edit gave to the fields both know and, in all the newer
  fields, the values it had, links included.\<close>

theorem edits_keep_newer_fields:
  assumes "prims_ok P" "z_ok Z" "values_fit P Z (fs @ gs) w" "values_fit P Z fs v" "length (fs @ gs) + length fs < 2 ^ 53"
    "encode_fields P Z (fs @ gs) w [] None = Some (old, links)" "length old \<le> MAX_RECORD"
  shows "\<exists>bytes links'. encode_fields P Z fs v [] (Some (old, links)) = Some (bytes, links') \<and>
    (length bytes \<le> MAX_RECORD \<longrightarrow> decode_fields P Z (fs @ gs) bytes links' = Some (JObj (read_as fs v @ read_as gs w)))"
proof -
  from encode_two [OF assms(1-3), of "[]"] assms(5) obtain parts l1 more es1 es2 where
    e: "encode_each P Z (numbered 0 (fs @ gs)) w [] = Some (parts, l1 @ more)"
      "concat parts = concat (map (entry_bytes P) (es1 @ es2))" "length (l1 @ more) \<le> length (fs @ gs)"
      "written P Z (numbered 0 fs) w l1 [concat (map (entry_bytes P) es1)] es1"
      "written P Z (numbered (length fs) gs) w (l1 @ more) [concat (map (entry_bytes P) es2)] es2" by auto
  have old: "old = concat (map (entry_bytes P) (es1 @ es2))" "links = l1 @ more"
    using assms(6) e(1,2) unfolding encode_fields_def zip_nat by auto
  have n12: "n < 2 ^ 53" if "(n, b) \<in> set (es1 @ es2)" for n b
    using that written_numbers [OF e(4), of n b] written_numbers [OF e(5), of n b] assms(5) by auto
  have "small_entries (es1 @ es2)" using n12 assms(7) old(1) by (intro small_of_length [where P = P]) (simp_all add: MAX_RECORD_def)
  note u = unknownOf_entries [OF assms(1) this, of "length fs"]
  have "filter (\<lambda>(n, b). n = 0 \<or> length fs < n) es1 = []"
    using written_numbers [OF e(4)] by (fastforce simp: filter_empty_conv)
  moreover have "filter (\<lambda>(n, b). n = 0 \<or> length fs < n) es2 = es2"
    using written_numbers [OF e(5)] by (auto simp: filter_id_conv)
  ultimately have f: "filter (\<lambda>(n, b). n = 0 \<or> length fs < n) (es1 @ es2) = es2" by simp
  have unknown: "unknownOf P (length fs) old = Some (map (entry_bytes P) es2)" using u unfolding old f .
  define kept where "kept = (if map (entry_bytes P) es2 \<noteq> [] then links else [])"
  have "length kept + length fs < 2 ^ 53" using e(3) assms(5) by (simp add: kept_def old(2))
  from encode_each_written [OF assms(1,2), of "numbered 0 fs" v kept] assms(4) this obtain p l es x where
    n: "encode_each P Z (numbered 0 fs) v kept = Some (p, l)" "written P Z (numbered 0 fs) v l p es" "l = kept @ x"
    by (auto simp: numbered_facts)
  define bytes where "bytes = concat (map (entry_bytes P) (es @ es2))"
  have enc: "encode_fields P Z fs v [] (Some (old, links)) = Some (bytes, l)"
    unfolding encode_fields_def zip_nat using n(1,2) unknown by (cases "es2 = []") (auto simp: kept_def bytes_def written_def)
  have "decode_fields P Z (fs @ gs) bytes l = Some (JObj (read_as fs v @ read_as gs w))" if small: "length bytes \<le> MAX_RECORD"
  proof -
    have "n < 2 ^ 53" if "(n, b) \<in> set (es @ es2)" for n b
      using that written_numbers [OF n(2), of n b] n12 assms(5) by auto
    then have se: "small_entries (es @ es2)" using small by (intro small_of_length [where P = P]) (simp_all add: bytes_def MAX_RECORD_def)
    have r1: "decode_list P Z (fs @ gs) l es out = Some (put_values (numbered 0 fs) v out)" for out
      using written_reads [of P Z "[]" fs v l p es gs "[]"] n(2) by simp
    have r2: "decode_list P Z (fs @ gs) l es2 out = Some (put_values (numbered (length fs) gs) w out)" for out
    proof (cases "es2 = []")
      case True
      with written_reads [OF e(5), of "[]" "[]" out] show ?thesis by simp
    next
      case False
      with written_reads [OF e(5), of "[]" x out] show ?thesis by (simp add: n(3) kept_def old(2))
    qed
    show ?thesis unfolding bytes_def by (rule decode_two [OF assms(1) se r1 r2])
  qed
  with enc show ?thesis by blast
qed

section \<open>On a record\<close>

definition plain_z32 :: z32 where
  "plain_z32 = \<lparr>z_encode = hex, z_decode = (\<lambda>s. Some (unhex s))\<rparr>"

lemma plain_z32_ok: "z_ok plain_z32"
  by (simp add: z_ok_def plain_z32_def hex_def [of "[]"])

definition post_fields :: "field list" where
  "post_fields = [(''title'', ''string''), (''likes'', ''uint'')]"

definition post_v1 :: jsval where
  "post_v1 = JObj [(''title'', JStr ''hi''), (''likes'', JNum 3)]"

lemma post_fits: "values_fit plain plain_z32 post_fields post_v1" "values_fit plain plain_z32 [(''title'', ''string'')] post_v1"
  by (simp_all add: values_fit_def post_fields_def post_v1_def value_fits_def is_str_def is_uint_def)

theorem fields_read_by_any_version_witness:
  "\<exists>bytes links. encode_fields plain plain_z32 post_fields post_v1 [] None = Some (bytes, links) \<and>
    decode_fields plain plain_z32 [(''title'', ''string'')] bytes links = Some (JObj [(''title'', JStr ''hi'')])"
proof -
  have p: "[(''title'', ''string'')] @ [(''likes'', ''uint'')] = post_fields" by (simp add: post_fields_def)
  from fields_read_by_any_version [OF plain_ok plain_z32_ok, of "[(''title'', ''string'')]" "[(''likes'', ''uint'')]" post_v1] post_fits(1)
  obtain bytes links where b: "encode_fields plain plain_z32 post_fields post_v1 [] None = Some (bytes, links)"
    "length bytes \<le> MAX_RECORD \<longrightarrow> decode_fields plain plain_z32 [(''title'', ''string'')] bytes links =
       Some (JObj (read_as [(''title'', ''string'')] post_v1))" unfolding p by (auto simp: post_fields_def)
  have "map_option (\<lambda>(b, l). length b) (encode_fields plain plain_z32 post_fields post_v1 [] None) = Some 46"
    by (simp add: encode_fields_def post_fields_def post_v1_def uints_def field_put_def kind_codec_def plain_def plain_int_def
        plain_string_def absent_def)
  with b show ?thesis by (auto simp: MAX_RECORD_def read_as_def post_v1_def normal_def absent_def)
qed


theorem edits_keep_newer_fields_witness:
  "\<exists>old links bytes links'. encode_fields plain plain_z32 post_fields post_v1 [] None = Some (old, links) \<and>
    encode_fields plain plain_z32 [(''title'', ''string'')] (JObj [(''title'', JStr ''ho'')]) [] (Some (old, links)) = Some (bytes, links')"
proof -
  have p: "[(''title'', ''string'')] @ [(''likes'', ''uint'')] = post_fields" by (simp add: post_fields_def)
  have "map_option (\<lambda>(b, l). length b) (encode_fields plain plain_z32 post_fields post_v1 [] None) = Some 46"
    by (simp add: encode_fields_def post_fields_def post_v1_def uints_def field_put_def kind_codec_def plain_def plain_int_def
        plain_string_def absent_def)
  then obtain old links where o: "encode_fields plain plain_z32 post_fields post_v1 [] None = Some (old, links)" "length old = 46" by auto
  have v: "values_fit plain plain_z32 [(''title'', ''string'')] (JObj [(''title'', JStr ''ho'')])"
    by (simp add: values_fit_def value_fits_def is_str_def)
  from edits_keep_newer_fields [OF plain_ok plain_z32_ok, of "[(''title'', ''string'')]" "[(''likes'', ''uint'')]" post_v1, unfolded p,
      OF post_fits(1) v _ o(1)] o show ?thesis
    by (auto simp: MAX_RECORD_def post_fields_def)
qed

end
