(* ===== verification/Record_Types.thy ===== *)
theory Record_Types
  imports Record_Fields
begin

text \<open>
  The app's record types (lib/types.js): declarations checked and turned into types (\<open>declare_type\<close>),
  values checked against them (\<open>checkValue\<close>, \<open>validate\<close>), the stored form of a space's types and what
  may change between versions (\<open>checkCompatible\<close>, \<open>conflict\<close>, \<open>over\<close>, \<open>stale\<close>). A declaration is a
  value of the app's, an object written as a list of its entries in their order; names are looked up
  among an object's own. Stored types are records, a part that older snapshots lack is \<open>None\<close>.
\<close>

section \<open>Types\<close>

datatype rule = ByAuthor | ByMembers | ByPermission string

record rtype =
  t_name :: string
  t_fields :: "field list"
  t_links :: "(string \<times> string list) list"
  t_onePerMember :: bool
  t_target :: "string option"
  t_editable :: rule
  t_put :: rule
  t_index :: "string list list"

type_synonym types = "(string \<times> rtype) list"

definition RESERVED :: "string list" where
  "RESERVED = [''id'', ''type'', ''author'', ''device'', ''stamp'', ''edited'', ''futureStamp'']"

definition is_hg :: "string \<Rightarrow> bool" where
  "is_hg name \<longleftrightarrow> take 3 name = ''hg/''"

fun js_entries :: "jsval \<Rightarrow> (string \<times> jsval) list" where
  "js_entries (JObj ps) = ps"
| "js_entries v = []"

fun is_object :: "jsval \<Rightarrow> bool" where
  "is_object (JObj ps) = True"
| "is_object v = False"

fun text_of :: "jsval \<Rightarrow> string option" where
  "text_of (JStr s) = Some s"
| "text_of v = None"

fun all_some :: "'a option list \<Rightarrow> 'a list option" where
  "all_some [] = Some []"
| "all_some (None # xs) = None"
| "all_some (Some x # xs) = map_option ((#) x) (all_some xs)"

definition declare_field :: "string \<times> jsval \<Rightarrow> field option" where
  "declare_field e = (case e of (name, kind) \<Rightarrow>
     if name \<in> set RESERVED then None
     else (case kind of JStr k \<Rightarrow> if k \<in> set FIELD_KINDS then Some (name, k) else None | _ \<Rightarrow> None))"

definition declare_link :: "field list \<Rightarrow> jsval \<Rightarrow> string \<times> jsval \<Rightarrow> (string \<times> string list) option" where
  "declare_link fs all e = (case e of (name, targets) \<Rightarrow>
     if map_of fs name \<noteq> Some ''link'' then None
     else (case targets of
         JArr ts \<Rightarrow> do {
           names \<leftarrow> all_some (map text_of ts);
           if list_all (\<lambda>t. js_truthy (prop_of all t)) names then Some (name, names) else None }
       | _ \<Rightarrow> None))"

definition declare_editable :: "jsval \<Rightarrow> rule option" where
  "declare_editable d =
     (let e = (if d = JUndef then JStr ''author'' else d)
      in if e = JStr ''author'' then Some ByAuthor
         else if e = JStr ''members'' then Some ByMembers
         else if is_object e then (case prop_of e ''permission'' of JStr p \<Rightarrow> if p \<noteq> [] then Some (ByPermission p) else None | _ \<Rightarrow> None)
         else None)"

definition declare_put :: "jsval \<Rightarrow> rule option" where
  "declare_put d =
     (if d = JUndef \<or> d = JStr ''members'' then Some ByMembers
      else if is_object d then (case prop_of d ''permission'' of JStr p \<Rightarrow> if p \<noteq> [] then Some (ByPermission p) else None | _ \<Rightarrow> None)
      else None)"

definition declare_index :: "field list \<Rightarrow> jsval \<Rightarrow> string list option" where
  "declare_index fs keys = (case keys of
       JArr ks \<Rightarrow> do {
         names \<leftarrow> all_some (map text_of ks);
         if names = [] \<or> \<not> list_all (\<lambda>k. k = ''stamp'' \<or> k \<in> set (map fst fs)) names then None
         else Some (filter (\<lambda>k. k \<noteq> ''stamp'') names) }
     | _ \<Rightarrow> None)"

definition first_link :: "field list \<Rightarrow> string option" where
  "first_link fs = map_option fst (find (\<lambda>(name, kind). kind = ''link'') fs)"

text \<open>\<open>None\<close>: the declaration is refused (INVALID\_TYPE).\<close>

definition declare_type :: "string \<Rightarrow> jsval \<Rightarrow> jsval \<Rightarrow> bool \<Rightarrow> rtype option" where
  "declare_type name d all builtin =
     (if is_hg name \<and> \<not> builtin then None
      else if \<not> is_object d \<or> \<not> is_object (prop_of d ''fields'') then None
      else do {
        fs \<leftarrow> all_some (map declare_field (js_entries (prop_of d ''fields'')));
        links \<leftarrow> all_some (map (declare_link fs all) (js_entries (js_or (prop_of d ''links'') (JObj []))));
        editable \<leftarrow> declare_editable (prop_of d ''editable'');
        put \<leftarrow> declare_put (prop_of d ''put'');
        index \<leftarrow> (case js_or (prop_of d ''index'') (JArr []) of JArr ks \<Rightarrow> all_some (map (declare_index fs) ks) | _ \<Rightarrow> None);
        Some \<lparr>t_name = name, t_fields = fs, t_links = links, t_onePerMember = js_truthy (prop_of d ''onePerMember''),
              t_target = (if js_truthy (prop_of d ''onePerMember'') then first_link fs else None),
              t_editable = editable, t_put = put, t_index = index\<rparr> })"

definition strs :: "string list \<Rightarrow> jsval" where
  "strs ss = JArr (map JStr ss)"

definition builtin :: "(string \<times> string) list \<Rightarrow> string list list \<Rightarrow> jsval" where
  "builtin fs ix = JObj ((''fields'', JObj (map (\<lambda>(n, k). (n, JStr k)) fs)) # (if ix = [] then [] else [(''index'', JArr (map strs ix))]))"

definition BUILTIN :: "(string \<times> jsval) list" where
  "BUILTIN = [
     (''hg/device'', builtin [(''key'', ''bytes''), (''name'', ''string'')] []),
     (''hg/space'', builtin [(''space'', ''space''), (''name'', ''string''), (''root'', ''space'')] []),
     (''hg/setting'', builtin [(''name'', ''string''), (''value'', ''text'')] [[''name'', ''stamp'']]),
     (''hg/heads'', builtin [(''heads'', ''bytes'')] []),
     (''hg/device-remove'', builtin [(''removed'', ''bytes''), (''cut'', ''bytes''), (''proof'', ''bytes'')] []),
     (''hg/relation'', builtin [(''from'', ''link''), (''to'', ''link''), (''rel'', ''string''), (''value'', ''float''), (''data'', ''text''), (''off'', ''bool'')] []),
     (''hg/tag'', builtin [(''on'', ''link''), (''tag'', ''string''), (''off'', ''bool'')] []),
     (''hg/grant'', builtin [(''to'', ''string''), (''epoch'', ''uint''), (''commit'', ''bytes''), (''sealed'', ''bytes'')] [[''to'']]),
     (''hg/report'', builtin [(''boxes'', ''bytes'')] []),
     (''hg/key-link'', builtin [(''from'', ''bytes''), (''to'', ''bytes''), (''epoch'', ''uint''), (''sealed'', ''bytes'')] [])]"

definition GRAPH :: "string list" where "GRAPH = [''hg/relation'', ''hg/tag'']"
definition PERSONAL :: "string list" where "PERSONAL = [''hg/device'', ''hg/space'', ''hg/setting'', ''hg/heads'']"

definition declare_all :: "(string \<times> jsval) list \<Rightarrow> bool \<Rightarrow> types option" where
  "declare_all ds b = all_some (map (\<lambda>(n, d). map_option (Pair n) (declare_type n d (JObj ds) b)) ds)"

definition new_types :: "(string \<times> jsval) list \<Rightarrow> types option" where
  "new_types ds = do { ts \<leftarrow> declare_all ds False; bs \<leftarrow> declare_all BUILTIN True; Some (ts @ bs) }"

definition linkAllowed :: "rtype \<Rightarrow> string \<Rightarrow> string \<Rightarrow> bool" where
  "linkAllowed t name target = (case map_of (t_links t) name of None \<Rightarrow> True | Some ts \<Rightarrow> target \<in> set ts)"

section \<open>Values\<close>

definition safe_int :: "int \<Rightarrow> bool" where
  "safe_int n \<longleftrightarrow> - (2 ^ 53) < n \<and> n < 2 ^ 53"

text \<open>\<open>None\<close>: the value is refused (INVALID\_RECORD); else the value as it is kept.\<close>

definition checkValue :: "prims \<Rightarrow> z32 \<Rightarrow> string \<Rightarrow> jsval \<Rightarrow> jsval option" where
  "checkValue P Z kind v =
     (if kind = ''string'' \<or> kind = ''text'' then (case v of JStr s \<Rightarrow> Some v | _ \<Rightarrow> None)
      else if kind = ''int'' then (case v of JNum n \<Rightarrow> if safe_int n then Some v else None | _ \<Rightarrow> None)
      else if kind = ''uint'' then (case v of JNum n \<Rightarrow> if safe_int n \<and> n \<ge> 0 then Some v else None | _ \<Rightarrow> None)
      else if kind = ''float'' then (case v of JNum n \<Rightarrow> Some v | JReal w \<Rightarrow> Some v | _ \<Rightarrow> None)
      else if kind = ''bool'' then (case v of JBool b \<Rightarrow> Some v | _ \<Rightarrow> None)
      else if kind = ''bytes'' then (case v of JBuf b \<Rightarrow> Some v | _ \<Rightarrow> None)
      else if kind = ''ref'' then
        (if \<not> is_object v then None
         else (case prop_of v ''src'' of
             JArr ss \<Rightarrow>
               if list_all (\<lambda>s. case s of JStr t \<Rightarrow> True | _ \<Rightarrow> False) ss \<and>
                  (case prop_of v ''size'' of JUndef \<Rightarrow> True | JNum n \<Rightarrow> safe_int n \<and> n \<ge> 0 | _ \<Rightarrow> False)
               then Some (JObj [(''src'', JArr ss), (''size'', js_or (prop_of v ''size'') (JNum 0)), (''type'', js_or (prop_of v ''type'') (JStr [])),
                      (''digest'', js_or (prop_of v ''digest'') (JStr [])), (''mutable'', JBool (js_truthy (prop_of v ''mutable'')))])
               else None
           | _ \<Rightarrow> None))
      else if kind = ''link'' then
        (case (case v of JStr s \<Rightarrow> JStr s | _ \<Rightarrow> prop_of v ''id'') of
           JStr s \<Rightarrow> if s = [] then None else
             (case idFromString P Z s of Inl e \<Rightarrow> None | Inr b \<Rightarrow> Some (JStr (z_encode Z b)))
         | _ \<Rightarrow> None)
      else if kind = ''space'' then
        (case (case v of JStr s \<Rightarrow> JStr s | _ \<Rightarrow> js_or (prop_of v ''key'') JNull) of
           JStr s \<Rightarrow> (case z_decode Z s of Some b \<Rightarrow> if length b = 32 then Some (JStr (z_encode Z b)) else None | None \<Rightarrow> None)
         | JBuf b \<Rightarrow> if length b = 32 then Some (JStr (z_encode Z b)) else None
         | _ \<Rightarrow> None)
      else None)"

definition check_entry :: "prims \<Rightarrow> z32 \<Rightarrow> rtype \<Rightarrow> string \<times> jsval \<Rightarrow> (string \<times> jsval) list option" where
  "check_entry P Z t e = (case e of (name, v) \<Rightarrow>
     if v = JUndef then Some []
     else (case map_of (t_fields t) name of
         None \<Rightarrow> None
       | Some kind \<Rightarrow> if v = JNull then Some [] else map_option (\<lambda>w. [(name, w)]) (checkValue P Z kind v)))"

text \<open>\<open>Object.entries\<close> of whatever is an object: arrays and buffers by their indices.\<close>

fun own_entries :: "jsval \<Rightarrow> (string \<times> jsval) list option" where
  "own_entries (JObj ps) = Some ps"
| "own_entries (JArr vs) = Some (zip (map decimal [0..<length vs]) vs)"
| "own_entries (JBuf bs) = Some (zip (map decimal [0..<length bs]) (map (\<lambda>b. JNum (uint b)) bs))"
| "own_entries v = None"

definition validate :: "prims \<Rightarrow> z32 \<Rightarrow> types \<Rightarrow> string \<Rightarrow> jsval \<Rightarrow> hg_error + jsval" where
  "validate P Z T name values =
     (case map_of T name of
        None \<Rightarrow> Inl INVALID_TYPE
      | Some t \<Rightarrow>
          (case own_entries values of
             None \<Rightarrow> Inl INVALID_RECORD
           | Some vs \<Rightarrow>
               (case all_some (map (check_entry P Z t) vs) of
                  None \<Rightarrow> Inl INVALID_RECORD
                | Some es \<Rightarrow> Inr (JObj (concat es)))))"

section \<open>Stored types\<close>

record stored =
  st_fields :: "field list"
  st_links :: "(string \<times> string list) list"
  st_onePerMember :: bool
  st_editable :: "rule option"
  st_put :: "rule option"
  st_index :: "string list list option"

type_synonym stored_types = "(string \<times> stored) list"

definition stored_of :: "rtype \<Rightarrow> stored" where
  "stored_of t = \<lparr>st_fields = t_fields t, st_links = t_links t, st_onePerMember = t_onePerMember t, st_editable = Some (t_editable t),
     st_put = Some (t_put t), st_index = Some (t_index t)\<rparr>"

definition is_builtin :: "string \<Rightarrow> bool" where
  "is_builtin name \<longleftrightarrow> name \<in> set (map fst BUILTIN)"

definition describe :: "types \<Rightarrow> stored_types" where
  "describe T = map (\<lambda>(n, t). (n, stored_of t)) (filter (\<lambda>(n, t). \<not> is_builtin n) T)"

definition links_of :: "(string \<times> string list) list \<Rightarrow> string \<Rightarrow> string list option" where
  "links_of ls name = map_of ls name"

fun fields_compatible :: "stored \<Rightarrow> rtype \<Rightarrow> field list \<Rightarrow> nat \<Rightarrow> bool" where
  "fields_compatible old now [] i = True"
| "fields_compatible old now ((name, kind) # fs) i =
     (i < length (t_fields now) \<and> fst (t_fields now ! i) = name \<and> snd (t_fields now ! i) = kind \<and>
      (kind = ''link'' \<longrightarrow> links_of (st_links old) name = links_of (t_links now) name) \<and>
      fields_compatible old now fs (Suc i))"

definition type_compatible :: "stored \<Rightarrow> rtype \<Rightarrow> bool" where
  "type_compatible old now \<longleftrightarrow> fields_compatible old now (st_fields old) 0 \<and> st_onePerMember old = t_onePerMember now \<and>
     \<not> (t_onePerMember now \<and> t_target now \<noteq> None \<and> \<not> list_ex (\<lambda>(n, kind). kind = ''link'') (st_fields old)) \<and>
     st_editable old = Some (t_editable now) \<and>
     (case st_put old of None \<Rightarrow> ByMembers | Some r \<Rightarrow> r) = t_put now"

text \<open>False: the code throws INCOMPATIBLE\_TYPES.\<close>

definition checkCompatible :: "types \<Rightarrow> stored_types \<Rightarrow> bool" where
  "checkCompatible T olds \<longleftrightarrow> list_all (\<lambda>(n, old). case map_of T n of None \<Rightarrow> False | Some now \<Rightarrow> type_compatible old now) olds"

definition conflict :: "types \<Rightarrow> stored_types \<Rightarrow> bool" where
  "conflict T olds \<longleftrightarrow> \<not> checkCompatible T
     (concat (map (\<lambda>(n, old). case map_of T n of None \<Rightarrow> []
        | Some now \<Rightarrow> if is_builtin n then [] else [(n, old\<lparr>st_fields := take (length (t_fields now)) (st_fields old)\<rparr>)]) olds))"

definition over :: "types \<Rightarrow> stored_types \<Rightarrow> stored_types" where
  "over T olds = fold (\<lambda>(n, t) out.
     case map_of out n of
       None \<Rightarrow> out @ [(n, t)]
     | Some o1 \<Rightarrow> if length (st_fields t) \<ge> length (st_fields o1) then map (\<lambda>(m, x). (m, if m = n then t else x)) out else out)
     (describe T) olds"

definition stale :: "types \<Rightarrow> stored_types \<Rightarrow> string list" where
  "stale T olds = concat (map (\<lambda>(n, now).
     if is_builtin n then []
     else (case map_of olds n of
         None \<Rightarrow> [n]
       | Some old \<Rightarrow> (case st_index old of None \<Rightarrow> [] | Some ix \<Rightarrow> if ix \<noteq> t_index now then [n] else []))) T)"

fun rule_decl :: "rule \<Rightarrow> jsval" where
  "rule_decl ByAuthor = JStr ''author''"
| "rule_decl ByMembers = JStr ''members''"
| "rule_decl (ByPermission p) = JObj [(''permission'', JStr p)]"

definition declaration_of :: "stored \<Rightarrow> jsval" where
  "declaration_of s = JObj [
     (''fields'', JObj (map (\<lambda>(n, k). (n, JStr k)) (st_fields s))),
     (''links'', JObj (map (\<lambda>(n, ts). (n, strs ts)) (st_links s))),
     (''onePerMember'', JBool (st_onePerMember s)),
     (''editable'', rule_decl (case st_editable s of None \<Rightarrow> ByAuthor | Some r \<Rightarrow> r)),
     (''put'', rule_decl (case st_put s of None \<Rightarrow> ByMembers | Some r \<Rightarrow> r)),
     (''index'', JArr (map strs (case st_index s of None \<Rightarrow> [] | Some ix \<Rightarrow> ix)))]"

definition declarationsOf :: "stored_types \<Rightarrow> (string \<times> jsval) list" where
  "declarationsOf olds = map (\<lambda>(n, s). (n, declaration_of s)) olds"

definition types_from :: "stored_types \<Rightarrow> types option" where
  "types_from olds = new_types (declarationsOf olds)"

text \<open>\<open>{ ...a, ...b }\<close>: the keys of \<open>a\<close> keep their place, with \<open>b\<close>'s value where it has one.\<close>

definition spread :: "(string \<times> 'a) list \<Rightarrow> (string \<times> 'a) list \<Rightarrow> (string \<times> 'a) list" where
  "spread a b = map (\<lambda>(n, x). (n, case map_of b n of Some y \<Rightarrow> y | None \<Rightarrow> x)) a @ filter (\<lambda>(n, y). n \<notin> set (map fst a)) b"

definition types_adding :: "stored_types \<Rightarrow> (string \<times> jsval) list \<Rightarrow> types option" where
  "types_adding olds ds = new_types (spread (declarationsOf olds) ds)"

section \<open>Checked values fit their fields\<close>

text \<open>Values of a size JavaScript has: texts and lists below \<open>2 ^ 32\<close>, integers that are exact.\<close>

fun js_small :: "jsval \<Rightarrow> bool" where
  "js_small (JNum n) = safe_int n"
| "js_small (JStr s) = (length s < 2 ^ 32)"
| "js_small (JArr vs) = (length vs < 2 ^ 32 \<and> list_all js_small vs)"
| "js_small (JObj ps) = list_all (\<lambda>(n, v). js_small v) ps"
| "js_small v = True"

text \<open>The type and digest of a reference are texts or left out, which \<open>checkValue\<close> does not look at.\<close>

definition ref_texts :: "jsval \<Rightarrow> bool" where
  "ref_texts v \<longleftrightarrow> list_all (\<lambda>n. case prop_of v n of JStr s \<Rightarrow> True | w \<Rightarrow> \<not> js_truthy w) [''type'', ''digest'']"

lemma all_some_map: "all_some xs = Some ys \<longleftrightarrow> xs = map Some ys"
proof (induction xs arbitrary: ys rule: all_some.induct)
  case 1
  then show ?case by auto
next
  case (2 xs)
  then show ?case by (cases ys) auto
next
  case (3 x xs)
  then show ?case by (cases ys) auto
qed

lemma js_small_prop: "js_small v \<Longrightarrow> js_small (prop_of v n)"
  by (cases v) (auto simp: list_all_iff split: option.split dest!: map_of_SomeD)

lemma or_str: "js_small w \<Longrightarrow> is_str (js_or w (JStr [])) \<longleftrightarrow> (case w of JStr s \<Rightarrow> True | x \<Rightarrow> \<not> js_truthy x)"
  by (cases w) (auto simp: js_or_def is_str_def)

lemma js_or_texts: "(case js_or w (JStr []) of JStr s \<Rightarrow> True | x \<Rightarrow> \<not> js_truthy x) \<longleftrightarrow> (case w of JStr s \<Rightarrow> True | x \<Rightarrow> \<not> js_truthy x)"
  by (cases w) (auto simp: js_or_def)

lemma or_size: "(case w of JUndef \<Rightarrow> True | JNum n \<Rightarrow> safe_int n \<and> n \<ge> 0 | _ \<Rightarrow> False) \<Longrightarrow> is_uint (js_or w (JNum 0))"
  by (cases w) (auto simp: js_or_def is_uint_def safe_int_def)

lemma ref_value_fits:
  assumes "is_arr is_str (JArr ss)" "is_uint w"
  shows "is_struct ref_fields (JObj [(''src'', JArr ss), (''size'', w), (''type'', t), (''digest'', d), (''mutable'', JBool b)]) \<longleftrightarrow>
    is_str t \<and> is_str d"
  using assms by (simp add: is_struct_def ref_fields_def fields_fit_def is_bool_def)

text \<open>A value that is accepted fits its field, but for a reference whose type or digest is no text.\<close>

lemma checkValue_fits:
  assumes "checkValue P Z kind v = Some w" "js_small v"
  shows "(value_fits P Z kind w \<longleftrightarrow> (kind = ''ref'' \<longrightarrow> ref_texts w)) \<and> \<not> absent w"
proof -
  consider (txt1) "kind = ''string'' \<or> kind = ''text''" | (num) "kind \<in> {''int'', ''uint'', ''float''}" | (bool) "kind = ''bool''"
    | (bytes) "kind = ''bytes''" | (ref) "kind = ''ref''" | (link) "kind = ''link''" | (space) "kind = ''space''"
    using assms(1) unfolding checkValue_def by (auto split: if_splits)
  then show ?thesis
  proof cases
    case txt1
    then have "checkValue P Z kind v = (case v of JStr s \<Rightarrow> Some v | _ \<Rightarrow> None)" "value_fits P Z kind w = is_str w" "kind \<noteq> ''ref''"
      by (auto simp: checkValue_def value_fits_def)
    with assms(1,2) show ?thesis by (cases v) (auto simp: is_str_def absent_def)
  next
    case num
    with assms(1,2) show ?thesis
      by (cases v) (auto simp: checkValue_def value_fits_def is_int_def is_uint_def is_float_def safe_int_def absent_def split: if_splits)
  next
    case bool
    with assms(1) show ?thesis by (cases v) (auto simp: checkValue_def value_fits_def is_bool_def absent_def)
  next
    case bytes
    with assms(1) show ?thesis by (cases v) (auto simp: checkValue_def value_fits_def absent_def)
  next
    case ref
    with assms(1) obtain ss where ss: "prop_of v ''src'' = JArr ss" "list_all (\<lambda>s. case s of JStr t \<Rightarrow> True | _ \<Rightarrow> False) ss"
      "case prop_of v ''size'' of JUndef \<Rightarrow> True | JNum n \<Rightarrow> safe_int n \<and> n \<ge> 0 | _ \<Rightarrow> False"
      and w: "w = JObj [(''src'', JArr ss), (''size'', js_or (prop_of v ''size'') (JNum 0)), (''type'', js_or (prop_of v ''type'') (JStr [])),
                      (''digest'', js_or (prop_of v ''digest'') (JStr [])), (''mutable'', JBool (js_truthy (prop_of v ''mutable'')))]"
      by (auto simp: checkValue_def split: if_splits jsval.splits)
    have "js_small (JArr ss)" using js_small_prop [OF assms(2), of "''src''"] by (simp add: ss(1))
    with ss(2) have "is_arr is_str (JArr ss)"
      by (auto simp: is_arr_def is_str_def list_all_iff split: jsval.splits dest!: bspec)
    moreover have "ref_texts w \<longleftrightarrow> is_str (js_or (prop_of v ''type'') (JStr [])) \<and> is_str (js_or (prop_of v ''digest'') (JStr []))"
      using or_str [OF js_small_prop [OF assms(2), of "''type''"]] or_str [OF js_small_prop [OF assms(2), of "''digest''"]] js_or_texts
      by (simp add: ref_texts_def w)
    ultimately have "is_struct ref_fields w \<longleftrightarrow> ref_texts w" unfolding w using ref_value_fits or_size [OF ss(3)] by blast
    with ref w show ?thesis by (simp add: value_fits_def absent_def)
  next
    case link
    with assms(1) obtain s b where "idFromString P Z s = Inr b" "w = JStr (z_encode Z b)"
      by (auto simp: checkValue_def split: if_splits jsval.splits sum.splits)
    with link show ?thesis by (auto simp: value_fits_def idFromString_def absent_def split: option.splits if_splits)
  next
    case space
    with assms(1) obtain b where "length b = 32" "w = JStr (z_encode Z b)"
      by (auto simp: checkValue_def split: if_splits jsval.splits option.splits)
    with space show ?thesis by (auto simp: value_fits_def absent_def)
  qed
qed

lemma checkValue_again:
  assumes "z_ok Z" "checkValue P Z kind v = Some w"
  shows "checkValue P Z kind w = Some w"
proof -
  have z: "z_decode Z (z_encode Z b) = Some b" for b using assms(1) by (simp add: z_ok_def)
  consider (plain) "kind \<noteq> ''ref''" "kind \<noteq> ''link''" "kind \<noteq> ''space''" | (ref) "kind = ''ref''" | (link) "kind = ''link''" | (space) "kind = ''space''" by blast
  then show ?thesis
  proof cases
    case plain
    with assms(2) have "w = v" by (auto simp: checkValue_def split: if_splits jsval.splits)
    with assms(2) show ?thesis by simp
  next
    case ref
    with assms(2) obtain ss where ss: "prop_of v ''src'' = JArr ss" "list_all (\<lambda>s. case s of JStr t \<Rightarrow> True | _ \<Rightarrow> False) ss"
      "case prop_of v ''size'' of JUndef \<Rightarrow> True | JNum n \<Rightarrow> safe_int n \<and> n \<ge> 0 | _ \<Rightarrow> False"
      and w: "w = JObj [(''src'', JArr ss), (''size'', js_or (prop_of v ''size'') (JNum 0)), (''type'', js_or (prop_of v ''type'') (JStr [])),
                      (''digest'', js_or (prop_of v ''digest'') (JStr [])), (''mutable'', JBool (js_truthy (prop_of v ''mutable'')))]"
      by (auto simp: checkValue_def split: if_splits jsval.splits)
    have "js_or (js_or x d) d = js_or x d" for x d by (auto simp: js_or_def)
    moreover have "case js_or (prop_of v ''size'') (JNum 0) of JUndef \<Rightarrow> True | JNum n \<Rightarrow> safe_int n \<and> n \<ge> 0 | _ \<Rightarrow> False"
      using ss(3) by (auto simp: js_or_def safe_int_def split: jsval.splits)
    ultimately show ?thesis using ref ss(2) by (simp add: checkValue_def w)
  next
    case link
    with assms(2) obtain s b where b: "idFromString P Z s = Inr b" "w = JStr (z_encode Z b)"
      by (auto simp: checkValue_def split: if_splits jsval.splits sum.splits)
    then have "33 \<le> length b" "decode (recordId P) b \<noteq> None" by (auto simp: idFromString_def split: option.splits if_splits)
    then have "idFromString P Z (z_encode Z b) = Inr b" by (simp add: idFromString_def z)
    moreover have "z_encode Z b \<noteq> []"
      using \<open>33 \<le> length b\<close> assms(1) z [of b] z [of "[]"] unfolding z_ok_def
      by (metis list.size(3) not_numeral_le_zero option.inject)
    ultimately show ?thesis using link by (simp add: checkValue_def b(2))
  next
    case space
    with assms(2) obtain b where "length b = 32" "w = JStr (z_encode Z b)"
      by (auto simp: checkValue_def split: if_splits jsval.splits option.splits)
    with space show ?thesis by (simp add: checkValue_def z)
  qed
qed

text \<open>The entries \<open>validate\<close> keeps: each from an entry it was given, under a declared name, no name twice; checked
  again they are kept as they are.\<close>

lemma checked_from:
  assumes "map (check_entry P Z t) vs = map Some es" "(n, w) \<in> set (concat es)"
  shows "\<exists>w0 kind. (n, w0) \<in> set vs \<and> map_of (t_fields t) n = Some kind \<and> checkValue P Z kind w0 = Some w"
proof -
  from assms(2) obtain e where e: "e \<in> set es" "(n, w) \<in> set e" by auto
  then have "Some e \<in> set (map (check_entry P Z t) vs)" unfolding assms(1) by simp
  then obtain m w0 where m: "(m, w0) \<in> set vs" "check_entry P Z t (m, w0) = Some e" by auto
  with e(2) show ?thesis by (auto simp: check_entry_def split: if_splits option.splits)
qed

lemma checked_distinct:
  assumes "map (check_entry P Z t) vs = map Some es" "distinct (map fst vs)"
  shows "distinct (map fst (concat es)) \<and> set (map fst (concat es)) \<subseteq> set (map fst vs)"
  using assms
proof (induction vs arbitrary: es)
  case (Cons x vs)
  then obtain e es' where e: "es = e # es'" "check_entry P Z t x = Some e" "map (check_entry P Z t) vs = map Some es'"
    by (cases es) auto
  have "e = [] \<or> (\<exists>w. e = [(fst x, w)])" using e(2) by (cases x) (auto simp: check_entry_def split: if_splits option.splits)
  then have split: "map fst (concat es) = map fst (concat es') \<or> map fst (concat es) = fst x # map fst (concat es')"
    by (auto simp: e(1))
  have IH: "distinct (map fst (concat es'))" "set (map fst (concat es')) \<subseteq> set (map fst vs)"
    using Cons.IH [OF e(3)] Cons.prems(2) by simp_all
  from IH(2) Cons.prems(2) have "fst x \<notin> set (map fst (concat es'))" by auto
  then have sub: "set (fst x # map fst (concat es')) \<subseteq> set (map fst (x # vs))" "distinct (fst x # map fst (concat es'))"
    using IH unfolding list.map distinct.simps list.set by blast+
  from split show ?case
  proof
    assume s: "map fst (concat es) = map fst (concat es')"
    show ?thesis unfolding s using IH unfolding list.map list.set by blast
  next
    assume s: "map fst (concat es) = fst x # map fst (concat es')"
    show ?thesis unfolding s using sub by blast
  qed
qed simp

lemma checked_again:
  assumes "\<And>n w. (n, w) \<in> set xs \<Longrightarrow> (\<exists>kind. map_of (t_fields t) n = Some kind \<and> checkValue P Z kind w = Some w) \<and> \<not> absent w"
  shows "all_some (map (check_entry P Z t) xs) = Some (map (\<lambda>e. [e]) xs)"
proof -
  have "check_entry P Z t e = Some [e]" if "e \<in> set xs" for e
    using assms [of "fst e" "snd e"] that by (cases e) (auto simp: check_entry_def absent_def)
  then have "map (check_entry P Z t) xs = map Some (map (\<lambda>e. [e]) xs)" by simp
  then show ?thesis by (simp only: all_some_map)
qed

lemma entries_fit:
  assumes "distinct (map fst fs)" "distinct (map fst xs)"
    and "\<And>n w. (n, w) \<in> set xs \<Longrightarrow> \<exists>kind. map_of fs n = Some kind \<and> value_fits P Z kind w"
  shows "values_fit P Z fs (JObj xs)"
  unfolding values_fit_def list_all_iff
proof (intro ballI, clarify)
  fix n k assume f: "(n, k) \<in> set fs" "\<not> value_fits P Z k (prop_of (JObj xs) n)"
  show "absent (prop_of (JObj xs) n)"
  proof (cases "map_of xs n")
    case (Some w)
    from assms(3) [OF map_of_SomeD [OF Some]] f(1) assms(1) have "value_fits P Z k w" by (auto simp: map_of_is_SomeI)
    with f(2) Some show ?thesis by simp
  qed (simp add: absent_def)
qed

lemma fits_entries:
  assumes "distinct (map fst fs)" "distinct (map fst xs)" "values_fit P Z fs (JObj xs)" "(n, w) \<in> set xs" "map_of fs n = Some kind" "\<not> absent w"
  shows "value_fits P Z kind w"
proof -
  have "prop_of (JObj xs) n = w" using assms(2,4) by (simp add: map_of_is_SomeI)
  moreover have "(n, kind) \<in> set fs" using assms(5) by (rule map_of_SomeD)
  ultimately show ?thesis using assms(3,6) unfolding values_fit_def list_all_iff by fastforce
qed

text \<open>C33: What \<open>validate\<close> accepts for a type are values for declared fields only, null and undefined left out, which
  validating again does not change; and they are of the kinds the fields declare, which encoding needs, but for the
  one part of a value the check leaves unlooked at: a reference may have a type or digest that is no text, and then,
  and only then, its record does not fit. (Taken for granted of the values given: sizes JavaScript has.)\<close>

theorem validated_values_fit:
  assumes "z_ok Z" "map_of T name = Some t" "own_entries given = Some vs" "validate P Z T name given = Inr v" "distinct (map fst vs)"
    "distinct (map fst (t_fields t))" "\<forall>(n, w)\<in>set vs. js_small w"
  shows "set (map fst (js_entries v)) \<subseteq> set (map fst (t_fields t)) \<and>
    list_all (\<lambda>(n, w). \<not> absent w) (js_entries v) \<and> validate P Z T name v = Inr v \<and>
    (values_fit P Z (t_fields t) v \<longleftrightarrow> list_all (\<lambda>(n, w). map_of (t_fields t) n = Some ''ref'' \<longrightarrow> ref_texts w) (js_entries v)) \<and>
    list_all (\<lambda>(n, w). \<exists>kind. map_of (t_fields t) n = Some kind \<and> (kind \<noteq> ''ref'' \<or> ref_texts w \<longrightarrow> value_fits P Z kind w)) (js_entries v)"
proof -
  from assms(2-4) obtain es where es: "all_some (map (check_entry P Z t) vs) = Some es" "v = JObj (concat es)"
    by (auto simp: validate_def split: option.splits)
  then have each: "map (check_entry P Z t) vs = map Some es" by (simp add: all_some_map)
  note d = checked_distinct [OF each assms(5)]
  have fits: "(\<exists>kind. map_of (t_fields t) n = Some kind \<and> (value_fits P Z kind w \<longleftrightarrow> (kind = ''ref'' \<longrightarrow> ref_texts w)) \<and>
      checkValue P Z kind w = Some w) \<and> \<not> absent w" if "(n, w) \<in> set (concat es)" for n w
  proof -
    from checked_from [OF each that] obtain w0 kind where k: "(n, w0) \<in> set vs" "map_of (t_fields t) n = Some kind"
      "checkValue P Z kind w0 = Some w" by blast
    with assms(7) have "js_small w0" by auto
    with checkValue_fits [OF k(3)] checkValue_again [OF assms(1) k(3)] k(2) show ?thesis by blast
  qed
  have kinds: "list_all (\<lambda>(n, w). \<exists>kind. map_of (t_fields t) n = Some kind \<and> (kind \<noteq> ''ref'' \<or> ref_texts w \<longrightarrow> value_fits P Z kind w)) (concat es)"
    using fits unfolding list_all_iff by blast
  have "values_fit P Z (t_fields t) v \<longleftrightarrow> (\<forall>(n, w)\<in>set (concat es). map_of (t_fields t) n = Some ''ref'' \<longrightarrow> ref_texts w)"
  proof
    assume v: "values_fit P Z (t_fields t) v"
    show "\<forall>(n, w)\<in>set (concat es). map_of (t_fields t) n = Some ''ref'' \<longrightarrow> ref_texts w"
    proof (clarify)
      fix n w assume nw: "(n, w) \<in> set (concat es)" "map_of (t_fields t) n = Some ''ref''"
      from fits_entries [OF assms(6) conjunct1 [OF d] v [unfolded es(2)] nw] fits [OF nw(1)] nw(2) show "ref_texts w" by simp
    qed
  next
    assume "\<forall>(n, w)\<in>set (concat es). map_of (t_fields t) n = Some ''ref'' \<longrightarrow> ref_texts w"
    then have "\<exists>kind. map_of (t_fields t) n = Some kind \<and> value_fits P Z kind w" if "(n, w) \<in> set (concat es)" for n w
      using fits [OF that] that by blast
    then show "values_fit P Z (t_fields t) v" unfolding es(2) using assms(6) d by (intro entries_fit) blast+
  qed
  moreover have "set (map fst (js_entries v)) \<subseteq> set (map fst (t_fields t))"
  proof
    fix n assume "n \<in> set (map fst (js_entries v))"
    then obtain w where "(n, w) \<in> set (concat es)" unfolding es(2) js_entries.simps by force
    with fits have "map_of (t_fields t) n \<noteq> None" by blast
    then show "n \<in> set (map fst (t_fields t))" by (simp add: map_of_eq_None_iff)
  qed
  moreover have "list_all (\<lambda>(n, w). \<not> absent w) (js_entries v)" using fits by (auto simp: es(2) list_all_iff)
  moreover have "all_some (map (check_entry P Z t) (concat es)) = Some (map (\<lambda>e. [e]) (concat es))"
    using fits by (intro checked_again) blast
  then have "validate P Z T name v = Inr v" using assms(2) by (simp add: validate_def es(2) concat_map_singleton)
  ultimately show ?thesis using kinds by (simp add: es(2) list_all_iff)
qed

section \<open>The stored form\<close>

text \<open>What a declaration that was accepted says of its type.\<close>

definition declared_ok :: "string list \<Rightarrow> rtype \<Rightarrow> bool" where
  "declared_ok names t \<longleftrightarrow>
     list_all (\<lambda>(n, k). n \<notin> set RESERVED \<and> k \<in> set FIELD_KINDS) (t_fields t) \<and>
     list_all (\<lambda>(n, ts). map_of (t_fields t) n = Some ''link'' \<and> set ts \<subseteq> set names) (t_links t) \<and>
     t_target t = (if t_onePerMember t then first_link (t_fields t) else None) \<and>
     t_editable t \<noteq> ByPermission [] \<and> t_put t \<noteq> ByPermission [] \<and> t_put t \<noteq> ByAuthor \<and>
     list_all (\<lambda>ks. ''stamp'' \<notin> set ks \<and> set ks \<subseteq> set (map fst (t_fields t))) (t_index t)"

lemma all_some_Some [simp]: "all_some (map Some xs) = Some xs"
  by (simp only: all_some_map)

lemma all_some_mapD: "all_some (map f xs) = Some ys \<Longrightarrow> length ys = length xs \<and> (\<forall>y\<in>set ys. \<exists>x\<in>set xs. f x = Some y)"
  unfolding all_some_map
proof (induction xs arbitrary: ys)
  case (Cons x xs)
  then obtain y ys' where "ys = y # ys'" "f x = Some y" "map f xs = map Some ys'" by (cases ys) auto
  with Cons.IH [of ys'] show ?case by auto
qed simp

lemma truthy_declared: "js_truthy (prop_of (JObj ds) n) \<Longrightarrow> n \<in> set (map fst ds)"
  by (auto split: option.splits dest!: map_of_SomeD simp: image_iff) force

lemma declare_type_ok:
  assumes "declare_type name d (JObj ds) b = Some t"
  shows "declared_ok (map fst ds) t \<and> t_name t = name \<and> (is_hg name \<longrightarrow> b)"
proof -
  from assms obtain fs links editable put index where d:
    "all_some (map declare_field (js_entries (prop_of d ''fields''))) = Some fs"
    "all_some (map (declare_link fs (JObj ds)) (js_entries (js_or (prop_of d ''links'') (JObj [])))) = Some links"
    "declare_editable (prop_of d ''editable'') = Some editable" "declare_put (prop_of d ''put'') = Some put"
    "(case js_or (prop_of d ''index'') (JArr []) of JArr ks \<Rightarrow> all_some (map (declare_index fs) ks) | _ \<Rightarrow> None) = Some index"
    "t = \<lparr>t_name = name, t_fields = fs, t_links = links, t_onePerMember = js_truthy (prop_of d ''onePerMember''),
              t_target = (if js_truthy (prop_of d ''onePerMember'') then first_link fs else None),
              t_editable = editable, t_put = put, t_index = index\<rparr>" "is_hg name \<longrightarrow> b"
    unfolding declare_type_def by (auto simp: bind_eq_Some_conv split: if_splits)
  have "n \<notin> set RESERVED \<and> k \<in> set FIELD_KINDS" if "(n, k) \<in> set fs" for n k
    using all_some_mapD [OF d(1)] that by (fastforce simp: declare_field_def split: if_splits jsval.splits)
  moreover have "map_of fs n = Some ''link'' \<and> set ts \<subseteq> set (map fst ds)" if "(n, ts) \<in> set links" for n ts
  proof -
    from all_some_mapD [OF d(2)] that obtain e where "declare_link fs (JObj ds) e = Some (n, ts)" by blast
    then have "map_of fs n = Some ''link''" "list_all (\<lambda>t. js_truthy (prop_of (JObj ds) t)) ts"
      by (auto simp: declare_link_def bind_eq_Some_conv split: prod.splits if_splits jsval.splits)
    with truthy_declared show ?thesis by (metis list_all_iff subsetI)
  qed
  moreover have "editable \<noteq> ByPermission []" using d(3)
    by (auto simp: declare_editable_def Let_def split: if_splits jsval.splits)
  moreover have "put \<noteq> ByPermission [] \<and> put \<noteq> ByAuthor" using d(4)
    by (auto simp: declare_put_def split: if_splits jsval.splits)
  moreover have "''stamp'' \<notin> set ks \<and> set ks \<subseteq> set (map fst fs)" if "ks \<in> set index" for ks
  proof -
    from d(5) obtain xs where "all_some (map (declare_index fs) xs) = Some index" by (auto split: jsval.splits)
    from all_some_mapD [OF this] that obtain x where "declare_index fs x = Some ks" by blast
    then show ?thesis by (auto simp: declare_index_def bind_eq_Some_conv list_all_iff split: jsval.splits if_splits)
  qed
  ultimately show ?thesis using d(6,7) unfolding declared_ok_def by (auto simp: list_all_iff) blast+
qed

lemma declare_again:
  assumes "declared_ok names t" "\<not> is_hg n" "t_name t = n" "\<And>m. m \<in> set names \<Longrightarrow> js_truthy (prop_of all m)"
  shows "declare_type n (declaration_of (stored_of t)) all False = (if [] \<in> set (t_index t) then None else Some t)"
proof -
  have fs: "all_some (map (declare_field \<circ> (\<lambda>(n, k). (n, JStr k))) (t_fields t)) = Some (t_fields t)"
    unfolding all_some_map using assms(1) by (auto simp: declared_ok_def declare_field_def list_all_iff)
  have texts: "all_some (map (text_of \<circ> JStr) ts) = Some ts" for ts unfolding all_some_map by simp
  have links: "all_some (map (declare_link (t_fields t) all \<circ> (\<lambda>(n, ts). (n, strs ts))) (t_links t)) = Some (t_links t)"
    unfolding all_some_map map_eq_conv map_map [symmetric]
  proof -
    have l: "map_of (t_fields t) n = Some ''link'' \<and> (\<forall>m\<in>set ts. js_truthy (prop_of all m))" if "(n, ts) \<in> set (t_links t)" for n ts
      using assms(1,4) that by (fastforce simp: declared_ok_def list_all_iff)
    have "declare_link (t_fields t) all (n, strs ts) = Some (n, ts)" if "(n, ts) \<in> set (t_links t)" for n ts
      using l [OF that] texts [of ts] by (simp add: declare_link_def strs_def list_all_iff)
    then show "map (declare_link (t_fields t) all) (map (\<lambda>(n, ts). (n, strs ts)) (t_links t)) = map Some (t_links t)"
      by (auto simp: map_eq_conv)
  qed
  have e: "declare_editable (rule_decl (t_editable t)) = Some (t_editable t)"
    using assms(1) by (cases "t_editable t") (auto simp: declared_ok_def declare_editable_def)
  have p: "declare_put (rule_decl (t_put t)) = Some (t_put t)"
    using assms(1) by (cases "t_put t") (auto simp: declared_ok_def declare_put_def)
  have one: "declare_index (t_fields t) (strs ks) = (if ks = [] then None else Some ks)" if "ks \<in> set (t_index t)" for ks
  proof -
    from that assms(1) have "''stamp'' \<notin> set ks" "set ks \<subseteq> set (map fst (t_fields t))" by (auto simp: declared_ok_def list_all_iff)
    then have "filter (\<lambda>k. k \<noteq> ''stamp'') ks = ks" "list_all (\<lambda>k. k = ''stamp'' \<or> k \<in> set (map fst (t_fields t))) ks"
      by (auto simp: filter_id_conv list_all_iff)
    with texts [of ks] show ?thesis by (simp add: declare_index_def strs_def)
  qed
  have index: "all_some (map (declare_index (t_fields t) \<circ> strs) (t_index t)) = (if [] \<in> set (t_index t) then None else Some (t_index t))"
  proof (cases "[] \<in> set (t_index t)")
    case True
    have "all_some (map (declare_index (t_fields t) \<circ> strs) (t_index t)) \<noteq> Some ys" for ys
    proof
      assume "all_some (map (declare_index (t_fields t) \<circ> strs) (t_index t)) = Some ys"
      then have "map (declare_index (t_fields t) \<circ> strs) (t_index t) = map Some ys" by (simp only: all_some_map)
      moreover have "None \<in> set (map (declare_index (t_fields t) \<circ> strs) (t_index t))" using True one [OF True] by force
      ultimately show False by auto
    qed
    with True show ?thesis by auto
  next
    case False
    with one have m: "map (declare_index (t_fields t) \<circ> strs) (t_index t) = map Some (t_index t)" by auto
    show ?thesis unfolding m all_some_Some using False by simp
  qed
  have nonempty: "js_or (JObj x) y = JObj x" "js_or (JArr z) y = JArr z" for x y z by (simp_all add: js_or_def)
  show ?thesis
    using fs links e p index assms(1-3)
    by (cases t) (auto simp: declare_type_def declaration_of_def stored_of_def nonempty declared_ok_def)
qed

lemma declare_allD:
  assumes "declare_all ds b = Some ts"
  shows "map fst ts = map fst ds" "(n, t) \<in> set ts \<Longrightarrow> declared_ok (map fst ds) t \<and> t_name t = n \<and> (is_hg n \<longrightarrow> b)"
proof -
  have m: "map (\<lambda>(n, d). map_option (Pair n) (declare_type n d (JObj ds) b)) ds = map Some ts"
    using assms by (simp only: declare_all_def all_some_map)
  have "map fst xs = map fst ys" if "map (\<lambda>(n, d). map_option (Pair n) (declare_type n d all b)) ys = map Some xs" for xs ys all
    using that by (induction ys arbitrary: xs) (auto simp: Cons_eq_map_conv)
  from this [OF m] show "map fst ts = map fst ds" .
  assume "(n, t) \<in> set ts"
  then have "Some (n, t) \<in> set (map (\<lambda>(n, d). map_option (Pair n) (declare_type n d (JObj ds) b)) ds)" unfolding m by simp
  then obtain e where e: "e \<in> set ds" "Some (n, t) = (\<lambda>(n, d). map_option (Pair n) (declare_type n d (JObj ds) b)) e" by auto
  obtain a d where "e = (a, d)" by (cases e)
  with e(2) have "declare_type n d (JObj ds) b = Some t" by (cases "declare_type a d (JObj ds) b") auto
  from declare_type_ok [OF this] show "declared_ok (map fst ds) t \<and> t_name t = n \<and> (is_hg n \<longrightarrow> b)" by blast
qed

lemma builtin_hg: "is_builtin n \<Longrightarrow> is_hg n"
proof -
  have "list_all is_hg (map fst BUILTIN)" by code_simp
  then show "is_builtin n \<Longrightarrow> is_hg n" by (auto simp: is_builtin_def list_all_iff)
qed

lemma all_some_unless:
  "all_some (map (\<lambda>(n, x). if bad x then None else Some (n, x)) ts) = (if list_ex (\<lambda>(n, x). bad x) ts then None else Some ts)"
proof (cases "list_ex (\<lambda>(n, x). bad x) ts")
  case True
  have "all_some (map (\<lambda>(n, x). if bad x then None else Some (n, x)) ts) \<noteq> Some ys" for ys
  proof
    assume "all_some (map (\<lambda>(n, x). if bad x then None else Some (n, x)) ts) = Some ys"
    then have e: "map (\<lambda>(n, x). if bad x then None else Some (n, x)) ts = map Some ys" by (simp only: all_some_map)
    from True have "None \<in> set (map (\<lambda>(n, x). if bad x then None else Some (n, x)) ts)" by (force simp: list_ex_iff)
    then show False unfolding e by auto
  qed
  with True show ?thesis by auto
next
  case False
  then have "map (\<lambda>(n, x). if bad x then None else Some (n, x)) ts = map Some ts" by (auto simp: list_ex_iff)
  then show ?thesis unfolding all_some_map [symmetric] using False by simp
qed

text \<open>C34: A space's types, stored and read back, are the types the app declared, the built-in ones included; unless a
  type declares an index by nothing but the stamp, which is accepted and stored as an index by no field, and
  then reading the stored types fails, for every type of the space.\<close>

theorem stored_types_come_back:
  assumes "new_types ds = Some T"
  shows "types_from (describe T) = (if list_ex (\<lambda>(n, t). [] \<in> set (t_index t)) T then None else Some T)"
proof -
  from assms obtain ts bs where t: "declare_all ds False = Some ts" "declare_all BUILTIN True = Some bs" "T = ts @ bs"
    by (auto simp: new_types_def bind_eq_Some_conv)
  note app = declare_allD [OF t(1)] and own = declare_allD(1) [OF t(2)]
  have plain: "\<not> is_builtin n" if "(n, x) \<in> set ts" for n x using app(2) [OF that] builtin_hg by blast
  have b: "is_builtin n" if "(n, x) \<in> set bs" for n x using that own by (metis fst_conv image_eqI is_builtin_def list.set_map)
  have ix: "\<not> list_ex (\<lambda>(n, t). [] \<in> set (t_index t)) bs"
  proof -
    have "map_option (list_ex (\<lambda>(n, t). [] \<in> set (t_index t))) (declare_all BUILTIN True) = Some False" by code_simp
    with t(2) show ?thesis by simp
  qed
  define ds' where "ds' = map (\<lambda>(n, x). (n, declaration_of (stored_of x))) ts"
  have "filter (\<lambda>(n, x). \<not> is_builtin n) ts = ts" using plain by (auto simp: filter_id_conv)
  moreover have "filter (\<lambda>(n, x). \<not> is_builtin n) bs = []" using b by (auto simp: filter_empty_conv)
  ultimately have "filter (\<lambda>(n, x). \<not> is_builtin n) T = ts" by (simp add: t(3))
  then have decls: "declarationsOf (describe T) = ds'" by (auto simp: declarationsOf_def describe_def ds'_def)
  have names: "map fst ds' = map fst ds" by (simp add: ds'_def app(1) [symmetric] o_def split_def)
  have truthy: "js_truthy (prop_of (JObj ds') m)" if "m \<in> set (map fst ds)" for m
  proof -
    from that names obtain v where v: "map_of ds' m = Some v" by (metis map_of_eq_None_iff list.set_map not_None_eq)
    from map_of_SomeD [OF v] have "js_truthy v" unfolding ds'_def by (auto simp: declaration_of_def)
    with v show ?thesis by simp
  qed
  have each: "declare_type n (declaration_of (stored_of x)) (JObj ds') False = (if [] \<in> set (t_index x) then None else Some x)"
    if "(n, x) \<in> set ts" for n x
    using app(2) [OF that] declare_again [of "map fst ds" x n "JObj ds'"] truthy by blast
  have all: "declare_all ds' False = all_some (map (\<lambda>(n, x). if [] \<in> set (t_index x) then None else Some (n, x)) ts)"
    unfolding declare_all_def ds'_def [symmetric] using each
    by (auto simp: ds'_def [of] o_def intro!: arg_cong [where f = all_some])
  then have "declare_all ds' False = (if list_ex (\<lambda>(n, t). [] \<in> set (t_index t)) ts then None else Some ts)"
    by (simp only: all_some_unless)
  then show ?thesis unfolding types_from_def new_types_def decls using ix t(2) by (simp add: t(3))
qed

definition note_decl :: "string \<Rightarrow> (string \<times> jsval) list" where
  "note_decl ix = [(''note'', JObj [(''fields'', JObj [(''body'', JStr ''text'')]), (''index'', JArr [JArr [JStr ix]])])]"

lemma note_declared: "map_option length (new_types (note_decl ''stamp'')) = Some 11"
  by code_simp

theorem stored_types_come_back_witness:
  "\<exists>T. new_types (note_decl ''stamp'') = Some T \<and> types_from (describe T) = None"
proof -
  obtain T where T: "new_types (note_decl ''stamp'') = Some T" using note_declared by auto
  have "map_option (list_ex (\<lambda>(n, t). [] \<in> set (t_index t))) (new_types (note_decl ''stamp'')) = Some True" by code_simp
  with T stored_types_come_back [OF T] show ?thesis by auto
qed

text \<open>A reference whose type is a number is accepted and does not fit; a text fits.\<close>

theorem validated_values_fit_witness:
  "\<exists>t v. validate plain plain_z32 [(''n'', t)] ''n'' (JObj [(''file'', JObj [(''src'', JArr []), (''type'', JNum 5)]), (''body'', JStr ''hi'')]) = Inr v \<and>
     prop_of v ''body'' = JStr ''hi'' \<and> value_fits plain plain_z32 ''text'' (JStr ''hi'') \<and> \<not> values_fit plain plain_z32 (t_fields t) v"
proof -
  define t where "t = \<lparr>t_name = ''n'', t_fields = [(''file'', ''ref''), (''body'', ''text'')], t_links = [], t_onePerMember = False, t_target = None,
    t_editable = ByAuthor, t_put = ByMembers, t_index = []\<rparr>"
  define vs where "vs = [(''file'', JObj [(''src'', JArr []), (''type'', JNum 5)]), (''body'', JStr ''hi'')]"
  define r where "r = JObj [(''src'', JArr []), (''size'', JNum 0), (''type'', JNum 5), (''digest'', JStr []), (''mutable'', JBool False)]"
  have v: "validate plain plain_z32 [(''n'', t)] ''n'' (JObj vs) = Inr (JObj [(''file'', r), (''body'', JStr ''hi'')])"
    by (simp add: validate_def check_entry_def checkValue_def t_def vs_def r_def js_or_def)
  have m: "map_of [(''n'', t)] ''n'' = Some t" "own_entries (JObj vs) = Some vs" by simp_all
  have "distinct (map fst vs)" "distinct (map fst (t_fields t))" "\<forall>(n, w)\<in>set vs. js_small w"
    by (simp_all add: t_def vs_def safe_int_def)
  from validated_values_fit [OF plain_z32_ok m v this] have
    "values_fit plain plain_z32 (t_fields t) (JObj [(''file'', r), (''body'', JStr ''hi'')]) \<longleftrightarrow> ref_texts r"
    "value_fits plain plain_z32 ''text'' (JStr ''hi'')" by (simp_all add: t_def)
  moreover have "\<not> ref_texts r" by (simp add: ref_texts_def r_def)
  ultimately show ?thesis using v unfolding vs_def by (intro exI [of _ t] exI [of _ "JObj [(''file'', r), (''body'', JStr ''hi'')]"]) simp
qed

section \<open>Versions of an app\<close>

lemma fields_compatible_take:
  "fields_compatible old now fs i \<longleftrightarrow> take (length fs) (drop i (t_fields now)) = fs \<and>
     list_all (\<lambda>(n, k). k = ''link'' \<longrightarrow> links_of (st_links old) n = links_of (t_links now) n) fs"
proof (induction fs arbitrary: i)
  case (Cons f fs)
  obtain n k where f: "f = (n, k)" by (cases f)
  show ?case
  proof (cases "i < length (t_fields now)")
    case True
    then have "drop i (t_fields now) = t_fields now ! i # drop (Suc i) (t_fields now)" by (rule Cons_nth_drop_Suc [symmetric])
    with True Cons.IH [of "Suc i"] show ?thesis by (cases "t_fields now ! i") (auto simp: f)
  qed (simp add: f)
qed simp

lemma first_link_None: "first_link fs = None \<longleftrightarrow> \<not> list_ex (\<lambda>(n, kind). kind = ''link'') fs"
  by (induction fs) (auto simp: first_link_def)

lemma compatible_links:
  "type_compatible (stored_of a) b \<Longrightarrow> (n, ''link'') \<in> set (t_fields a) \<Longrightarrow> links_of (t_links a) n = links_of (t_links b) n"
  unfolding type_compatible_def stored_of_def fields_compatible_take list_all_iff by fastforce

text \<open>A version of an app that may open the data of an older one only adds fields at the end of its types; what its
  links may point at, who may edit or put and what one per member counts by are as they were.\<close>

lemma compatible_keeps:
  assumes "type_compatible (stored_of t) now" "t_target t = (if t_onePerMember t then first_link (t_fields t) else None)"
    "t_target now = (if t_onePerMember now then first_link (t_fields now) else None)"
  shows "\<exists>gs. t_fields now = t_fields t @ gs" "t_editable now = t_editable t" "t_put now = t_put t"
    "t_onePerMember now = t_onePerMember t" "t_target now = t_target t"
    "map_of (t_fields t) n = Some ''link'' \<Longrightarrow> linkAllowed now n target = linkAllowed t n target"
proof -
  from assms(1) have c: "take (length (t_fields t)) (t_fields now) = t_fields t"
    "list_all (\<lambda>(n, k). k = ''link'' \<longrightarrow> links_of (t_links t) n = links_of (t_links now) n) (t_fields t)"
    and rest: "t_onePerMember t = t_onePerMember now" "t_editable t = t_editable now" "t_put t = t_put now"
    and link: "\<not> (t_onePerMember now \<and> t_target now \<noteq> None \<and> \<not> list_ex (\<lambda>(n, kind). kind = ''link'') (t_fields t))"
    by (simp_all add: type_compatible_def stored_of_def fields_compatible_take)
  from c(1) show app: "\<exists>gs. t_fields now = t_fields t @ gs" by (metis append_take_drop_id)
  then obtain gs where gs: "t_fields now = t_fields t @ gs" by blast
  show "t_editable now = t_editable t" "t_put now = t_put t" "t_onePerMember now = t_onePerMember t" using rest by simp_all
  show "t_target now = t_target t"
  proof (cases "find (\<lambda>(name, kind). kind = ''link'') (t_fields t)")
    case None
    then have "\<not> list_ex (\<lambda>(n, kind). kind = ''link'') (t_fields t)" by (auto simp: find_None_iff list_ex_iff)
    with link None rest(1) assms(2,3) show ?thesis by (auto simp: first_link_def)
  next
    case (Some f)
    have "find P (xs @ ys) = Some x" if "find P xs = Some x" for P xs ys and x :: field
      using that by (induction xs) (auto split: if_splits)
    with Some rest(1) assms(2,3) show ?thesis by (simp add: first_link_def gs)
  qed
  show "linkAllowed now n target = linkAllowed t n target" if "map_of (t_fields t) n = Some ''link''"
    using c(2) map_of_SomeD [OF that] by (auto simp: list_all_iff links_of_def linkAllowed_def)
qed

lemma compatible_refl: "t_target t = (if t_onePerMember t then first_link (t_fields t) else None) \<Longrightarrow> type_compatible (stored_of t) t"
  by (auto simp: type_compatible_def stored_of_def fields_compatible_take list_all_iff first_link_None)

lemma compatible_trans:
  assumes "type_compatible (stored_of a) b" "type_compatible (stored_of b) c"
    "\<And>t. t \<in> {a, b, c} \<Longrightarrow> t_target t = (if t_onePerMember t then first_link (t_fields t) else None)"
  shows "type_compatible (stored_of a) c"
proof -
  note ab = compatible_keeps [OF assms(1)] and bc = compatible_keeps [OF assms(2)]
  have t: "t_target a = (if t_onePerMember a then first_link (t_fields a) else None)"
    "t_target b = (if t_onePerMember b then first_link (t_fields b) else None)"
    "t_target c = (if t_onePerMember c then first_link (t_fields c) else None)" using assms(3) by blast+
  from ab(1) [OF t(1,2)] bc(1) [OF t(2,3)] obtain gs hs where f: "t_fields b = t_fields a @ gs" "t_fields c = t_fields b @ hs" by blast
  have "links_of (t_links a) n = links_of (t_links c) n" if "(n, ''link'') \<in> set (t_fields a)" for n
  proof -
    from that f have "(n, ''link'') \<in> set (t_fields b)" by simp
    with that compatible_links [OF assms(1)] compatible_links [OF assms(2)] show ?thesis by simp
  qed
  moreover have "\<not> (t_target c \<noteq> None \<and> \<not> list_ex (\<lambda>(n, kind). kind = ''link'') (t_fields a))"
    using ab(5) [OF t(1,2)] bc(5) [OF t(2,3)] t(1) first_link_None [of "t_fields a"] by (auto split: if_splits)
  ultimately show ?thesis
    using f ab(2-4) [OF t(1,2)] bc(2-4) [OF t(2,3)]
    by (auto simp: type_compatible_def stored_of_def fields_compatible_take list_all_iff)
qed

end
