(* ===== verification/Gate.thy ===== *)
theory Gate
  imports Record_Types Effective_State Stamps
begin

unbundle bit_operations_syntax

text \<open>
  What readers enforce before anything of a log is kept or indexed (lib/gate.js): the log's header, its
  author's right to write and its cut (\<open>checkLog\<close>), each record (\<open>checkRecord\<close>), who may change, edit or put
  what, which links count, and the app's rules; with the parts of lib/space.js it asks (device removals,
  which of Hypergraph's own types belong where). Rows and changes are those of lib/index/build.js, of one
  space. Signatures are those of the environment \<open>E\<close> of the decisions; \<open>ce\<close> and \<open>Z\<close> are the packages
  compact-encoding and z32.
\<close>

section \<open>Rows and changes of the index\<close>

record row =
  w_id :: bytes
  w_type :: string
  w_author :: bytes
  w_device :: bytes
  w_log :: bytes
  w_seq :: nat
  w_stamp :: nat
  w_vstamp :: nat
  w_vdevice :: bytes
  w_fields :: bytes
  w_links :: "bytes list"
  w_ix :: "string list"
  w_flags :: "8 word"
  w_opm :: bool
  w_target :: "bytes option"

record change =
  ch_target :: bytes
  ch_id :: bytes
  ch_kind :: nat
  ch_type :: string
  ch_author :: bytes
  ch_device :: bytes
  ch_stamp :: nat
  ch_fields :: bytes
  ch_links :: "bytes list"

section \<open>Logs\<close>

record who =
  wh_identity :: bytes
  wh_device :: bytes
  wh_admitted :: "string option"

definition NS_LOG :: bytes where "NS_LOG = ascii ''hypergraph/log'' @ [0]"

definition logSignable :: "bytes \<Rightarrow> bytes \<Rightarrow> bytes" where
  "logSignable logKey space = NS_LOG @ logKey @ space"

definition readHeader :: "env \<Rightarrow> prims \<Rightarrow> bytes \<Rightarrow> bytes \<Rightarrow> bytes \<Rightarrow> bytes \<Rightarrow> who option" where
  "readHeader E ce bs logKey space decisions = do {
     h \<leftarrow> decode (header_codec ce) bs;
     if h_version h \<noteq> VERSION \<or> h_space h \<noteq> space \<or> h_decisions h \<noteq> decisions then None
     else do {
       (identity, device) \<leftarrow> Identity_verify E (h_proof h) (logSignable logKey space);
       Some \<lparr>wh_identity = identity, wh_device = device, wh_admitted = map_option hex (h_admitted h)\<rparr> } }"

definition admittedOf :: "prims \<Rightarrow> bytes \<Rightarrow> string option" where
  "admittedOf ce bs = do { h \<leftarrow> decode (header_codec ce) bs; map_option hex (h_admitted h) }"

record log_limits =
  lt_limitOf :: "bytes \<Rightarrow> bytes \<Rightarrow> bytes \<Rightarrow> string option \<Rightarrow> enat"
  lt_mayRetry :: "bytes \<Rightarrow> bytes \<Rightarrow> bytes \<Rightarrow> bool"
  lt_decisions :: "bytes option"

datatype log_check = LogRefused bool "who option" | LogOk enat who

definition checkLog :: "env \<Rightarrow> prims \<Rightarrow> bytes \<Rightarrow> bytes \<Rightarrow> bytes \<Rightarrow> log_limits \<Rightarrow> log_check" where
  "checkLog E ce hdr logKey space L =
     (case readHeader E ce hdr logKey space (case lt_decisions L of None \<Rightarrow> space | Some d \<Rightarrow> d) of
        None \<Rightarrow> LogRefused False None
      | Some w \<Rightarrow>
          let most = lt_limitOf L (wh_identity w) (wh_device w) logKey (wh_admitted w)
          in if most \<le> 1 then LogRefused (lt_mayRetry L (wh_identity w) (wh_device w) logKey) (Some w)
             else LogOk most w)"

section \<open>Removed devices\<close>

definition removalKey :: "bytes \<Rightarrow> bytes \<Rightarrow> string" where
  "removalKey identity device = hex identity @ '':'' @ hex device"

text \<open>One map of log lengths per removal, under the identity and device it removes.\<close>

type_synonym removals = "string \<Rightarrow> (string \<rightharpoonup> nat) list option"

definition space_limitOf :: "space_state \<Rightarrow> removals \<Rightarrow> bytes \<Rightarrow> bytes \<Rightarrow> bytes \<Rightarrow> string option \<Rightarrow> enat" where
  "space_limitOf st rem identity device lg admitted =
     (let first = limitOf st (hex identity) (hex lg);
          most = (if first > 1 \<and> device \<noteq> identity \<and> mustAdmit st (hex identity) (hex lg) \<and>
                     admitted \<noteq> admission st (hex identity) then 0 else first)
      in case rem (removalKey identity device) of
           None \<Rightarrow> most
         | Some rs \<Rightarrow> fold (\<lambda>r least. min least (case r (hex lg) of None \<Rightarrow> 0 | Some n \<Rightarrow> enat n)) rs most)"

definition device_removed :: "removals \<Rightarrow> bytes \<Rightarrow> bytes \<Rightarrow> bool" where
  "device_removed rem identity device \<longleftrightarrow> rem (removalKey identity device) \<noteq> None"

definition space_mayRetry :: "space_state \<Rightarrow> removals \<Rightarrow> bytes \<Rightarrow> bytes \<Rightarrow> bytes \<Rightarrow> bool" where
  "space_mayRetry st rem identity device lg \<longleftrightarrow> \<not> device_removed rem identity device \<and> \<not> isCut st (hex identity) (hex lg)"

definition space_limits :: "space_state \<Rightarrow> removals \<Rightarrow> bytes option \<Rightarrow> log_limits" where
  "space_limits st rem decisions = \<lparr>lt_limitOf = space_limitOf st rem, lt_mayRetry = space_mayRetry st rem, lt_decisions = decisions\<rparr>"

text \<open>The lengths a removal's bytes list; \<open>None\<close>: they do not decode.\<close>

definition cut_lengths :: "prims \<Rightarrow> bytes \<Rightarrow> (string \<rightharpoonup> nat) option" where
  "cut_lengths ce bs = (case decode (p_array ce (cutEntry ce)) bs of
       Some (JArr es) \<Rightarrow> Some (fold (\<lambda>e m. case (prop_of e ''log'', prop_of e ''length'') of
           (JBuf l, JNum n) \<Rightarrow> m(hex l \<mapsto> nat n) | _ \<Rightarrow> m) es Map.empty)
     | _ \<Rightarrow> None)"

definition push_removal :: "string \<Rightarrow> (string \<rightharpoonup> nat) \<Rightarrow> removals \<Rightarrow> removals" where
  "push_removal k lengths rem = rem(k \<mapsto> (case rem k of None \<Rightarrow> [] | Some rs \<Rightarrow> rs) @ [lengths])"

definition add_removal :: "prims \<Rightarrow> jsval \<Rightarrow> bytes \<Rightarrow> removals \<Rightarrow> removals" where
  "add_removal ce values identity rem =
     (case (prop_of values ''removed'', prop_of values ''cut'') of
        (JBuf device, JBuf ct) \<Rightarrow>
          (case cut_lengths ce ct of None \<Rightarrow> rem
           | Some lengths \<Rightarrow> push_removal (removalKey identity device) lengths rem)
      | _ \<Rightarrow> rem)"

record dlog =
  g_key :: bytes
  g_identity :: bytes
  g_device :: bytes
  g_limit :: enat
  g_own :: bool

definition validRemoval :: "env \<Rightarrow> prims \<Rightarrow> bytes \<Rightarrow> dlog \<Rightarrow> jsval option \<Rightarrow> bool" where
  "validRemoval E ce space l values =
     (let v = (case values of None \<Rightarrow> JObj [] | Some x \<Rightarrow> x)
      in case (prop_of v ''removed'', prop_of v ''cut'', prop_of v ''proof'') of
           (JBuf device, JBuf ct, JBuf prf) \<Rightarrow>
             length device = 32 \<and> device \<noteq> g_identity l \<and> cut_lengths ce ct \<noteq> None \<and>
             (case removalSignable space device (Some ct) of Inl e \<Rightarrow> False
              | Inr data \<Rightarrow> Identity_verify E (Some prf) data = Some (g_identity l, g_identity l))
         | _ \<Rightarrow> False)"

definition allowed_there :: "env \<Rightarrow> prims \<Rightarrow> bytes \<Rightarrow> bool \<Rightarrow> dlog \<Rightarrow> lrec \<Rightarrow> jsval option \<Rightarrow> bool" where
  "allowed_there E ce space personal l r values =
     (let identityLog = (g_device l = g_identity l)
      in if identityLog \<or> l_type r = ''hg/device-remove''
         then identityLog \<and> l_type r = ''hg/device-remove'' \<and> l_kind r = PUT \<and> validRemoval E ce space l values
         else l_type r \<notin> set PERSONAL \<or> personal)"

text \<open>The write limit a log's records are judged by.\<close>

definition limitFor :: "space_state \<Rightarrow> bool \<Rightarrow> dlog \<Rightarrow> limit option" where
  "limitFor st personal l =
     (if personal \<or> g_device l = g_identity l then None
      else map_option (\<lambda>(n, p). \<lparr>lm_records = n, lm_periodMs = p\<rparr>) (q_writeLimit st))"

section \<open>Records\<close>

text \<open>A record as it counts in a private space: opened (or never sealed), a put written in the clear, sealed
  with a key not held here, or not to count.\<close>

datatype opened = Opened lrec | Unreadable lrec | Locked | Closed

datatype refusal = Malformed | BadTarget | KeyMissing | NoOpening | NoDecoding

datatype checked = Refused refusal | Checked lrec bool "jsval option"

definition decode_record :: "prims \<Rightarrow> z32 \<Rightarrow> types \<Rightarrow> string \<Rightarrow> bytes \<Rightarrow> bytes list \<Rightarrow> jsval option" where
  "decode_record ce Z T name fs links = do { t \<leftarrow> map_of T name; decode_fields ce Z (t_fields t) fs links }"

definition check_type :: "prims \<Rightarrow> z32 \<Rightarrow> types \<Rightarrow> lrec \<Rightarrow> checked" where
  "check_type ce Z T r =
     (if map_of T (l_type r) = None then Checked r False None
      else if l_kind r = DELETE then Checked r False (Some (JObj []))
      else (case decode_record ce Z T (l_type r) (l_fields r) (l_links r) of
          None \<Rightarrow> Refused NoDecoding
        | Some values \<Rightarrow> Checked r False (Some values)))"

definition checkRecord :: "prims \<Rightarrow> z32 \<Rightarrow> types \<Rightarrow> (lrec \<Rightarrow> opened) option \<Rightarrow> bytes \<Rightarrow> checked" where
  "checkRecord ce Z T unseal bs =
     (case decodeRecord ce bs of
        Inl e \<Rightarrow> Refused Malformed
      | Inr r \<Rightarrow>
          if (l_kind r = PUT) = (l_target r \<noteq> None) then Refused BadTarget
          else (case unseal of
              None \<Rightarrow> check_type ce Z T r
            | Some f \<Rightarrow> (case f r of
                Locked \<Rightarrow> Refused KeyMissing
              | Closed \<Rightarrow> Refused NoOpening
              | Unreadable r' \<Rightarrow> Checked r' True None
              | Opened r' \<Rightarrow> check_type ce Z T r')))"

section \<open>Links\<close>

text \<open>\<open>typeOf\<close>: the type of a record held here, by what the field holds.\<close>

definition linksAllowed :: "types \<Rightarrow> string \<Rightarrow> jsval option \<Rightarrow> (jsval \<Rightarrow> string option) \<Rightarrow> bool" where
  "linksAllowed T name values typeOf =
     (case (values, map_of T name) of
        (Some v, Some t) \<Rightarrow> list_all (\<lambda>(n, kind).
            if kind \<noteq> ''link'' \<or> \<not> js_truthy (prop_of v n) then True
            else (let target = typeOf (prop_of v n) in truthy target \<longrightarrow> linkAllowed t n (the target))) (t_fields t)
      | _ \<Rightarrow> True)"

text \<open>\<open>None\<close>: the fields are needed and not here.\<close>

definition linkCounts :: "types \<Rightarrow> string \<Rightarrow> jsval option \<Rightarrow> string \<Rightarrow> string option \<Rightarrow> bool option" where
  "linkCounts T name values target targetType =
     (case map_of T name of
        None \<Rightarrow> Some True
      | Some t \<Rightarrow>
          if \<not> truthy targetType then Some True
          else
            let links = filter (\<lambda>(n, kind). kind = ''link'') (t_fields t);
                allowing = filter (\<lambda>(n, kind). linkAllowed t n (the targetType)) links
            in if length allowing = length links then Some True
               else (case values of
                   None \<Rightarrow> None
                 | Some v \<Rightarrow>
                     let via = filter (\<lambda>(n, kind). prop_of v n = JStr target) links
                     in Some (via = [] \<or> list_ex (\<lambda>f. f \<in> set allowing) via)))"

section \<open>Who may change what\<close>

text \<open>\<open>who\<close> is an author and the id of the record that speaks for it, \<open>None\<close> for one about to be written. An
  id that is no record id makes the code throw; the ids of rows and changes are written by \<open>idBytes\<close>.\<close>

definition mayEdit :: "prims \<Rightarrow> z32 \<Rightarrow> types \<Rightarrow> bytes \<Rightarrow> bytes option \<Rightarrow> row \<Rightarrow> space_state \<Rightarrow> bool" where
  "mayEdit ce Z T author i target st =
     (if author = w_author target then True
      else (case (case map_of T (w_type target) of None \<Rightarrow> ByAuthor | Some t \<Rightarrow> t_editable t) of
          ByAuthor \<Rightarrow> False
        | ByMembers \<Rightarrow> i \<noteq> None \<or> canWrite st (hex author)
        | ByPermission p \<Rightarrow> (case i of
            None \<Rightarrow> q_can st (hex author) p
          | Some b \<Rightarrow> (case idParts ce Z (IdBytes b) of
                None \<Rightarrow> False
              | Some r \<Rightarrow> enat (r_seq r) < editLimit st (hex author) p (hex (r_log r))))))"

definition mayChange :: "prims \<Rightarrow> z32 \<Rightarrow> types \<Rightarrow> nat \<Rightarrow> string \<Rightarrow> bytes \<Rightarrow> bytes option \<Rightarrow> row \<Rightarrow> space_state \<Rightarrow> bool" where
  "mayChange ce Z T kind name author i target st =
     (if name \<noteq> w_type target then False
      else if kind = DELETE then author = w_author target
      else mayEdit ce Z T author i target st)"

definition mayPut :: "prims \<Rightarrow> z32 \<Rightarrow> types \<Rightarrow> row \<Rightarrow> space_state \<Rightarrow> bool" where
  "mayPut ce Z T w st =
     (case map_option t_put (map_of T (w_type w)) of
        Some (ByPermission p) \<Rightarrow> (case idParts ce Z (IdBytes (w_id w)) of
            None \<Rightarrow> False
          | Some r \<Rightarrow> enat (r_seq r) < editLimit st (hex (w_author w)) p (hex (r_log r)))
      | _ \<Rightarrow> True)"

section \<open>Hypergraph's own records and the app's rules\<close>

definition MAX_DATA :: nat where "MAX_DATA = 4096"

text \<open>\<open>Number.isFinite\<close>, by the exponent of the double.\<close>

fun js_finite :: "jsval \<Rightarrow> bool" where
  "js_finite (JNum n) = True"
| "js_finite (JReal w) = (drop_bit 52 w AND 0x7FF \<noteq> 0x7FF)"
| "js_finite v = False"

fun text_size :: "jsval \<Rightarrow> nat" where
  "text_size (JStr s) = length s"
| "text_size (JBuf b) = length b"
| "text_size v = 0"

fun is_text :: "jsval \<Rightarrow> bool" where
  "is_text (JStr s) = True"
| "is_text v = False"

definition builtinValid :: "lrec \<Rightarrow> jsval option \<Rightarrow> bool" where
  "builtinValid r values =
     (if l_type r \<noteq> ''hg/relation'' \<and> l_type r \<noteq> ''hg/tag'' then True
      else (case values of
          None \<Rightarrow> False
        | Some v \<Rightarrow>
            if l_kind r \<noteq> PUT then False
            else if l_type r = ''hg/tag'' then
              js_truthy (prop_of v ''on'') \<and> is_text (prop_of v ''tag'') \<and> text_size (prop_of v ''tag'') > 0
            else if \<not> js_truthy (prop_of v ''from'') \<or> \<not> js_truthy (prop_of v ''to'') \<or>
                    \<not> is_text (prop_of v ''rel'') \<or> \<not> js_truthy (prop_of v ''rel'') then False
            else if \<not> absent (prop_of v ''value'') \<and> \<not> js_finite (prop_of v ''value'') then False
            else absent (prop_of v ''data'') \<or> text_size (prop_of v ''data'') \<le> MAX_DATA))"

text \<open>A rule of the app: its id, and whether it accepts a record (\<open>None\<close>: it throws).\<close>

type_synonym app_rule = "string \<times> (jsval \<Rightarrow> jsval \<Rightarrow> bool option)"

definition brokenRule :: "app_rule list \<Rightarrow> jsval \<Rightarrow> jsval \<Rightarrow> string option" where
  "brokenRule rules r ctx = map_option fst (find (\<lambda>(i, valid). valid r ctx \<noteq> Some True) rules)"

section \<open>What the checks give\<close>

lemma checkLog_ok:
  "checkLog E ce hdr logKey space L = LogOk most w \<Longrightarrow>
     most > 1 \<and> most = lt_limitOf L (wh_identity w) (wh_device w) logKey (wh_admitted w) \<and>
     (\<exists>h. decode (header_codec ce) hdr = Some h \<and> h_version h = VERSION \<and> h_space h = space \<and>
        Identity_verify E (h_proof h) (logSignable logKey space) = Some (wh_identity w, wh_device w))"
  by (auto simp: checkLog_def readHeader_def Let_def bind_eq_Some_conv not_le split: option.splits if_splits)

lemma fold_least: "fold (\<lambda>r least. min least (f r)) rs (m :: enat) \<le> m"
  by (induction rs arbitrary: m) (auto intro: order_trans [OF _ min.cobounded1])

text \<open>A removal only ever lowers what counts of a device's logs.\<close>

lemma removal_lowers: "space_limitOf st (add_removal ce v i rem) identity device lg a \<le> space_limitOf st rem identity device lg a"
proof -
  have "space_limitOf st (push_removal k x rem) identity device lg a \<le> space_limitOf st rem identity device lg a" for k x
    by (cases "rem k") (auto simp: space_limitOf_def push_removal_def Let_def)
  moreover have "add_removal ce v i rem = rem \<or> (\<exists>k x. add_removal ce v i rem = push_removal k x rem)"
    by (cases "prop_of v ''removed''"; cases "prop_of v ''cut''") (simp_all add: add_removal_def split: option.split, blast)
  ultimately show ?thesis by (metis order_refl)
qed

lemma mayChange_simps:
  "mayChange ce Z T DELETE name author i w st \<longleftrightarrow> name = w_type w \<and> author = w_author w"
  "mayChange ce Z T EDIT name author i w st \<longleftrightarrow> name = w_type w \<and> mayEdit ce Z T author i w st"
  by (simp_all add: mayChange_def DELETE_def EDIT_def)

text \<open>Judging a change looks at the row's author and type alone, which no change moves.\<close>

lemma mayEdit_cong:
  "w_author a = w_author b \<Longrightarrow> w_type a = w_type b \<Longrightarrow> mayEdit ce Z T author i a st = mayEdit ce Z T author i b st"
  by (simp only: mayEdit_def)

lemma mayChange_cong:
  "w_author a = w_author b \<Longrightarrow> w_type a = w_type b \<Longrightarrow>
     mayChange ce Z T kind name author i a st = mayChange ce Z T kind name author i b st"
  by (simp only: mayChange_def mayEdit_cong [of a b])

end
