(* ===== verification/Index_Rows.thy ===== *)
theory Index_Rows
  imports Gate
begin

text \<open>
  The rows of the local index and how a record's current version, tags and group are kept
  (lib/index/indexer.js, the steps that work on one row; lib/index/build.js, lib/index/helpers.js). A
  collection of the index (HyperDB) is the list of its entries in the order of their keys; a search by
  another index filters it and orders what it finds by that index's key, then by id.
  What is constant while blocks are indexed is the environment \<open>N\<close> (\<open>ienv\<close>): the space's types, state,
  rules and the functions of the space the indexer is given; \<open>indexer\<close> is what it changes.
\<close>

section \<open>Flags and keys\<close>

definition HIDDEN :: "8 word" where "HIDDEN = 1"
definition REMOVED :: "8 word" where "REMOVED = 2"
definition SUPERSEDED :: "8 word" where "SUPERSEDED = 4"
definition EDITED :: "8 word" where "EDITED = 8"
definition FLAGGED :: "8 word" where "FLAGGED = 16"
definition DROPPED :: "8 word" where "DROPPED = 32"
definition READ :: "8 word" where "READ = 64"
definition UNREADABLE :: "8 word" where "UNREADABLE = 128"

definition IX_OVERHEAD :: nat where "IX_OVERHEAD = 160"

definition ixCost :: "string list \<Rightarrow> nat" where
  "ixCost ks = sum_list (map (\<lambda>k. IX_OVERHEAD + 2 * length k) ks)"

definition modFlags :: "8 word \<Rightarrow> moderation \<Rightarrow> 8 word" where
  "modFlags flags m = (flags AND NOT (HIDDEN OR FLAGGED)) OR (if md_hidden m then HIDDEN else 0) OR (if md_flagged m then FLAGGED else 0)"

text \<open>How a record that is gone reads: by the space's decisions, or by its author's delete.\<close>

datatype gone = BySpace | ByAuthorAt nat bytes

definition byAuthor :: "change \<Rightarrow> gone" where
  "byAuthor c = ByAuthorAt (ch_stamp c) (ch_device c)"

record ienv =
  n_ce :: prims
  n_Z :: z32
  n_types :: types
  n_state :: space_state
  n_me :: bytes
  n_personal :: bool
  n_space :: bytes
  n_rules :: "app_rule list"
  n_unseal :: "dlog \<Rightarrow> nat \<Rightarrow> lrec \<Rightarrow> opened"
  n_allowed :: "dlog \<Rightarrow> lrec \<Rightarrow> jsval option \<Rightarrow> bool"
  n_logOf :: "bytes \<Rightarrow> dlog option"
  n_block :: "bytes \<Rightarrow> nat \<Rightarrow> bytes option" \<comment> \<open>a block held here\<close>
  n_real :: "64 word \<Rightarrow> string" \<comment> \<open>the text of a number that is no integer\<close>
  n_hadChanges :: bool
  n_hadTags :: bool
  n_hadRecords :: bool

record indexer =
  i_rows :: "row list"
  i_changes :: "change list"
  i_ixBytes :: "bytes \<Rightarrow> nat"
  i_dropped :: "bytes \<Rightarrow> nat \<times> nat" \<comment> \<open>bytes and blocks\<close>
  i_changeTargets :: "bytes list"
  i_tagged :: "bytes list"
  i_applied :: "string \<Rightarrow> 8 word option"
  i_changed :: "(bytes \<times> string \<times> gone option) list"
  i_clears :: "bytes list"
  i_wiped :: "(bytes \<times> bytes option) list"
  i_removals :: "(jsval \<times> bytes) list"
  i_stamper :: stamper

section \<open>Collections\<close>

fun put_row :: "row \<Rightarrow> row list \<Rightarrow> row list" where
  "put_row w [] = [w]"
| "put_row w (x # xs) = (if w_id w = w_id x then w # xs else if w_id w < w_id x then w # x # xs else x # put_row w xs)"

definition del_row :: "bytes \<Rightarrow> row list \<Rightarrow> row list" where
  "del_row i rows = filter (\<lambda>w. w_id w \<noteq> i) rows"

definition get_row :: "bytes \<Rightarrow> row list \<Rightarrow> row option" where
  "get_row i rows = find (\<lambda>w. w_id w = i) rows"

definition rows_linking :: "bytes \<Rightarrow> string \<Rightarrow> row list \<Rightarrow> row list" where
  "rows_linking target name rows = sort_key w_stamp (filter (\<lambda>w. target \<in> set (w_links w) \<and> w_type w = name) rows)"

definition rows_of_type :: "string \<Rightarrow> row list \<Rightarrow> row list" where
  "rows_of_type name rows = sort_key w_stamp (filter (\<lambda>w. w_type w = name) rows)"

definition rows_by_ix :: "string \<Rightarrow> string \<Rightarrow> row list \<Rightarrow> row list" where
  "rows_by_ix name ix rows = sort_key w_stamp (filter (\<lambda>w. w_type w = name \<and> ix \<in> set (w_ix w)) rows)"

definition same_group :: "row \<Rightarrow> row \<Rightarrow> bool" where
  "same_group a b \<longleftrightarrow> w_type a = w_type b \<and> w_target a = w_target b \<and> w_author a = w_author b"

definition group_rows :: "row \<Rightarrow> row list \<Rightarrow> row list" where
  "group_rows w rows = filter (\<lambda>x. w_opm x \<and> same_group x w) rows"

fun put_change :: "change \<Rightarrow> change list \<Rightarrow> change list" where
  "put_change c [] = [c]"
| "put_change c (x # xs) =
     (if ch_target c = ch_target x \<and> ch_id c = ch_id x then c # xs
      else if ch_target c < ch_target x \<or> ch_target c = ch_target x \<and> ch_id c < ch_id x then c # x # xs
      else x # put_change c xs)"

definition changes_of :: "bytes \<Rightarrow> change list \<Rightarrow> change list" where
  "changes_of target cs = filter (\<lambda>c. ch_target c = target) cs"

definition set_row :: "row \<Rightarrow> indexer \<Rightarrow> indexer" where
  "set_row w s = s\<lparr>i_rows := put_row w (i_rows s)\<rparr>"

definition drop_row :: "bytes \<Rightarrow> indexer \<Rightarrow> indexer" where
  "drop_row i s = s\<lparr>i_rows := del_row i (i_rows s)\<rparr>"

definition clears :: "bytes list \<Rightarrow> indexer \<Rightarrow> indexer" where
  "clears ids s = s\<lparr>i_clears := i_clears s @ ids\<rparr>"

text \<open>One entry per record, the latest wins, at the place of the first.\<close>

definition noted :: "row \<Rightarrow> gone option \<Rightarrow> indexer \<Rightarrow> indexer" where
  "noted w deleted s = s\<lparr>i_changed :=
     (if list_ex (\<lambda>e. fst e = w_id w) (i_changed s)
      then map (\<lambda>e. if fst e = w_id w then (w_id w, w_type w, deleted) else e) (i_changed s)
      else i_changed s @ [(w_id w, w_type w, deleted)])\<rparr>"

definition account :: "ienv \<Rightarrow> row \<Rightarrow> string list \<Rightarrow> string list \<Rightarrow> indexer \<Rightarrow> indexer" where
  "account N w before after s =
     (if ixCost after = ixCost before \<or> n_logOf N (w_log w) = None then s
      else s\<lparr>i_ixBytes := (i_ixBytes s)(w_log w := nat (int (i_ixBytes s (w_log w)) + int (ixCost after) - int (ixCost before)))\<rparr>)"

section \<open>Index keys\<close>

primrec join :: "string \<Rightarrow> string list \<Rightarrow> string" where
  "join sep [] = []"
| "join sep (x # xs) = (if xs = [] then x else x @ sep @ join sep xs)"

definition NUL :: string where "NUL = [CHR 0x00]"

definition decimal_int :: "int \<Rightarrow> string" where
  "decimal_int n = (if n < 0 then ''-'' @ decimal (nat (- n)) else decimal (nat n))"

text \<open>\<open>String(value ?? '')\<close> of what a field decodes to.\<close>

fun js_text :: "ienv \<Rightarrow> jsval \<Rightarrow> string" where
  "js_text N (JStr s) = s"
| "js_text N (JNum n) = decimal_int n"
| "js_text N (JReal w) = n_real N w"
| "js_text N (JBool b) = (if b then ''true'' else ''false'')"
| "js_text N (JBuf b) = map (\<lambda>x. char_of (unat x)) b"
| "js_text N (JObj ps) = ''[object Object]''"
| "js_text N v = []"

definition ixKeys :: "ienv \<Rightarrow> string \<Rightarrow> jsval option \<Rightarrow> string list" where
  "ixKeys N name values =
     (case (values, map_of (n_types N) name) of
        (Some v, Some t) \<Rightarrow>
          map (\<lambda>fs. join '','' fs @ NUL @ join NUL (map (\<lambda>f. js_text N (prop_of v f)) fs))
            (filter (\<lambda>fs. list_ex (\<lambda>f. \<not> absent (prop_of v f)) fs) (t_index t))
      | _ \<Rightarrow> [])"

definition tagKey :: "string \<Rightarrow> string" where
  "tagKey tag = NUL @ ''#'' @ tag"

text \<open>The version of a row or a change.\<close>

definition put_version :: "row \<Rightarrow> version" where "put_version w = (w_stamp w, w_device w)"
definition row_version :: "row \<Rightarrow> version" where "row_version w = (w_vstamp w, w_vdevice w)"
definition ch_version :: "change \<Rightarrow> version" where "ch_version c = (ch_stamp c, ch_device c)"

text \<open>Searches of a one-per-member group and of tags compare rows by what the record was put with:
  \<open>compare\<close> reads \<open>stamp\<close> and \<open>device\<close>.\<close>

definition decode_row :: "ienv \<Rightarrow> row \<Rightarrow> jsval option" where
  "decode_row N w = decode_record (n_ce N) (n_Z N) (n_types N) (w_type w) (w_fields w) (w_links w)"

text \<open>What a tag row says: the record it is on, the tag, and whether it takes it off.\<close>

definition tag_of :: "ienv \<Rightarrow> row \<Rightarrow> (bytes \<times> string \<times> bool) option" where
  "tag_of N t = (case decode_record (n_ce N) (n_Z N) (n_types N) ''hg/tag'' (w_fields t) (w_links t) of
       None \<Rightarrow> None
     | Some v \<Rightarrow> (case (prop_of v ''on'', prop_of v ''tag'') of
           (JStr on, JStr tag) \<Rightarrow> if on = [] then None
             else (case idBytes (n_ce N) (n_Z N) (IdText on) of Inl e \<Rightarrow> None | Inr b \<Rightarrow> Some (b, tag, js_truthy (prop_of v ''off'')))
         | _ \<Rightarrow> None))"

definition tags_row :: "ienv \<Rightarrow> row \<Rightarrow> row \<Rightarrow> bool" where
  "tags_row N w t \<longleftrightarrow> (w_flags t AND (HIDDEN OR REMOVED) = 0) \<and>
     (case tag_of N t of None \<Rightarrow> False | Some (on, tag, off) \<Rightarrow>
        on = w_id w \<and> mayEdit (n_ce N) (n_Z N) (n_types N) (w_author t) (Some (w_id t)) w (n_state N))"

fun best_tag :: "ienv \<Rightarrow> row \<Rightarrow> (string \<times> row \<times> bool) list \<Rightarrow> (string \<times> row \<times> bool) list" where
  "best_tag N t best = (case tag_of N t of None \<Rightarrow> best | Some (on, tag, off) \<Rightarrow>
     (case map_of best tag of
        None \<Rightarrow> best @ [(tag, t, off)]
      | Some (b, o1) \<Rightarrow>
          if compare (put_version t) (put_version b) > 0
          then map (\<lambda>e. if fst e = tag then (tag, t, off) else e) best else best))"

definition tagKeys :: "ienv \<Rightarrow> row \<Rightarrow> indexer \<Rightarrow> string list" where
  "tagKeys N w s =
     (if is_hg (w_type w) then []
      else if \<not> n_hadTags N \<and> w_id w \<notin> set (i_tagged s) then []
      else sort (map (\<lambda>(tag, t, off). tagKey tag) (filter (\<lambda>(tag, t, off). \<not> off)
             (fold (best_tag N) (filter (tags_row N w) (rows_linking (w_id w) ''hg/tag'' (i_rows s))) []))))"

definition ix_of :: "ienv \<Rightarrow> row \<Rightarrow> jsval option \<Rightarrow> indexer \<Rightarrow> string list" where
  "ix_of N w values s = ixKeys N (w_type w) values @ tagKeys N w s"

text \<open>Recomputes the tags of a record, if it is held.\<close>

definition retag :: "ienv \<Rightarrow> bytes \<Rightarrow> indexer \<Rightarrow> indexer" where
  "retag N i s = (case get_row i (i_rows s) of
       None \<Rightarrow> s
     | Some w \<Rightarrow>
         let ix = ix_of N w (decode_row N w) s
         in if join [CHR 0x0A] ix = join [CHR 0x0A] (w_ix w) then s
            else noted (w\<lparr>w_ix := ix\<rparr>) None (set_row (w\<lparr>w_ix := ix\<rparr>) (account N w (w_ix w) ix s)))"

definition tagged_by :: "ienv \<Rightarrow> row \<Rightarrow> bytes option" where
  "tagged_by N t = (case decode_record (n_ce N) (n_Z N) (n_types N) ''hg/tag'' (w_fields t) (w_links t) of
       None \<Rightarrow> None
     | Some v \<Rightarrow> (case prop_of v ''on'' of
           JStr on \<Rightarrow> (case idBytes (n_ce N) (n_Z N) (IdText on) of Inl e \<Rightarrow> None | Inr b \<Rightarrow> Some b)
         | _ \<Rightarrow> None))"

definition retagged :: "ienv \<Rightarrow> row \<Rightarrow> indexer \<Rightarrow> indexer" where
  "retagged N t s = (case tagged_by N t of None \<Rightarrow> s | Some on \<Rightarrow> retag N on s)"

section \<open>The current version\<close>

datatype settled = Gone gone | Edited | Same

definition allowed_changes :: "ienv \<Rightarrow> row \<Rightarrow> change list \<Rightarrow> change list" where
  "allowed_changes N w cs = filter (\<lambda>c. mayChange (n_ce N) (n_Z N) (n_types N) (ch_kind c) (ch_type c) (ch_author c) (Some (ch_id c)) w (n_state N)) cs"

definition edited_row :: "ienv \<Rightarrow> row \<Rightarrow> change \<Rightarrow> indexer \<Rightarrow> row" where
  "edited_row N w best s =
     (let v = w\<lparr>w_vstamp := ch_stamp best, w_vdevice := ch_device best, w_fields := ch_fields best, w_links := ch_links best\<rparr>
      in v\<lparr>w_ix := ix_of N v (decode_row N v) s, w_flags := (w_flags w OR EDITED) AND NOT DROPPED\<rparr>)"

text \<open>\<open>isNew\<close> (\<open>fresh\<close> in the code): the row is not in the index yet, and is put there (or not) by the caller.\<close>

definition settle_row :: "ienv \<Rightarrow> row \<Rightarrow> change list \<Rightarrow> bool \<Rightarrow> indexer \<Rightarrow> settled \<times> row \<times> indexer" where
  "settle_row N w cs isNew s =
     (let okay = allowed_changes N w cs
      in case latest ch_version (filter (\<lambda>c. ch_kind c = DELETE) okay) of
           Some dl \<Rightarrow>
             let s1 = (if isNew then s else account N w (w_ix w) [] (drop_row (w_id w) s))
             in (Gone (byAuthor dl), w,
                 clears (w_id w # map ch_id (filter (\<lambda>c. ch_kind c = EDIT) (changes_of (w_id w) (i_changes s1)))) s1)
         | None \<Rightarrow>
             (case latest ch_version okay of
                None \<Rightarrow> (Same, w, s)
              | Some best \<Rightarrow>
                  if compare (ch_version best) (row_version w) > 0
                  then let v = edited_row N w best s
                       in (Edited, v, if isNew then s else account N v (w_ix w) (w_ix v) (set_row v s))
                  else (Same, w, s)))"

section \<open>One per member\<close>

definition superseded :: "row \<Rightarrow> bool" where
  "superseded w \<longleftrightarrow> w_flags w AND SUPERSEDED \<noteq> 0"

definition rival :: "row \<Rightarrow> row \<times> indexer \<Rightarrow> row \<times> indexer" where
  "rival other ws = (case ws of (w, s) \<Rightarrow>
     if w_id other = w_id w \<or> superseded other then (w, s)
     else if compare (put_version w) (put_version other) > 0 then (w, set_row (other\<lparr>w_flags := w_flags other OR SUPERSEDED\<rparr>) s)
     else (w\<lparr>w_flags := w_flags w OR SUPERSEDED\<rparr>, s))"

definition onePerMember :: "row \<Rightarrow> indexer \<Rightarrow> row \<times> indexer" where
  "onePerMember w s = fold rival (group_rows w (i_rows s)) (w, s)"

text \<open>A group lost a row: the latest of the others counts again.\<close>

definition regroup :: "row \<Rightarrow> indexer \<Rightarrow> indexer" where
  "regroup lost s =
     (let rows = filter (\<lambda>r. w_id r \<noteq> w_id lost) (group_rows lost (i_rows s));
          best = latest put_version rows
      in fold (\<lambda>r s. if superseded r = (map_option w_id best \<noteq> Some (w_id r)) then s
                     else set_row (r\<lparr>w_flags := w_flags r XOR SUPERSEDED\<rparr>) s) rows s)"

end
