(* ===== verification/Indexer.thy ===== *)
theory Indexer
  imports Index_Rows
begin

text \<open>
  What the indexer does with a block, a decision and a cut (lib/index/indexer.js): \<open>one\<close> indexes a record,
  \<open>moderate\<close> brings moderation to the rows, \<open>take_down\<close>, \<open>uncount\<close> and \<open>cut_log\<close> undo what no longer
  counts, \<open>resettle\<close> works a record's version out again, \<open>supersede\<close> keeps the latest of the personal
  space's records, \<open>drop_content\<close> and \<open>restore\<close> are content that is not held. Each is one transaction; the
  queue that runs them one at a time, the timers and the network are not modelled.
\<close>

section \<open>One block\<close>

definition record_id :: "ienv \<Rightarrow> dlog \<Rightarrow> nat \<Rightarrow> bytes" where
  "record_id N l seq = c_put (recordId (n_ce N)) \<lparr>r_log = g_key l, r_seq = seq\<rparr>"

text \<open>The id of the first rule of the app that a record breaks.\<close>

definition breaks :: "ienv \<Rightarrow> string \<Rightarrow> jsval option \<Rightarrow> bytes \<Rightarrow> dlog \<Rightarrow> nat \<Rightarrow> string option" where
  "breaks N name values i l stamp = (case values of
       None \<Rightarrow> None
     | Some v \<Rightarrow>
         if n_rules N = [] \<or> map_of (n_types N) name = None \<or> is_hg name then None
         else brokenRule (n_rules N)
           (JObj (spread (js_entries v) [(''id'', JStr (z_encode (n_Z N) i)), (''type'', JStr name),
              (''author'', JStr (z_encode (n_Z N) (g_identity l))), (''device'', JStr (z_encode (n_Z N) (g_device l))), (''stamp'', JNum (int stamp))]))
           (JObj [(''space'', JStr (z_encode (n_Z N) (n_space N)))]))"

definition one_change :: "ienv \<Rightarrow> dlog \<Rightarrow> lrec \<Rightarrow> bytes \<Rightarrow> jsval option \<Rightarrow> bytes \<Rightarrow> indexer \<Rightarrow> indexer" where
  "one_change N l r target values i s =
     (if isRemoved (n_state N) (hex target) then clears [i] s
      else if l_kind r = EDIT \<and> breaks N (l_type r) values target l (l_stamp r) \<noteq> None then (if g_own l then s else clears [i] s)
      else
        let c = \<lparr>ch_target = target, ch_id = i, ch_kind = l_kind r, ch_type = l_type r, ch_author = g_identity l, ch_device = g_device l,
                 ch_stamp = l_stamp r, ch_fields = l_fields r, ch_links = l_links r\<rparr>;
            s1 = s\<lparr>i_changes := put_change c (i_changes s), i_changeTargets := target # i_changeTargets s\<rparr>
        in case get_row target (i_rows s1) of
             None \<Rightarrow> if l_kind r = DELETE then s1\<lparr>i_wiped := i_wiped s1 @ [(target, Some (g_identity l))]\<rparr> else s1
           | Some w \<Rightarrow> (case settle_row N w [c] False s1 of
               (Same, v, s2) \<Rightarrow> s2
             | (Edited, v, s2) \<Rightarrow> noted v None s2
             | (Gone g, v, s2) \<Rightarrow> noted v (Some g) s2))"

text \<open>The personal space keeps the latest setting of a name, and the latest heads of a device.\<close>

definition LATEST_ONLY :: "string list" where "LATEST_ONLY = [''hg/setting'', ''hg/heads'']"

definition rivals_of :: "row \<Rightarrow> row list \<Rightarrow> row list" where
  "rivals_of w rows =
     (if w_type w = ''hg/setting'' then (case w_ix w of [] \<Rightarrow> filter (\<lambda>r. w_ix r \<noteq> []) (rows_of_type (w_type w) rows) | k # ks \<Rightarrow> rows_by_ix (w_type w) k rows)
      else filter (\<lambda>r. w_device r = w_device w) (rows_of_type (w_type w) rows))"

definition own_log :: "ienv \<Rightarrow> bytes \<Rightarrow> bool" where
  "own_log N key = (case n_logOf N key of None \<Rightarrow> False | Some l \<Rightarrow> g_own l)"

definition supersede :: "ienv \<Rightarrow> dlog \<Rightarrow> row \<Rightarrow> indexer \<Rightarrow> bool \<times> indexer" where
  "supersede N l w s =
     (let others = rivals_of w (i_rows s);
          newest = fold (\<lambda>o1 best. if compare (put_version o1) (put_version best) > 0 then o1 else best) others w;
          s1 = fold (\<lambda>o1 s. if o1 = newest \<or> w_id o1 = w_id w then s
                 else (if own_log N (w_log o1) then id else clears [w_id o1]) (account N o1 (w_ix o1) [] (drop_row (w_id o1) s))) others s
      in if newest = w then (False, s1) else (True, if g_own l then s1 else clears [w_id w] s1))"

definition new_row :: "ienv \<Rightarrow> dlog \<Rightarrow> nat \<Rightarrow> lrec \<Rightarrow> bool \<Rightarrow> jsval option \<Rightarrow> bytes \<Rightarrow> row" where
  "new_row N l seq r unread values i =
     (let decl = (if unread then None else map_of (n_types N) (l_type r));
          opm = (case decl of None \<Rightarrow> False | Some t \<Rightarrow> t_onePerMember t);
          on = (case decl of None \<Rightarrow> JUndef | Some t \<Rightarrow> (case (t_target t, values) of (Some f, Some v) \<Rightarrow> prop_of v f | _ \<Rightarrow> JUndef))
      in \<lparr>w_id = i, w_type = l_type r, w_author = g_identity l, w_device = g_device l, w_log = g_key l, w_seq = seq,
          w_stamp = l_stamp r, w_vstamp = l_stamp r, w_vdevice = g_device l, w_fields = l_fields r, w_links = l_links r,
          w_ix = ixKeys N (l_type r) values,
          w_flags = modFlags 0 (q_moderation (n_state N) (hex i)) OR (if unread then UNREADABLE else 0),
          w_opm = opm,
          w_target = (if opm then Some (case on of JStr t \<Rightarrow> (case idBytes (n_ce N) (n_Z N) (IdText t) of Inl e \<Rightarrow> [] | Inr b \<Rightarrow> b) | _ \<Rightarrow> []) else None)\<rparr>)"

text \<open>A record that counts is put in the index; a tag is then brought to its record.\<close>

definition insert_row :: "ienv \<Rightarrow> dlog \<Rightarrow> jsval option \<Rightarrow> row \<Rightarrow> indexer \<Rightarrow> indexer" where
  "insert_row N l values w s =
     (case (if w_opm w then onePerMember w s else (w, s)) of (w1, s1) \<Rightarrow>
        let (older, s2) = (if n_personal N \<and> w_type w1 \<in> set LATEST_ONLY then supersede N l w1 s1 else (False, s1))
        in if older then s2
           else
             let s3 = noted w1 None (account N w1 [] (w_ix w1) (set_row w1 s2))
             in if w_type w1 = ''hg/tag'' then
                  (case Option.bind values (\<lambda>v. case prop_of v ''on'' of JStr on \<Rightarrow> Some on | _ \<Rightarrow> None) of
                     None \<Rightarrow> s3
                   | Some on \<Rightarrow> (case idBytes (n_ce N) (n_Z N) (IdText on) of
                       Inl e \<Rightarrow> s3
                     | Inr b \<Rightarrow> retag N b (s3\<lparr>i_tagged := b # i_tagged s3\<rparr>)))
                else s3)"

definition one_put :: "ienv \<Rightarrow> dlog \<Rightarrow> nat \<Rightarrow> bool \<Rightarrow> lrec \<Rightarrow> bool \<Rightarrow> jsval option \<Rightarrow> bytes \<Rightarrow> indexer \<Rightarrow> indexer" where
  "one_put N l seq rescanned r unread values i s =
     (if (n_hadRecords N \<or> rescanned) \<and> get_row i (i_rows s) \<noteq> None then s
      else if isRemoved (n_state N) (hex i) then clears [i] s
      else if breaks N (l_type r) values i l (l_stamp r) \<noteq> None then (if g_own l then s else clears [i] s)
      else
        let w = new_row N l seq r unread values i;
            w1 = w\<lparr>w_ix := w_ix w @ tagKeys N w s\<rparr>;
            pending = (if n_hadChanges N \<or> i \<in> set (i_changeTargets s) then changes_of i (i_changes s) else [])
        in case (if pending = [] then (Same, w1, s) else settle_row N w1 pending True s) of
             (Gone g, v, s1) \<Rightarrow> noted v (Some g) s1
           | (_, v, s1) \<Rightarrow> insert_row N l values v s1)"

definition one :: "ienv \<Rightarrow> dlog \<Rightarrow> bool \<Rightarrow> nat \<Rightarrow> bytes \<Rightarrow> indexer \<Rightarrow> indexer" where
  "one N l rescanned seq bs s =
     (if \<not> enat seq < g_limit l then s
      else case checkRecord (n_ce N) (n_Z N) (n_types N) (Some (n_unseal N l seq)) bs of
          Refused why \<Rightarrow> s
        | Checked r unread values \<Rightarrow>
            let s1 = (if g_identity l = n_me N then s\<lparr>i_stamper := seen (l_stamp r) (i_stamper s)\<rparr> else s)
            in if \<not> n_allowed N l r values \<or> \<not> builtinValid r values then s1
               else
                 let s2 = (if l_type r = ''hg/device-remove''
                           then s1\<lparr>i_removals := i_removals s1 @ [(case values of None \<Rightarrow> JNull | Some v \<Rightarrow> v, g_identity l)]\<rparr> else s1);
                     i = record_id N l seq
                 in if l_kind r \<noteq> PUT
                    then (case l_target r of None \<Rightarrow> s2 | Some target \<Rightarrow> one_change N l r target values i s2)
                    else one_put N l seq rescanned r unread values i s2)"

section \<open>Undoing\<close>

text \<open>A record's current version, from its put and the changes left.\<close>

definition first_version :: "ienv \<Rightarrow> row \<Rightarrow> indexer \<Rightarrow> row" where
  "first_version N w s =
     (case (case n_logOf N (w_log w) of None \<Rightarrow> None | Some l \<Rightarrow> map_option (Pair l) (n_block N (w_log w) (w_seq w))) of
        Some (l, bs) \<Rightarrow>
          let (stamp, fs, ls) = (case decodeRecord (n_ce N) bs of
                Inl e \<Rightarrow> (w_stamp w, [], [])
              | Inr r \<Rightarrow> (case n_unseal N l (w_seq w) r of
                  Opened p \<Rightarrow> (l_stamp p, l_fields p, l_links p)
                | Unreadable p \<Rightarrow> (l_stamp p, l_fields p, l_links p)
                | _ \<Rightarrow> (w_stamp w, [], [])));
              v = w\<lparr>w_vstamp := stamp, w_vdevice := w_device w, w_fields := fs, w_links := ls\<rparr>
          in v\<lparr>w_ix := ix_of N v (decode_row N v) s, w_flags := w_flags w AND NOT EDITED\<rparr>
      | None \<Rightarrow>
          w\<lparr>w_vstamp := w_stamp w, w_vdevice := w_device w, w_fields := [], w_flags := (w_flags w OR DROPPED) AND NOT EDITED\<rparr>)"

definition resettle :: "ienv \<Rightarrow> row \<Rightarrow> indexer \<Rightarrow> gone option \<times> indexer" where
  "resettle N w s =
     (case settle_row N (first_version N w s) (changes_of (w_id w) (i_changes s)) True s of
        (Gone g, v, s1) \<Rightarrow> (Some g, account N v (w_ix w) [] (drop_row (w_id v) s1))
      | (_, v, s1) \<Rightarrow> (None, account N v (w_ix w) (w_ix v) (set_row v s1)))"

definition uncount :: "ienv \<Rightarrow> dlog \<Rightarrow> nat \<Rightarrow> indexer \<Rightarrow> indexer" where
  "uncount N l seq s =
     (let i = record_id N l seq
      in case get_row i (i_rows s) of
           Some w \<Rightarrow>
             let s1 = noted w (Some BySpace) (account N w (w_ix w) [] (drop_row i s));
                 s2 = (if w_opm w then regroup w s1 else s1)
             in if w_type w = ''hg/tag'' then retagged N w s2 else s2
         | None \<Rightarrow>
             (case find (\<lambda>c. ch_id c = i) (i_changes s) of
                None \<Rightarrow> s
              | Some c \<Rightarrow>
                  let s1 = s\<lparr>i_changes := filter (\<lambda>x. \<not> (ch_target x = ch_target c \<and> ch_id x = i)) (i_changes s)\<rparr>
                  in case get_row (ch_target c) (i_rows s1) of
                       None \<Rightarrow> s1
                     | Some w \<Rightarrow> (case resettle N w s1 of (g, s2) \<Rightarrow> noted w g s2)))"

text \<open>A log lost the right to write: what is from \<open>most\<close> on, of the blocks looked at, no longer counts.\<close>

definition cut_log :: "ienv \<Rightarrow> dlog \<Rightarrow> nat \<Rightarrow> nat \<Rightarrow> nat \<Rightarrow> indexer \<Rightarrow> indexer" where
  "cut_log N l first most fin s = fold (uncount N (l\<lparr>g_limit := enat most\<rparr>)) [max most (max (if first = 0 then 1 else first) 1)..<fin] s"

definition take_down :: "ienv \<Rightarrow> row \<Rightarrow> indexer \<Rightarrow> indexer" where
  "take_down N w s =
     (let s1 = noted w (Some BySpace) (account N w (w_ix w) [] (drop_row (w_id w) s));
          s2 = (if w_opm w then regroup w s1 else s1);
          s3 = (if w_type w = ''hg/tag'' then retagged N w s2 else s2)
      in clears (map ch_id (changes_of (w_id w) (i_changes s3))) s3)"

definition mod_sig :: "moderation \<Rightarrow> 8 word" where
  "mod_sig m = modFlags 0 m OR (if md_removed m then REMOVED else 0)"

definition moderate_one :: "ienv \<Rightarrow> string \<times> moderation \<Rightarrow> indexer \<Rightarrow> indexer" where
  "moderate_one N hm s = (case hm of (h, m) \<Rightarrow>
     let i = unhex h
     in if md_removed m then
          (let s1 = clears [i] s in case get_row i (i_rows s1) of None \<Rightarrow> s1 | Some w \<Rightarrow> take_down N w s1)
        else (case get_row i (i_rows s) of
            None \<Rightarrow> s
          | Some w \<Rightarrow>
              let flags = modFlags (w_flags w) m; v = w\<lparr>w_flags := flags\<rparr>
              in if flags = w_flags w then s
                 else let s1 = noted v None (set_row v s) in if w_type w = ''hg/tag'' then retagged N v s1 else s1))"

text \<open>\<open>hs\<close>: the records moderated, or of them those the new decisions name.\<close>

definition moderate :: "ienv \<Rightarrow> string list \<Rightarrow> indexer \<Rightarrow> indexer" where
  "moderate N hs s =
     (let todo = filter (\<lambda>(h, m). i_applied s h \<noteq> Some (mod_sig m))
            (concat (map (\<lambda>h. case s_moderated (own (n_state N)) h of None \<Rightarrow> [] | Some m \<Rightarrow> [(h, m)]) hs));
          s1 = fold (moderate_one N) todo s
      in fold (\<lambda>(h, m) s. s\<lparr>i_applied := (i_applied s)(h \<mapsto> mod_sig m),
           i_wiped := i_wiped s @ (if md_removed m then [(unhex h, None)] else [])\<rparr>) todo s1)"

text \<open>Rights over the types edited by a permission moved: their edits, and the tags of their records, are judged again.\<close>

definition shared_types :: "types \<Rightarrow> string list" where
  "shared_types T = map fst (filter (\<lambda>(n, t). case t_editable t of ByPermission p \<Rightarrow> True | _ \<Rightarrow> False) T)"

definition reauthorize :: "ienv \<Rightarrow> indexer \<Rightarrow> indexer" where
  "reauthorize N s =
     (let shared = set (shared_types (n_types N));
          targets = uniq (map ch_target (filter (\<lambda>c. ch_type c \<in> shared) (i_changes s)) @
                          concat (map (\<lambda>t. case tagged_by N t of None \<Rightarrow> [] | Some on \<Rightarrow> [on]) (rows_of_type ''hg/tag'' (i_rows s))))
      in fold (\<lambda>i s. case get_row i (i_rows s) of
             None \<Rightarrow> s
           | Some w \<Rightarrow> if w_type w \<notin> shared then s else (case resettle N w s of (g, s1) \<Rightarrow> noted w g s1)) targets s)"

section \<open>Content not held\<close>

text \<open>\<open>indexed\<close>: how far the log of each row is indexed.\<close>

definition drop_content :: "ienv \<Rightarrow> (bytes \<Rightarrow> nat) \<Rightarrow> bytes list \<Rightarrow> indexer \<Rightarrow> indexer" where
  "drop_content N indexed ids s = fold (\<lambda>i s.
     case get_row i (i_rows s) of
       None \<Rightarrow> s
     | Some w \<Rightarrow>
         if w_flags w AND DROPPED \<noteq> 0 then s
         else (case n_logOf N (w_log w) of
             None \<Rightarrow> s
           | Some l \<Rightarrow>
               if g_own l \<or> w_seq w \<ge> indexed (w_log w) then s
               else
                 let s1 = set_row (w\<lparr>w_fields := [], w_flags := (w_flags w OR DROPPED) AND NOT READ\<rparr>) s
                 in case n_block N (w_log w) (w_seq w) of
                      None \<Rightarrow> s1
                    | Some bs \<Rightarrow> clears [i] (s1\<lparr>i_dropped := (i_dropped s1)(w_log w :=
                        (fst (i_dropped s1 (w_log w)) + length bs, Suc (snd (i_dropped s1 (w_log w)))))\<rparr>))) ids s"

definition restore :: "ienv \<Rightarrow> bytes \<Rightarrow> bytes \<Rightarrow> bool \<Rightarrow> nat \<Rightarrow> indexer \<Rightarrow> row option \<times> indexer" where
  "restore N i fs read got s =
     (case get_row i (i_rows s) of
        None \<Rightarrow> (None, s)
      | Some w \<Rightarrow>
          if w_flags w AND DROPPED = 0 then (None, s)
          else
            let v = w\<lparr>w_fields := fs, w_flags := (w_flags w AND NOT DROPPED) OR (if read then READ else 0)\<rparr>;
                s1 = set_row v s
            in (Some v, if got = 0 \<or> n_logOf N (w_log w) = None then s1
                 else s1\<lparr>i_dropped := (i_dropped s1)(w_log w := (fst (i_dropped s1 (w_log w)) - got, snd (i_dropped s1 (w_log w)) - 1))\<rparr>))"

section \<open>A batch of blocks\<close>

text \<open>A missing block that its author deleted, or that was taken down.\<close>

definition wipedByAuthor :: "ienv \<Rightarrow> dlog \<Rightarrow> nat \<Rightarrow> indexer \<Rightarrow> bool" where
  "wipedByAuthor N l seq s =
     (if seq = 0 then False
      else if isRemoved (n_state N) (hex (record_id N l seq)) then True
      else list_ex (\<lambda>c. ch_kind c = DELETE \<and> ch_author c = g_identity l) (changes_of (record_id N l seq) (i_changes s)))"

definition unlimited :: "ienv \<Rightarrow> bytes \<Rightarrow> bool" where
  "unlimited N bs = (case decodeRecord (n_ce N) bs of
       Inl e \<Rightarrow> False
     | Inr r \<Rightarrow> l_kind r = DELETE \<or> l_type r \<in> {''hg/grant'', ''hg/key-link'', ''hg/device-remove''})"

definition stampOf :: "ienv \<Rightarrow> bytes \<Rightarrow> block_stamp" where
  "stampOf N bs = (case decodeRecord (n_ce N) bs of Inl e \<Rightarrow> Wiped | Inr r \<Rightarrow> Stamp (l_stamp r))"

definition BATCH :: nat where "BATCH = 256"

text \<open>Blocks that arrived below \<open>scanned\<close>: those that were holes and are held now, up to a batch; and what waits.\<close>

fun arrivals :: "ienv \<Rightarrow> dlog \<Rightarrow> nat list \<Rightarrow> nat list \<Rightarrow> (nat \<times> bytes) list \<Rightarrow> (nat \<times> bytes) list \<times> nat list" where
  "arrivals N l holes [] batch = (batch, [])"
| "arrivals N l holes (seq # seqs) batch =
     (if length batch \<ge> BATCH then (batch, seq # seqs)
      else arrivals N l holes seqs (batch @ (if seq \<in> set holes then (case n_block N (g_key l) seq of None \<Rightarrow> [] | Some bs \<Rightarrow> [(seq, bs)]) else [])))"

text \<open>The blocks of a log from \<open>scanned\<close> on, up to a batch of them: what is held, and the holes among them.\<close>

function gather :: "ienv \<Rightarrow> dlog \<Rightarrow> indexer \<Rightarrow> nat \<Rightarrow> (nat \<times> bytes) list \<Rightarrow> nat list \<Rightarrow> nat \<Rightarrow> (nat \<times> bytes) list \<times> nat list \<times> nat" where
  "gather N l s end_at batch holes scanned =
     (if length batch < BATCH \<and> scanned < end_at then
        (case n_block N (g_key l) scanned of
           Some bs \<Rightarrow> gather N l s end_at (batch @ [(scanned, bs)]) holes (Suc scanned)
         | None \<Rightarrow> gather N l s end_at batch (if wipedByAuthor N l scanned s then holes else holes @ [scanned]) (Suc scanned))
      else (batch, holes, scanned))"
  by pat_completeness auto
termination by (relation "measure (\<lambda>(N, l, s, e, b, h, n). e - n)") auto

declare gather.simps [simp del]

text \<open>Sealed records whose key is not held here stay holes.\<close>

definition lock_out :: "(bytes \<Rightarrow> bool) \<Rightarrow> (nat \<times> bytes) list \<Rightarrow> nat list \<Rightarrow> (nat \<times> bytes) list \<times> nat list" where
  "lock_out locked batch holes =
     (filter (\<lambda>(seq, bs). \<not> (seq > 0 \<and> locked bs)) batch,
      fold (\<lambda>(seq, bs) hs. if seq > 0 \<and> locked bs then (if seq \<in> set hs then hs else hs @ [seq]) else removeAll seq hs) (rev batch) holes)"

text \<open>Records beyond the write limit count for nobody; one that cannot be judged yet stays a hole. The last
  part: the records beyond it. A block that does not decode is stamped \<open>-1\<close> in the code, 0 here: with a period of at
  least 1 both are within the limit, or beyond it, alike.\<close>

definition limit_out :: "ienv \<Rightarrow> limit option \<Rightarrow> (nat \<Rightarrow> block_stamp) \<Rightarrow> (nat \<times> bytes) list \<Rightarrow> nat list \<Rightarrow> (nat \<times> bytes) list \<times> nat list \<times> nat list" where
  "limit_out N rate blk batch holes =
     fold (\<lambda>(seq, bs) (kept, hs, overs).
         if rate = None \<or> seq = 0 \<or> unlimited N bs then ((seq, bs) # kept, hs, overs)
         else (case judge seq (case stampOf N bs of Stamp t \<Rightarrow> t | _ \<Rightarrow> 0) rate blk of
                 Ok \<Rightarrow> ((seq, bs) # kept, hs, overs)
               | Wait \<Rightarrow> (kept, if seq \<in> set hs then hs else hs @ [seq], overs)
               | Over \<Rightarrow> (kept, removeAll seq hs, overs @ [seq])))
       (rev batch) ([], holes, [])"

definition index_batch :: "ienv \<Rightarrow> dlog \<Rightarrow> bool \<Rightarrow> (nat \<times> bytes) list \<Rightarrow> indexer \<Rightarrow> indexer" where
  "index_batch N l rescanned batch s = fold (\<lambda>(seq, bs). if seq > 0 then one N l rescanned seq bs else id) batch s"

end
