(* ===== verification/Index_Facts.thy ===== *)
theory Index_Facts
  imports Indexer "HOL-Library.Product_Lexorder"
begin

text \<open>
  Facts of the index that the proofs about the indexer share: the collections hold each key once, in order, so
  what they hold determines them; and how the tags of a record move when one tag row arrives.
\<close>

section \<open>The collections\<close>

abbreviation ids :: "row list \<Rightarrow> bytes list" where "ids rows \<equiv> map w_id rows"
abbreviation by_id :: "row list \<Rightarrow> bool" where "by_id rows \<equiv> sorted_wrt (<) (ids rows)"

lemma set_put_row: "by_id rows \<Longrightarrow> set (put_row w rows) = insert w {x \<in> set rows. w_id x \<noteq> w_id w}"
proof (induction rows)
  case (Cons x xs)
  then show ?case by (cases "w_id w = w_id x"; cases "w_id w < w_id x") auto
qed simp

lemma put_row_ids: "set (ids (put_row w rows)) = insert (w_id w) (set (ids rows))"
  by (induction rows) auto

lemma put_row_sorted: "by_id rows \<Longrightarrow> by_id (put_row w rows)"
proof (induction rows)
  case (Cons x xs)
  have "set (ids (put_row w xs)) = insert (w_id w) (set (ids xs))" by (rule put_row_ids)
  with Cons show ?case by (auto simp: image_iff dest: less_trans)
qed simp

lemma del_row_sorted: "by_id rows \<Longrightarrow> by_id (del_row i rows)"
  by (induction rows) (auto simp: del_row_def)

lemma by_id_distinct: "by_id rows \<Longrightarrow> distinct (ids rows)"
  by (simp add: strict_sorted_iff)

lemma get_row_mem: "by_id rows \<Longrightarrow> get_row i rows = Some w \<longleftrightarrow> w \<in> set rows \<and> w_id w = i"
  by (induction rows) (auto simp: get_row_def)

lemma get_row_id: "get_row i rows = Some w \<Longrightarrow> w_id w = i"
  unfolding get_row_def by (auto dest: find_SomeD)

lemma get_put_row: "by_id rows \<Longrightarrow> get_row i (put_row w rows) = (if i = w_id w then Some w else get_row i rows)"
proof (induction rows)
  case (Cons x xs)
  have "get_row (w_id w) (x # xs) = None" if "w_id w < w_id x"
    using Cons.prems that by (auto simp: get_row_def find_None_iff)
  with Cons show ?case by (auto simp: get_row_def)
qed (simp add: get_row_def)

lemma get_del_row: "get_row i (del_row j rows) = (if i = j then None else get_row i rows)"
  by (induction rows) (auto simp: get_row_def del_row_def find_None_iff)

lemma filter_put_row:
  "\<not> Q w \<Longrightarrow> (\<And>x. x \<in> set rows \<Longrightarrow> w_id x = w_id w \<Longrightarrow> \<not> Q x) \<Longrightarrow> filter Q (put_row w rows) = filter Q rows"
  by (induction rows) auto

lemma filter_del_row:
  "(\<And>x. x \<in> set rows \<Longrightarrow> w_id x = i \<Longrightarrow> \<not> Q x) \<Longrightarrow> filter Q (del_row i rows) = filter Q rows"
  by (induction rows) (auto simp: del_row_def)

lemma sorted_determined:
  fixes f :: "'a \<Rightarrow> 'b :: linorder"
  assumes "sorted_wrt (<) (map f a)" "sorted_wrt (<) (map f b)" "set a = set b"
  shows "a = b"
proof -
  have "map f a = map f b" using assms by (metis list.set_map strict_sorted_equal)
  moreover have "inj_on f (set a \<union> set b)" using assms(1,3) by (simp add: strict_sorted_iff distinct_map)
  ultimately show ?thesis using map_inj_on by metis
qed

lemma rows_determined:
  assumes "by_id a" "by_id b" "\<And>i. get_row i a = get_row i b"
  shows "a = b"
proof (rule sorted_determined [OF assms(1,2)])
  show "set a = set b" using assms(3) get_row_mem [OF assms(1)] get_row_mem [OF assms(2)] by (metis subsetI subset_antisym)
qed

definition ch_key :: "change \<Rightarrow> bytes \<times> bytes" where "ch_key c = (ch_target c, ch_id c)"
abbreviation by_key :: "change list \<Rightarrow> bool" where "by_key cs \<equiv> sorted_wrt (<) (map ch_key cs)"

lemma put_change_key:
  "put_change c (x # xs) = (if ch_key c = ch_key x then c # xs else if ch_key c < ch_key x then c # x # xs else x # put_change c xs)"
  by (auto simp: ch_key_def less_prod_def)

declare put_change.simps(2) [simp del] put_change_key [simp]

lemma set_put_change: "by_key cs \<Longrightarrow> set (put_change c cs) = insert c {x \<in> set cs. ch_key x \<noteq> ch_key c}"
proof (induction cs)
  case (Cons x xs)
  then show ?case by (cases "ch_key c = ch_key x"; cases "ch_key c < ch_key x") auto
qed simp

lemma put_change_keys: "set (map ch_key (put_change c cs)) = insert (ch_key c) (set (map ch_key cs))"
  by (induction cs) auto

lemma put_change_sorted: "by_key cs \<Longrightarrow> by_key (put_change c cs)"
proof (induction cs)
  case (Cons x xs)
  have "set (map ch_key (put_change c xs)) = insert (ch_key c) (set (map ch_key xs))" by (rule put_change_keys)
  with Cons show ?case by (auto simp: image_iff dest: less_trans)
qed simp

section \<open>Tags\<close>

definition on_tags :: "ienv \<Rightarrow> row list \<Rightarrow> string list" where
  "on_tags N ts = sort (map (\<lambda>(tag, t, off). tagKey tag) (filter (\<lambda>(tag, t, off). \<not> off) (fold (best_tag N) ts [])))"

definition tags_among :: "ienv \<Rightarrow> row \<Rightarrow> row list \<Rightarrow> row list" where
  "tags_among N w rows = filter (tags_row N w) (rows_linking (w_id w) ''hg/tag'' rows)"

definition alltags :: "ienv \<Rightarrow> row \<Rightarrow> row list \<Rightarrow> string list" where
  "alltags N w rows = (if is_hg (w_type w) then [] else on_tags N (tags_among N w rows))"

definition tag_step :: "ienv \<Rightarrow> string \<Rightarrow> row \<Rightarrow> (row \<times> bool) option \<Rightarrow> (row \<times> bool) option" where
  "tag_step N k t m = (case tag_of N t of None \<Rightarrow> m | Some (on, tag, off) \<Rightarrow>
     if tag \<noteq> k then m else (case m of None \<Rightarrow> Some (t, off)
       | Some (b, o1) \<Rightarrow> if compare (put_version t) (put_version b) > 0 then Some (t, off) else m))"

lemma map_of_replace: "map_of (map (\<lambda>e. if fst e = k then (k, v) else e) xs) j = (if j = k \<and> map_of xs k \<noteq> None then Some v else map_of xs j)"
  by (induction xs) auto

lemma best_tag_map: "map_of (best_tag N t best) k = tag_step N k t (map_of best k)"
  by (auto simp: tag_step_def map_of_replace map_add_def split: option.split)

lemma replace_keys: "map (fst \<circ> (\<lambda>e. if fst e = k then (k, v) else e)) xs = map fst xs"
  by (induction xs) auto

lemma best_tag_distinct: "distinct (map fst best) \<Longrightarrow> distinct (map fst (best_tag N t best))"
  by (auto simp: map_of_eq_None_iff replace_keys split: option.split prod.split)

declare best_tag.simps [simp del]

lemma best_tags_map: "map_of (fold (best_tag N) ts best) k = fold (tag_step N k) ts (map_of best k)"
  by (induction ts arbitrary: best) (simp_all add: best_tag_map)

lemma best_tags_distinct: "distinct (map fst best) \<Longrightarrow> distinct (map fst (fold (best_tag N) ts best))"
  by (induction ts arbitrary: best) (simp_all add: best_tag_distinct)

definition tags_on :: "ienv \<Rightarrow> row list \<Rightarrow> string set" where
  "tags_on N ts = {k. \<exists>t. fold (tag_step N k) ts None = Some (t, False)}"

lemma inj_tagKey: "inj tagKey"
  by (auto simp: inj_def tagKey_def)

lemma on_tags_facts:
  shows "set (on_tags N ts) = tagKey ` tags_on N ts" "distinct (on_tags N ts)" "sorted (on_tags N ts)" "finite (tags_on N ts)"
proof -
  let ?f = "fold (best_tag N) ts []"
  have d: "distinct (map fst ?f)" by (rule best_tags_distinct) simp
  have keys: "fst ` set (filter (\<lambda>(tag, t, off). \<not> off) ?f) = tags_on N ts"
  proof -
    have "(k, t, False) \<in> set ?f \<longleftrightarrow> fold (tag_step N k) ts None = Some (t, False)" for k t
      using d by (simp add: map_of_eq_Some_iff [symmetric] best_tags_map)
    then show ?thesis by (force simp: tags_on_def image_iff)
  qed
  then show "finite (tags_on N ts)" by (metis List.finite_set finite_imageI)
  have "map (\<lambda>(tag, t, off). tagKey tag) xs = map tagKey (map fst xs)" for xs :: "(string \<times> row \<times> bool) list" by auto
  then have e: "on_tags N ts = sort (map tagKey (map fst (filter (\<lambda>(tag, t, off). \<not> off) ?f)))" by (simp only: on_tags_def)
  show "set (on_tags N ts) = tagKey ` tags_on N ts" unfolding e using keys by (simp add: image_image [symmetric])
  have "distinct (map fst (filter (\<lambda>(tag, t, off). \<not> off) ?f))" using d by (rule distinct_map_filter)
  then show "distinct (on_tags N ts)" unfolding e by (simp only: distinct_sort distinct_map) (metis inj_tagKey inj_on_subset subset_UNIV)
  show "sorted (on_tags N ts)" by (simp add: on_tags_def)
qed

lemma on_tags_same: "tags_on N ts = tags_on N us \<Longrightarrow> on_tags N ts = on_tags N us"
  using on_tags_facts [of N ts] on_tags_facts [of N us] by (metis sorted_distinct_set_unique)

text \<open>One more tag row moves at most the tag it names, so the keys joined tell the two lists apart.\<close>

definition weight :: "string list \<Rightarrow> nat" where "weight xs = sum_list (map (\<lambda>x. Suc (length x)) xs)"

lemma length_join: "length (join [c] xs) = weight xs - 1"
proof (induction xs)
  case (Cons x xs)
  then show ?case by (cases xs) (auto simp: weight_def)
qed (simp add: weight_def)

lemma weight_tags: "weight (on_tags N ts) = (\<Sum>k\<in>tags_on N ts. length k + 3)"
proof -
  have "weight (on_tags N ts) = (\<Sum>x\<in>set (on_tags N ts). Suc (length x))"
    using on_tags_facts(2) by (simp add: weight_def sum.distinct_set_conv_list)
  also have "\<dots> = (\<Sum>k\<in>tags_on N ts. Suc (length (tagKey k)))"
    unfolding on_tags_facts(1) by (subst sum.reindex) (auto intro: inj_on_subset [OF inj_tagKey])
  finally show ?thesis by (simp add: tagKey_def NUL_def eval_nat_numeral)
qed

lemma tag_step_other: "tag_of N t = Some (on, k, off) \<Longrightarrow> j \<noteq> k \<Longrightarrow> tag_step N j t m = m"
  by (simp add: tag_step_def)

lemma tags_joined:
  assumes t: "tag_of N t = Some (on, k, off)"
    and j: "join [c] (a @ on_tags N (xs @ t # ys)) = join [c] (a @ on_tags N (xs @ ys))"
  shows "on_tags N (xs @ t # ys) = on_tags N (xs @ ys)"
proof -
  let ?A = "tags_on N (xs @ t # ys)" and ?B = "tags_on N (xs @ ys)"
  have same: "x \<in> ?A \<longleftrightarrow> x \<in> ?B" if "x \<noteq> k" for x
  proof -
    have "tag_step N x t m = m" for m using t that by (rule tag_step_other)
    then show ?thesis by (simp only: tags_on_def mem_Collect_eq fold_append fold_Cons comp_apply id_apply)
  qed
  have w: "weight (a @ on_tags N (xs @ t # ys)) - 1 = weight (a @ on_tags N (xs @ ys)) - 1"
    using arg_cong [OF j, of length] by (simp only: length_join)
  have add: "weight (us @ vs) = weight us + weight vs" for us vs by (simp add: weight_def)
  have fin: "finite ?A" "finite ?B" by (rule on_tags_facts(4))+
  have "k \<in> ?A \<longleftrightarrow> k \<in> ?B"
  proof (rule ccontr)
    assume d: "\<not> (k \<in> ?A \<longleftrightarrow> k \<in> ?B)"
    show False
    proof (cases "k \<in> ?A")
      case True
      with d have n: "k \<notin> ?B" by simp
      have "?A = insert k ?B"
      proof (rule set_eqI)
        show "x \<in> ?A \<longleftrightarrow> x \<in> insert k ?B" for x using same [of x] True by (cases "x = k") auto
      qed
      note n = this n
      have "weight (on_tags N (xs @ t # ys)) = length k + 3 + weight (on_tags N (xs @ ys))"
        using fin(2) n by (simp add: weight_tags)
      with w show False by (simp add: add)
    next
      case False
      with d have "k \<in> ?B" by simp
      have "?B = insert k ?A"
      proof (rule set_eqI)
        show "x \<in> ?B \<longleftrightarrow> x \<in> insert k ?A" for x using same [of x] \<open>k \<in> ?B\<close> by (cases "x = k") auto
      qed
      note n = this False
      have "weight (on_tags N (xs @ ys)) = length k + 3 + weight (on_tags N (xs @ t # ys))"
        using fin(1) n by (simp add: weight_tags)
      with w show False by (simp add: add)
    qed
  qed
  have "?A = ?B"
  proof (rule set_eqI)
    show "x \<in> ?A \<longleftrightarrow> x \<in> ?B" for x using same [of x] \<open>k \<in> ?A \<longleftrightarrow> k \<in> ?B\<close> by (cases "x = k") simp_all
  qed
  then show ?thesis by (rule on_tags_same)
qed

lemma tags_row_cong: "w_id a = w_id b \<Longrightarrow> w_type a = w_type b \<Longrightarrow> w_author a = w_author b \<Longrightarrow> tags_row N a = tags_row N b"
proof -
  assume e: "w_id a = w_id b" "w_type a = w_type b" "w_author a = w_author b"
  have "tags_row N a t = tags_row N b t" for t
    unfolding tags_row_def e(1) by (simp only: mayEdit_cong [OF e(3,2)])
  then show ?thesis by blast
qed

lemma alltags_cong: "w_id a = w_id b \<Longrightarrow> w_type a = w_type b \<Longrightarrow> w_author a = w_author b \<Longrightarrow> alltags N a rows = alltags N b rows"
proof -
  assume e: "w_id a = w_id b" "w_type a = w_type b" "w_author a = w_author b"
  have "tags_row N a = tags_row N b" by (rule tags_row_cong [OF e])
  then show ?thesis by (simp only: alltags_def tags_among_def e)
qed

lemma linking_put: "w_type w \<noteq> n \<Longrightarrow> (\<And>x. x \<in> set rows \<Longrightarrow> w_id x = w_id w \<Longrightarrow> w_type x \<noteq> n) \<Longrightarrow>
    rows_linking i n (put_row w rows) = rows_linking i n rows"
  unfolding rows_linking_def by (subst filter_put_row) auto

lemma linking_del: "(\<And>x. x \<in> set rows \<Longrightarrow> w_id x = j \<Longrightarrow> w_type x \<noteq> n) \<Longrightarrow> rows_linking i n (del_row j rows) = rows_linking i n rows"
  unfolding rows_linking_def by (subst filter_del_row) auto

lemma alltags_put: "w_type w \<noteq> ''hg/tag'' \<Longrightarrow> (\<And>x. x \<in> set rows \<Longrightarrow> w_id x = w_id w \<Longrightarrow> w_type x \<noteq> ''hg/tag'') \<Longrightarrow>
    alltags N v (put_row w rows) = alltags N v rows"
  by (simp add: alltags_def tags_among_def linking_put)

lemma alltags_del: "(\<And>x. x \<in> set rows \<Longrightarrow> w_id x = j \<Longrightarrow> w_type x \<noteq> ''hg/tag'') \<Longrightarrow> alltags N v (del_row j rows) = alltags N v rows"
  by (simp add: alltags_def tags_among_def linking_del)

text \<open>The records tagged since opening are known, so the search that is skipped would find nothing.\<close>

definition tagged_known :: "ienv \<Rightarrow> row list \<Rightarrow> bytes list \<Rightarrow> bool" where
  "tagged_known N rows tagged \<longleftrightarrow>
     (\<forall>t\<in>set rows. \<forall>on tag off. w_type t = ''hg/tag'' \<longrightarrow> tag_of N t = Some (on, tag, off) \<longrightarrow> on \<in> set tagged)"

lemma tagKeys_alltags:
  assumes "tagged_known N (i_rows s) (i_tagged s)"
  shows "tagKeys N w s = alltags N w (i_rows s)"
proof -
  have "tags_among N w (i_rows s) = []" if "w_id w \<notin> set (i_tagged s)"
    using assms that unfolding tags_among_def rows_linking_def filter_empty_conv tagged_known_def tags_row_def
    by (auto split: option.splits)
  then show ?thesis by (auto simp: tagKeys_def alltags_def on_tags_def tags_among_def)
qed

lemma insort_split: "\<exists>xs ys. insort_key f t l = xs @ t # ys \<and> l = xs @ ys"
proof (induction l)
  case (Cons x l)
  then obtain xs ys where "insort_key f t l = xs @ t # ys" "l = xs @ ys" by blast
  then show ?case
    by (cases "f t \<le> f x") (auto intro: exI [of _ "[]"] exI [of _ "x # xs"])
qed simp

lemma insort_between: "sorted (map f (xs @ t # ys)) \<Longrightarrow> \<exists>us vs. insort_key f a (xs @ t # ys) = us @ t # vs \<and> insort_key f a (xs @ ys) = us @ vs"
proof (induction xs)
  case Nil
  show ?case
  proof (cases "f a \<le> f t")
    case True
    with Nil have "insort_key f a ys = a # ys" by (cases ys) auto
    with True show ?thesis by (intro exI [of _ "[a]"] exI [of _ ys]) simp
  next
    case False
    then show ?thesis by (intro exI [of _ "[]"] exI [of _ "insort_key f a ys"]) simp
  qed
next
  case (Cons x xs)
  then obtain us vs where "insort_key f a (xs @ t # ys) = us @ t # vs" "insort_key f a (xs @ ys) = us @ vs" by auto
  then show ?case
    by (cases "f a \<le> f x") (auto intro: exI [of _ "a # x # xs"] exI [of _ "x # us"])
qed

lemma sort_split: "\<exists>xs ys. sort_key f (as @ t # bs) = xs @ t # ys \<and> sort_key f (as @ bs) = xs @ ys"
proof (induction as)
  case Nil
  show ?case using insort_split [of f t "sort_key f bs"] by simp
next
  case (Cons a as)
  then obtain xs ys where s: "sort_key f (as @ t # bs) = xs @ t # ys" "sort_key f (as @ bs) = xs @ ys" by blast
  have "sorted (map f (xs @ t # ys))" using sorted_sort_key [of f "as @ t # bs"] s(1) by simp
  from insort_between [OF this, of a] s show ?case by simp
qed

lemma put_new_split: "w_id t \<notin> set (ids rows) \<Longrightarrow> \<exists>as bs. put_row t rows = as @ t # bs \<and> rows = as @ bs"
proof (induction rows)
  case (Cons x rows)
  then obtain as bs where "put_row t rows = as @ t # bs" "rows = as @ bs" by auto
  with Cons.prems show ?case
    by (cases "w_id t < w_id x") (auto intro: exI [of _ "[]"] exI [of _ "x # as"])
qed simp

text \<open>A tag row that arrives: the keys of a record stay, or are those with one more tag row, on that record.\<close>

lemma alltags_tag:
  assumes "w_id t \<notin> set (ids rows)"
  shows "alltags N w (put_row t rows) = alltags N w rows \<or>
    (\<exists>xs ys k off. tag_of N t = Some (w_id w, k, off) \<and> alltags N w (put_row t rows) = on_tags N (xs @ t # ys) \<and>
       alltags N w rows = on_tags N (xs @ ys))"
proof -
  let ?f = "\<lambda>x. w_id w \<in> set (w_links x) \<and> w_type x = ''hg/tag''"
  obtain as bs where r: "put_row t rows = as @ t # bs" "rows = as @ bs" using put_new_split [OF assms] by blast
  show ?thesis
  proof (cases "?f t \<and> tags_row N w t \<and> \<not> is_hg (w_type w)")
    case True
    then obtain k off where k: "tag_of N t = Some (w_id w, k, off)"
      by (auto simp: tags_row_def split: option.splits prod.splits)
    obtain xs ys where s: "sort_key w_stamp (filter ?f as @ t # filter ?f bs) = xs @ t # ys"
      "sort_key w_stamp (filter ?f as @ filter ?f bs) = xs @ ys" using sort_split [of w_stamp "filter ?f as" t "filter ?f bs"] by (elim exE conjE)
    have "filter ?f (put_row t rows) = filter ?f as @ t # filter ?f bs"
      unfolding r(1) using conjunct1 [OF True] by simp
    moreover have "filter ?f rows = filter ?f as @ filter ?f bs" unfolding r(2) by (rule filter_append)
    ultimately have "tags_among N w (put_row t rows) = filter (tags_row N w) (xs @ t # ys)"
      "tags_among N w rows = filter (tags_row N w) (xs @ ys)"
      by (simp_all only: tags_among_def rows_linking_def s)
    then have "tags_among N w (put_row t rows) = filter (tags_row N w) xs @ t # filter (tags_row N w) ys"
      "tags_among N w rows = filter (tags_row N w) xs @ filter (tags_row N w) ys"
      using True by (simp_all only: filter_append filter.simps if_True)
    then have "alltags N w (put_row t rows) = on_tags N (filter (tags_row N w) xs @ t # filter (tags_row N w) ys)"
      "alltags N w rows = on_tags N (filter (tags_row N w) xs @ filter (tags_row N w) ys)"
      using True by (simp_all only: alltags_def if_False)
    with k show ?thesis by blast
  next
    case False
    then consider "is_hg (w_type w)" | "\<not> ?f t" | "\<not> tags_row N w t" by blast
    then have "alltags N w (put_row t rows) = alltags N w rows"
    proof cases
      case 2
      then have "filter ?f (put_row t rows) = filter ?f rows" unfolding r(1) unfolding r(2) by simp
      then show ?thesis by (simp only: alltags_def tags_among_def rows_linking_def)
    next
      case 3
      then have "filter (tags_row N w) (filter ?f (put_row t rows)) = filter (tags_row N w) (filter ?f rows)"
        unfolding r(1) unfolding r(2) by simp
      then show ?thesis by (simp only: alltags_def tags_among_def rows_linking_def filter_sort)
    qed (simp add: alltags_def)
    then show ?thesis ..
  qed
qed

end
