(* ===== verification/Arrival.thy ===== *)
theory Arrival
  imports Index_Facts
begin

text \<open>
  The order in which blocks arrive does not matter. What a block is to the index is its \<open>effect\<close>, a row or a
  change, worked out from the block alone; what the index shows of a record once some blocks were indexed is
  said of their effects (\<open>shown\<close>, \<open>deleted_in\<close>), and \<open>one\<close> keeps it so (\<open>holds_in\<close>).
\<close>

section \<open>What the blocks say\<close>

datatype effect = Skipped | Putting row "jsval option" | Changing change

definition effect_of :: "ienv \<Rightarrow> dlog \<times> nat \<times> bytes \<Rightarrow> effect" where
  "effect_of N = (\<lambda>(l, seq, bs).
     if \<not> enat seq < g_limit l then Skipped
     else case checkRecord (n_ce N) (n_Z N) (n_types N) (Some (n_unseal N l seq)) bs of
          Refused why \<Rightarrow> Skipped
        | Checked r unread values \<Rightarrow>
            let i = record_id N l seq
            in if \<not> n_allowed N l r values \<or> \<not> builtinValid r values then Skipped
               else if l_kind r \<noteq> PUT then
                 (case l_target r of
                    None \<Rightarrow> Skipped
                  | Some target \<Rightarrow>
                      if isRemoved (n_state N) (hex target) \<or> l_kind r = EDIT \<and> breaks N (l_type r) values target l (l_stamp r) \<noteq> None then Skipped
                      else Changing \<lparr>ch_target = target, ch_id = i, ch_kind = l_kind r, ch_type = l_type r, ch_author = g_identity l,
                             ch_device = g_device l, ch_stamp = l_stamp r, ch_fields = l_fields r, ch_links = l_links r\<rparr>)
               else if isRemoved (n_state N) (hex i) \<or> breaks N (l_type r) values i l (l_stamp r) \<noteq> None then Skipped
               else Putting (new_row N l seq r unread values i) values)"

definition puts :: "effect list \<Rightarrow> row list" where
  "puts es = concat (map (\<lambda>e. case e of Putting w values \<Rightarrow> [w] | _ \<Rightarrow> []) es)"

definition chs :: "effect list \<Rightarrow> change list" where
  "chs es = concat (map (\<lambda>e. case e of Changing c \<Rightarrow> [c] | _ \<Rightarrow> []) es)"

definition edits_in :: "ienv \<Rightarrow> effect list \<Rightarrow> row \<Rightarrow> change list" where
  "edits_in N es w = allowed_changes N w (changes_of (w_id w) (chs es))"

definition deleted_in :: "ienv \<Rightarrow> effect list \<Rightarrow> row \<Rightarrow> bool" where
  "deleted_in N es w \<longleftrightarrow> list_ex (\<lambda>c. ch_kind c = DELETE) (edits_in N es w)"

definition edited :: "row \<Rightarrow> change \<Rightarrow> row" where
  "edited w c = w\<lparr>w_vstamp := ch_stamp c, w_vdevice := ch_device c, w_fields := ch_fields c, w_links := ch_links c,
     w_flags := (w_flags w OR EDITED) AND NOT DROPPED\<rparr>"

definition version_in :: "ienv \<Rightarrow> effect list \<Rightarrow> row \<Rightarrow> row" where
  "version_in N es w = (case latest ch_version (edits_in N es w) of
       None \<Rightarrow> w
     | Some c \<Rightarrow> if compare (ch_version c) (row_version w) > 0 then edited w c else w)"

definition outdone :: "effect list \<Rightarrow> row \<Rightarrow> bool" where
  "outdone es w \<longleftrightarrow> w_opm w \<and> list_ex (\<lambda>x. w_opm x \<and> same_group x w \<and> compare (put_version x) (put_version w) > 0) (puts es)"

definition bare :: "row \<Rightarrow> row" where "bare w = w\<lparr>w_ix := []\<rparr>"

definition shown :: "ienv \<Rightarrow> effect list \<Rightarrow> row \<Rightarrow> row" where
  "shown N es w = bare ((version_in N es w)\<lparr>w_flags := w_flags (version_in N es w) OR (if outdone es w then SUPERSEDED else 0)\<rparr>)"

text \<open>The put of a record, unless it was deleted.\<close>

definition put_in :: "ienv \<Rightarrow> effect list \<Rightarrow> bytes \<Rightarrow> row option" where
  "put_in N es i = find (\<lambda>w. w_id w = i \<and> \<not> deleted_in N es w) (puts es)"

text \<open>A row as it is put: its version is the put's, and its keys those of its fields.\<close>

definition as_put :: "ienv \<Rightarrow> row \<Rightarrow> bool" where
  "as_put N w \<longleftrightarrow> row_version w = put_version w \<and> \<not> superseded w \<and> w_ix w = ixKeys N (w_type w) (decode_row N w) \<and>
     (w_type w = ''hg/tag'' \<longrightarrow> \<not> w_opm w)"

text \<open>No device stamped two changes, or two records of a group, alike; and no record of a one-per-member type that was
  deleted is later than another of its group: that one stays superseded or not as the blocks came.\<close>

definition no_ties :: "effect list \<Rightarrow> bool" where
  "no_ties es \<longleftrightarrow> inj_on ch_version (set (chs es)) \<and>
     (\<forall>a\<in>set (puts es). \<forall>b\<in>set (puts es). w_opm a \<and> w_opm b \<and> same_group a b \<and> put_version a = put_version b \<longrightarrow> a = b)"

definition no_later_vote_deleted :: "ienv \<Rightarrow> effect list \<Rightarrow> bool" where
  "no_later_vote_deleted N es \<longleftrightarrow> (\<forall>w\<in>set (puts es). w_opm w \<and> deleted_in N es w \<longrightarrow>
     (\<forall>x\<in>set (puts es). w_opm x \<and> same_group w x \<longrightarrow> \<not> compare (put_version w) (put_version x) > 0))"

definition told_well :: "ienv \<Rightarrow> effect list \<Rightarrow> bool" where
  "told_well N es \<longleftrightarrow> distinct (ids (puts es)) \<and> distinct (map ch_id (chs es)) \<and> no_ties es \<and> no_later_vote_deleted N es \<and>
     (\<forall>w\<in>set (puts es). as_put N w) \<and>
     (\<forall>w values. Putting w values \<in> set es \<longrightarrow> w_type w = ''hg/tag'' \<longrightarrow> values = decode_row N w) \<and>
     (\<forall>c\<in>set (chs es). ch_type c \<noteq> ''hg/tag'')"

section \<open>Facts of the effects\<close>

lemma puts_simps [simp]:
  "puts [] = []" "puts (es @ fs) = puts es @ puts fs" "puts (Skipped # es) = puts es" "puts (Putting w v # es) = w # puts es"
  "puts (Changing c # es) = puts es"
  by (simp_all add: puts_def)

lemma chs_simps [simp]:
  "chs [] = []" "chs (es @ fs) = chs es @ chs fs" "chs (Skipped # es) = chs es" "chs (Putting w v # es) = chs es"
  "chs (Changing c # es) = c # chs es"
  by (simp_all add: chs_def)

lemma deleted_grows: "deleted_in N es w \<Longrightarrow> deleted_in N (es @ fs) w"
  by (simp add: deleted_in_def edits_in_def allowed_changes_def changes_of_def)

lemma told_well_take: "told_well N (es @ fs) \<Longrightarrow> told_well N es"
  by (auto simp: told_well_def no_ties_def no_later_vote_deleted_def intro: inj_on_subset deleted_grows)

lemma edits_snoc:
  "edits_in N (es @ [Putting x v]) w = edits_in N es w"
  "edits_in N (es @ [Skipped]) w = edits_in N es w"
  "edits_in N (es @ [Changing c]) w = edits_in N es w @ (if ch_target c = w_id w then allowed_changes N w [c] else [])"
  by (simp_all add: edits_in_def changes_of_def allowed_changes_def)

lemma allowed_cong: "w_author a = w_author b \<Longrightarrow> w_type a = w_type b \<Longrightarrow> allowed_changes N a cs = allowed_changes N b cs"
  unfolding allowed_changes_def using mayChange_cong [of a b] by (intro filter_cong refl) blast

lemma bare_simps [simp]:
  "w_id (bare w) = w_id w" "w_type (bare w) = w_type w" "w_author (bare w) = w_author w" "w_device (bare w) = w_device w"
  "w_stamp (bare w) = w_stamp w" "w_vstamp (bare w) = w_vstamp w" "w_vdevice (bare w) = w_vdevice w"
  "w_fields (bare w) = w_fields w" "w_links (bare w) = w_links w" "w_flags (bare w) = w_flags w" "w_opm (bare w) = w_opm w"
  "w_target (bare w) = w_target w" "bare (w\<lparr>w_ix := ix\<rparr>) = bare w" "bare (bare w) = bare w" "w_log (bare w) = w_log w"
  by (simp_all add: bare_def)

lemma edited_simps [simp]:
  "w_id (edited w c) = w_id w" "w_type (edited w c) = w_type w" "w_author (edited w c) = w_author w" "w_device (edited w c) = w_device w"
  "w_stamp (edited w c) = w_stamp w" "w_opm (edited w c) = w_opm w" "w_target (edited w c) = w_target w" "w_ix (edited w c) = w_ix w"
  "w_log (edited w c) = w_log w" "row_version (edited w c) = ch_version c"
  by (simp_all add: edited_def row_version_def ch_version_def)

lemma version_simps [simp]:
  "w_id (version_in N es w) = w_id w" "w_type (version_in N es w) = w_type w" "w_author (version_in N es w) = w_author w"
  "w_device (version_in N es w) = w_device w" "w_stamp (version_in N es w) = w_stamp w" "w_opm (version_in N es w) = w_opm w"
  "w_target (version_in N es w) = w_target w" "w_ix (version_in N es w) = w_ix w" "w_log (version_in N es w) = w_log w"
  by (auto simp: version_in_def split: option.split)

lemma shown_simps [simp]:
  "w_id (shown N es w) = w_id w" "w_type (shown N es w) = w_type w" "w_author (shown N es w) = w_author w"
  "w_device (shown N es w) = w_device w" "w_stamp (shown N es w) = w_stamp w" "w_opm (shown N es w) = w_opm w"
  "w_target (shown N es w) = w_target w" "row_version (shown N es w) = row_version (version_in N es w)" "w_log (shown N es w) = w_log w"
  by (simp_all add: shown_def row_version_def)

lemma put_version_bare [simp]: "put_version (bare w) = put_version w" "row_version (bare w) = row_version w" "same_group (bare a) b = same_group a b"
  by (simp_all add: put_version_def row_version_def same_group_def)

lemma bareD:
  assumes "bare v = shown N es w"
  shows "w_id v = w_id w" "w_type v = w_type w" "w_author v = w_author w" "w_opm v = w_opm w" "w_target v = w_target w"
    "row_version v = row_version (version_in N es w)" "put_version v = put_version w"
  using arg_cong [OF assms, of w_id] arg_cong [OF assms, of w_type] arg_cong [OF assms, of w_author] arg_cong [OF assms, of w_opm]
    arg_cong [OF assms, of w_target] arg_cong [OF assms, of row_version] arg_cong [OF assms, of put_version]
  by (simp_all add: put_version_def)

lemma latest_snoc: "latest key (xs @ [v]) = (case latest key xs of None \<Rightarrow> Some v
    | Some b \<Rightarrow> if compare (key v) (key b) > 0 then Some v else Some b)"
  by (simp add: latest_def)

lemma latest_single [simp]: "latest key [v] = Some v"
  by (simp add: latest_def)

lemma latest_set: "inj_on key (set xs) \<Longrightarrow> set ys = set xs \<Longrightarrow> latest key ys = latest key xs"
proof (cases "latest key xs")
  case None
  then show "inj_on key (set xs) \<Longrightarrow> set ys = set xs \<Longrightarrow> latest key ys = latest key xs" by simp
next
  case (Some x)
  then show "inj_on key (set xs) \<Longrightarrow> set ys = set xs \<Longrightarrow> latest key ys = latest key xs"
    using latest_unique [of key xs x] latest_unique [of key ys x] by simp
qed

lemma flags_again: "((f OR EDITED) AND NOT DROPPED OR EDITED) AND NOT DROPPED = (f OR EDITED) AND NOT DROPPED" for f :: "8 word"
  by (rule bit_word_eqI) (auto simp: bit_simps)

lemma flags_swap: "((f OR EDITED) AND NOT DROPPED) OR SUPERSEDED = ((f OR SUPERSEDED) OR EDITED) AND NOT DROPPED"
proof -
  have "SUPERSEDED = SUPERSEDED AND NOT DROPPED" by (simp add: SUPERSEDED_def DROPPED_def)
  then have "((f OR EDITED) AND NOT DROPPED) OR SUPERSEDED = ((f OR EDITED) AND NOT DROPPED) OR (SUPERSEDED AND NOT DROPPED)"
    by (rule arg_cong)
  also have "\<dots> = ((f OR EDITED) OR SUPERSEDED) AND NOT DROPPED" by (simp only: bit.conj_disj_distrib2)
  also have "(f OR EDITED) OR SUPERSEDED = (f OR SUPERSEDED) OR EDITED" by (simp only: or.assoc or.commute [of EDITED])
  finally show ?thesis .
qed

lemma edited_again: "edited (edited w c) d = edited w d"
  by (simp add: edited_def flags_again)

lemma version_snoc:
  assumes "allowed_changes N w [c] = [c]" "ch_target c = w_id w"
  shows "version_in N (es @ [Changing c]) w =
    (if compare (ch_version c) (row_version (version_in N es w)) > 0 then edited (version_in N es w) c else version_in N es w)"
proof (cases "latest ch_version (edits_in N es w)")
  case None
  with assms show ?thesis by (simp add: version_in_def edits_snoc)
next
  case (Some b)
  show ?thesis
  proof (cases "compare (ch_version b) (row_version w) > 0")
    case True
    with Some assms show ?thesis
      using compare_trans [of "ch_version c" "ch_version b" "row_version w"]
      by (auto simp: version_in_def edits_snoc latest_snoc edited_again)
  next
    case False
    then have "compare (ch_version c) (ch_version b) > 0" if "compare (ch_version c) (row_version w) > 0"
      using stamps.trans_le [OF that] stamps.not_gt [OF False] by blast
    with Some False assms show ?thesis
      by (auto simp: version_in_def edits_snoc latest_snoc)
  qed
qed

lemma version_other: "edits_in N es w = edits_in N fs w \<Longrightarrow> version_in N es w = version_in N fs w"
  by (simp add: version_in_def)

section \<open>What the index holds\<close>

definition holds_in :: "ienv \<Rightarrow> effect list \<Rightarrow> indexer \<Rightarrow> bool" where
  "holds_in N es s \<longleftrightarrow>
     by_id (i_rows s) \<and>
     (\<forall>i. map_option bare (get_row i (i_rows s)) = map_option (shown N es) (put_in N es i)) \<and>
     (\<forall>v\<in>set (i_rows s). w_ix v = ixKeys N (w_type v) (decode_row N v) @ alltags N v (i_rows s)) \<and>
     by_key (i_changes s) \<and> set (i_changes s) = set (chs es) \<and> ch_target ` set (chs es) \<subseteq> set (i_changeTargets s) \<and>
     tagged_known N (i_rows s) (i_tagged s)"

lemma holds_inD:
  assumes "holds_in N es s"
  shows "by_id (i_rows s)" "map_option bare (get_row i (i_rows s)) = map_option (shown N es) (put_in N es i)"
    "get_row i (i_rows s) = Some v \<Longrightarrow> w_ix v = ixKeys N (w_type v) (decode_row N v) @ alltags N v (i_rows s)"
    "by_key (i_changes s)" "set (i_changes s) = set (chs es)" "c \<in> set (chs es) \<Longrightarrow> ch_target c \<in> set (i_changeTargets s)"
    "tagged_known N (i_rows s) (i_tagged s)"
  using assms get_row_mem [of "i_rows s" i v] by (auto simp: holds_in_def)

lemma holds_in_same:
  "holds_in N es s \<Longrightarrow> i_rows t = i_rows s \<Longrightarrow> i_changes t = i_changes s \<Longrightarrow> i_changeTargets t = i_changeTargets s \<Longrightarrow>
    i_tagged t = i_tagged s \<Longrightarrow> holds_in N es t"
  by (simp add: holds_in_def)

lemma core_simps [simp]:
  "i_rows (noted w g s) = i_rows s" "i_changes (noted w g s) = i_changes s" "i_changeTargets (noted w g s) = i_changeTargets s" "i_tagged (noted w g s) = i_tagged s"
  "i_rows (clears is s) = i_rows s" "i_changes (clears is s) = i_changes s" "i_changeTargets (clears is s) = i_changeTargets s" "i_tagged (clears is s) = i_tagged s"
  "i_rows (account N w a b s) = i_rows s" "i_changes (account N w a b s) = i_changes s" "i_changeTargets (account N w a b s) = i_changeTargets s" "i_tagged (account N w a b s) = i_tagged s"
  "i_rows (set_row w s) = put_row w (i_rows s)" "i_changes (set_row w s) = i_changes s" "i_changeTargets (set_row w s) = i_changeTargets s" "i_tagged (set_row w s) = i_tagged s"
  "i_rows (drop_row i s) = del_row i (i_rows s)" "i_changes (drop_row i s) = i_changes s" "i_changeTargets (drop_row i s) = i_changeTargets s" "i_tagged (drop_row i s) = i_tagged s"
  by (simp_all add: noted_def clears_def account_def set_row_def drop_row_def)

lemma put_in_Some: "distinct (ids (puts es)) \<Longrightarrow> put_in N es i = Some w \<longleftrightarrow> w \<in> set (puts es) \<and> w_id w = i \<and> \<not> deleted_in N es w"
proof -
  have "find Q xs = Some w \<longleftrightarrow> w \<in> set xs \<and> Q w" if "distinct (ids xs)" "\<And>a. Q a \<Longrightarrow> w_id a = i" for Q and xs :: "row list"
    using that
  proof (induction xs)
    case (Cons x xs)
    then have "Q w \<Longrightarrow> w \<in> set xs \<Longrightarrow> \<not> Q x" by (auto simp: image_iff)
    with Cons show ?case by auto
  qed simp
  from this [of "puts es" "\<lambda>w. w_id w = i \<and> \<not> deleted_in N es w"]
  show "distinct (ids (puts es)) \<Longrightarrow> ?thesis" unfolding put_in_def by auto
qed

lemma put_in_cong:
  assumes "puts fs = puts es" "\<And>w. w \<in> set (puts es) \<Longrightarrow> w_id w = i \<Longrightarrow> deleted_in N fs w = deleted_in N es w"
  shows "put_in N fs i = put_in N es i"
proof -
  have "find Q xs = find R xs" if "\<And>x. x \<in> set xs \<Longrightarrow> Q x = R x" for Q R and xs :: "row list"
    using that by (induction xs) auto
  from this [of "puts es" "\<lambda>w. w_id w = i \<and> \<not> deleted_in N fs w" "\<lambda>w. w_id w = i \<and> \<not> deleted_in N es w"] assms
  show ?thesis unfolding put_in_def by auto
qed

lemma put_in_id: "put_in N es i = Some w \<Longrightarrow> w_id w = i \<and> \<not> deleted_in N es w \<and> w \<in> set (puts es)"
  unfolding put_in_def by (auto dest: find_SomeD)

lemma held_put:
  assumes "holds_in N es s" "get_row i (i_rows s) = Some v"
  obtains p where "put_in N es i = Some p" "bare v = shown N es p"
proof (cases "put_in N es i")
  case None
  with holds_inD(2) [OF assms(1), of i] assms(2) show ?thesis by simp
next
  case (Some p)
  with holds_inD(2) [OF assms(1), of i] assms(2) that show ?thesis by simp
qed

lemma edits_target: "ch_target c \<noteq> w_id w \<Longrightarrow> edits_in N (es @ [Changing c]) w = edits_in N es w"
  by (simp add: edits_snoc)

lemma shown_cong: "edits_in N fs w = edits_in N es w \<Longrightarrow> outdone fs w = outdone es w \<Longrightarrow> shown N fs w = shown N es w"
  by (simp add: shown_def version_other [of N fs w es])

lemma outdone_change [simp]: "outdone (es @ [Changing c]) w = outdone es w"
  by (simp add: outdone_def)

section \<open>A change arrives\<close>

lemma holds_change:
  assumes h: "holds_in N es s" and ok: "told_well N (es @ [Changing c])"
    and s': "i_changes s' = put_change c (i_changes s)" "i_changeTargets s' = ch_target c # i_changeTargets s" "i_tagged s' = i_tagged s"
    and rows: "by_id (i_rows s')" "\<And>i. i \<noteq> ch_target c \<Longrightarrow> get_row i (i_rows s') = get_row i (i_rows s)"
    and here: "map_option bare (get_row (ch_target c) (i_rows s')) = map_option (shown N (es @ [Changing c])) (put_in N (es @ [Changing c]) (ch_target c))"
      "\<And>v. get_row (ch_target c) (i_rows s') = Some v \<Longrightarrow> w_ix v = ixKeys N (w_type v) (decode_row N v) @ alltags N v (i_rows s) \<and>
         (w_type v = ''hg/tag'' \<longrightarrow> get_row (ch_target c) (i_rows s) = Some v)"
    and tags: "\<And>v. alltags N v (i_rows s') = alltags N v (i_rows s)"
  shows "holds_in N (es @ [Changing c]) s'"
proof -
  note D = holds_inD [OF h]
  have others: "map_option bare (get_row i (i_rows s')) = map_option (shown N (es @ [Changing c])) (put_in N (es @ [Changing c]) i)"
    if "i \<noteq> ch_target c" for i
  proof -
    have "put_in N (es @ [Changing c]) i = put_in N es i"
      by (rule put_in_cong) (use that in \<open>simp_all add: deleted_in_def edits_target\<close>)
    moreover have "shown N (es @ [Changing c]) w = shown N es w" if "put_in N es i = Some w" for w
      by (rule shown_cong) (use put_in_id [OF that] \<open>i \<noteq> ch_target c\<close> in \<open>simp_all add: edits_target\<close>)
    ultimately show ?thesis using D(2) [of i] rows(2) [OF that] by (cases "put_in N es i") auto
  qed
  have was: "w_type v = ''hg/tag'' \<Longrightarrow> v \<in> set (i_rows s)" and ix: "w_ix v = ixKeys N (w_type v) (decode_row N v) @ alltags N v (i_rows s)"
    if "v \<in> set (i_rows s')" for v
  proof -
    have g: "get_row (w_id v) (i_rows s') = Some v" using that get_row_mem [OF rows(1)] by blast
    show "w_type v = ''hg/tag'' \<Longrightarrow> v \<in> set (i_rows s)"
      using g rows(2) [of "w_id v"] here(2) [of v] get_row_mem [OF D(1)] by (cases "w_id v = ch_target c") auto
    show "w_ix v = ixKeys N (w_type v) (decode_row N v) @ alltags N v (i_rows s)"
      using g rows(2) [of "w_id v"] here(2) [of v] D(3) [of "w_id v" v] by (cases "w_id v = ch_target c") auto
  qed
  have ids: "distinct (map ch_id (chs (es @ [Changing c])))" using ok by (simp add: told_well_def)
  have "c' \<notin> {x. ch_key x = ch_key c}" if "c' \<in> set (chs es)" for c'
    using ids that by (auto simp: ch_key_def image_iff)
  then have changes: "set (put_change c (i_changes s)) = set (chs (es @ [Changing c]))"
    using set_put_change [OF D(4), of c] D(5) by auto
  show ?thesis
    unfolding holds_in_def
  proof (intro conjI allI ballI)
    show "map_option bare (get_row i (i_rows s')) = map_option (shown N (es @ [Changing c])) (put_in N (es @ [Changing c]) i)" for i
      using others [of i] here(1) by (cases "i = ch_target c") auto
    show "w_ix v = ixKeys N (w_type v) (decode_row N v) @ alltags N v (i_rows s')" if "v \<in> set (i_rows s')" for v
      using ix [OF that] tags by simp
    show "by_key (i_changes s')" unfolding s' by (rule put_change_sorted [OF D(4)])
    show "ch_target ` set (chs (es @ [Changing c])) \<subseteq> set (i_changeTargets s')" using D(6) by (auto simp: s')
    show "tagged_known N (i_rows s') (i_tagged s')" using was D(7) unfolding tagged_known_def s' by blast
  qed (use rows(1) changes s' in simp_all)
qed

lemma allowed_one: "allowed_changes N v [c] = [] \<or> allowed_changes N v [c] = [c]"
  by (simp add: allowed_changes_def)

lemma allowed_type: "allowed_changes N v [c] = [c] \<Longrightarrow> ch_type c = w_type v"
  by (auto simp: allowed_changes_def mayChange_def split: if_splits)

lemma settle_one:
  "allowed_changes N v [c] = [] \<Longrightarrow> settle_row N v [c] isNew s = (Same, v, s)"
  "allowed_changes N v [c] = [c] \<Longrightarrow> ch_kind c \<noteq> DELETE \<Longrightarrow> settle_row N v [c] False s =
     (if compare (ch_version c) (row_version v) > 0
      then (Edited, edited_row N v c s, account N (edited_row N v c s) (w_ix v) (w_ix (edited_row N v c s)) (set_row (edited_row N v c s) s))
      else (Same, v, s))"
  "allowed_changes N v [c] = [c] \<Longrightarrow> ch_kind c = DELETE \<Longrightarrow> \<exists>s2. settle_row N v [c] False s = (Gone (byAuthor c), v, s2) \<and>
     i_rows s2 = del_row (w_id v) (i_rows s) \<and> i_changes s2 = i_changes s \<and> i_changeTargets s2 = i_changeTargets s \<and> i_tagged s2 = i_tagged s"
  by (simp_all add: settle_row_def Let_def)

lemma tagKeys_cong: "w_id a = w_id b \<Longrightarrow> w_type a = w_type b \<Longrightarrow> w_author a = w_author b \<Longrightarrow> tagKeys N a s = tagKeys N b s"
proof -
  assume e: "w_id a = w_id b" "w_type a = w_type b" "w_author a = w_author b"
  have "tags_row N a = tags_row N b" by (rule tags_row_cong [OF e])
  then show ?thesis by (simp only: tagKeys_def e)
qed

lemma edited_row_facts:
  "bare (edited_row N v c s) = bare (edited v c)" "w_ix (edited_row N v c s) = ixKeys N (w_type v) (decode_row N (edited_row N v c s)) @ tagKeys N v s"
  "w_type (edited_row N v c s) = w_type v" "w_id (edited_row N v c s) = w_id v" "w_author (edited_row N v c s) = w_author v"
proof -
  have dec: "decode_row N (x\<lparr>w_ix := a, w_flags := b\<rparr>) = decode_row N x" for x a b by (simp add: decode_row_def)
  have tags: "tagKeys N (x\<lparr>w_vstamp := a, w_vdevice := b, w_fields := f, w_links := l\<rparr>) s = tagKeys N x s" for x a b f l
    by (rule tagKeys_cong) simp_all
  show "bare (edited_row N v c s) = bare (edited v c)" "w_type (edited_row N v c s) = w_type v" "w_id (edited_row N v c s) = w_id v"
    "w_author (edited_row N v c s) = w_author v"
    by (simp_all add: edited_row_def edited_def bare_def Let_def)
  show "w_ix (edited_row N v c s) = ixKeys N (w_type v) (decode_row N (edited_row N v c s)) @ tagKeys N v s"
    by (simp add: edited_row_def Let_def dec ix_of_def tags)
qed

lemma bare_edited: "bare (edited (bare v) c) = bare (edited v c)"
  by (simp add: bare_def edited_def)

lemma shown_edited:
  assumes "bare v = shown N es p" "version_in N fs p = edited (version_in N es p) c" "outdone fs p = outdone es p"
  shows "bare (edited v c) = shown N fs p"
proof -
  have "bare (edited v c) = bare (edited (shown N es p) c)" unfolding assms(1) [symmetric] by (simp only: bare_edited)
  also have "\<dots> = shown N fs p"
    by (simp add: shown_def assms(2,3) bare_def edited_def flags_swap [simplified])
  finally show ?thesis .
qed

lemma change_step:
  assumes h: "holds_in N es s" and ok: "told_well N (es @ [Changing c])"
    and s1: "s1 = s\<lparr>i_changes := put_change c (i_changes s), i_changeTargets := ch_target c # i_changeTargets s\<rparr>"
  shows "get_row (ch_target c) (i_rows s1) = None \<Longrightarrow> holds_in N (es @ [Changing c]) s1"
    "get_row (ch_target c) (i_rows s1) = Some v \<Longrightarrow> holds_in N (es @ [Changing c]) (snd (snd (settle_row N v [c] False s1)))"
proof -
  let ?t = "ch_target c" and ?fs = "es @ [Changing c]"
  note D = holds_inD [OF h]
  have dist: "distinct (ids (puts es))" using ok by (simp add: told_well_def)
  have rows1 [simp]: "i_rows s1 = i_rows s" and core1: "i_changes s1 = put_change c (i_changes s)"
    "i_changeTargets s1 = ?t # i_changeTargets s" "i_tagged s1 = i_tagged s" by (simp_all add: s1)
  have gone: "deleted_in N es w \<Longrightarrow> deleted_in N ?fs w" for w by (auto simp: deleted_in_def edits_snoc)
  {
    assume none: "get_row ?t (i_rows s1) = None"
    have "put_in N es ?t = None" using D(2) [of ?t] none by (cases "put_in N es ?t") auto
    then have "put_in N ?fs ?t = None" using gone by (auto simp: put_in_def find_None_iff)
    with none show "holds_in N ?fs s1"
      by (intro holds_change [OF h ok]) (simp_all add: core1 D(1))
  }
  assume some: "get_row ?t (i_rows s1) = Some v"
  then have g: "get_row ?t (i_rows s) = Some v" by simp
  from held_put [OF h g] obtain p where p: "put_in N es ?t = Some p" "bare v = shown N es p" .
  note P = put_in_id [OF p(1)] and B = bareD [OF p(2)]
  have vid: "w_id v = ?t" using g by (rule get_row_id)
  have only: "w = p" if "w \<in> set (puts es)" "w_id w = ?t" for w
    using that P dist by (metis distinct_map inj_onD)
  have same: "allowed_changes N v [c] = allowed_changes N p [c]" by (rule allowed_cong [OF B(3,2)])
  have ix: "w_ix v = ixKeys N (w_type v) (decode_row N v) @ alltags N v (i_rows s)" using D(3) [OF g] .
  show "holds_in N ?fs (snd (snd (settle_row N v [c] False s1)))"
  proof (cases "allowed_changes N v [c] = []")
    case True
    with same have e: "edits_in N ?fs p = edits_in N es p" by (auto simp: edits_snoc)
    have "put_in N ?fs ?t = put_in N es ?t"
      by (rule put_in_cong) (use only e in \<open>auto simp: deleted_in_def\<close>)
    moreover have "shown N ?fs p = shown N es p" by (rule shown_cong [OF e]) simp
    ultimately show ?thesis using True p g ix
      by (intro holds_change [OF h ok]) (simp_all add: settle_one core1 D(1))
  next
    case False
    then have a: "allowed_changes N v [c] = [c]" "allowed_changes N p [c] = [c]" using allowed_one same by metis+
    have tgt: "?t = w_id p" using P by simp
    have "ch_type c \<noteq> ''hg/tag''" using ok by (simp add: told_well_def)
    with allowed_type [OF a(1)] have notag: "w_type v \<noteq> ''hg/tag''" by simp
    have here: "w_type x \<noteq> ''hg/tag''" if "x \<in> set (i_rows s)" "w_id x = w_id v" for x
    proof -
      have "get_row (w_id v) (i_rows s) = Some x" using that by (simp add: get_row_mem [OF D(1)])
      with g vid notag show ?thesis by simp
    qed
    show ?thesis
    proof (cases "ch_kind c = DELETE")
      case True
      from settle_one(3) [OF a(1) True, of s1] obtain s2 where s2: "settle_row N v [c] False s1 = (Gone (byAuthor c), v, s2)"
        "i_rows s2 = del_row (w_id v) (i_rows s)" "i_changes s2 = i_changes s1" "i_changeTargets s2 = i_changeTargets s1" "i_tagged s2 = i_tagged s1"
        by auto
      have "deleted_in N ?fs p" using True a(2) tgt by (simp add: deleted_in_def edits_snoc)
      with only have "put_in N ?fs ?t = None" by (auto simp: put_in_def find_None_iff)
      then show ?thesis using here vid
        by (intro holds_change [OF h ok]) (simp_all add: s2 core1 get_del_row del_row_sorted D(1) alltags_del)
    next
      case edit: False
      note vs = version_snoc [OF a(2) tgt, of es]
      have nd: "\<not> deleted_in N ?fs p" using P a(2) edit tgt by (simp add: deleted_in_def edits_snoc)
      have put: "put_in N ?fs ?t = Some p" using nd P dist by (simp add: put_in_Some)
      show ?thesis
      proof (cases "compare (ch_version c) (row_version v) > 0")
        case True
        let ?v = "edited_row N v c s1"
        have "version_in N ?fs p = edited (version_in N es p) c" using vs True B(6) by simp
        from shown_edited [OF p(2) this] have b: "bare ?v = shown N ?fs p" by (simp add: edited_row_facts(1))
        have "tagKeys N v s1 = alltags N v (i_rows s)" using tagKeys_alltags [of N s1 v] D(7) by (simp add: core1)
        moreover have "alltags N ?v rows = alltags N v rows" for rows by (rule alltags_cong) (simp_all add: edited_row_facts)
        ultimately show ?thesis using True b put notag here vid
          by (intro holds_change [OF h ok])
            (auto simp: settle_one(2) [OF a(1) edit] core1 get_put_row put_row_sorted D(1) edited_row_facts alltags_put)
      next
        case False
        then have "version_in N ?fs p = version_in N es p" using vs B(6) by simp
        then have "shown N ?fs p = shown N es p" by (simp add: shown_def)
        then show ?thesis using False put p g ix
          by (intro holds_change [OF h ok]) (simp_all add: settle_one(2) [OF a(1) edit] core1 D(1))
      qed
    qed
  qed
qed

section \<open>A put arrives\<close>

definition flagged_over :: "row \<Rightarrow> row" where
  "flagged_over w = w\<lparr>w_flags := w_flags w OR SUPERSEDED\<rparr>"

definition beats :: "row \<Rightarrow> row \<Rightarrow> bool" where
  "beats w x \<longleftrightarrow> compare (put_version w) (put_version x) > 0"

definition counts :: "row \<Rightarrow> row \<Rightarrow> bool" where
  "counts w x \<longleftrightarrow> w_id x \<noteq> w_id w \<and> \<not> superseded x"

lemma flagged_over_simps [simp]:
  "w_id (flagged_over w) = w_id w" "w_type (flagged_over w) = w_type w" "w_author (flagged_over w) = w_author w" "w_ix (flagged_over w) = w_ix w"
  "w_opm (flagged_over w) = w_opm w" "w_target (flagged_over w) = w_target w" "put_version (flagged_over w) = put_version w"
  "decode_row N (flagged_over w) = decode_row N w" "flagged_over (flagged_over w) = flagged_over w"
  by (simp_all add: flagged_over_def put_version_def decode_row_def or.assoc)

lemma rival_step: "rival x (w, s) =
    (if \<not> counts w x then (w, s) else if beats w x then (w, set_row (flagged_over x) s) else (flagged_over w, s))"
  by (auto simp: rival_def counts_def beats_def flagged_over_def)

lemma beats_flagged [simp]: "beats (flagged_over w) = beats w" "counts (flagged_over w) = counts w"
  by (auto simp: beats_def counts_def)

lemma rivals:
  assumes "by_id (i_rows s)" "distinct (ids os)"
  shows "fst (fold rival os (w, s)) = (if list_ex (\<lambda>x. counts w x \<and> \<not> beats w x) os then flagged_over w else w)"
    "by_id (i_rows (snd (fold rival os (w, s))))"
    "get_row i (i_rows (snd (fold rival os (w, s)))) =
      (case find (\<lambda>x. w_id x = i \<and> counts w x \<and> beats w x) os of Some x \<Rightarrow> Some (flagged_over x) | None \<Rightarrow> get_row i (i_rows s))"
    "i_changes (snd (fold rival os (w, s))) = i_changes s" "i_changeTargets (snd (fold rival os (w, s))) = i_changeTargets s"
    "i_tagged (snd (fold rival os (w, s))) = i_tagged s"
proof -
  have "fst (fold rival os (w, s)) = (if list_ex (\<lambda>x. counts w x \<and> \<not> beats w x) os then flagged_over w else w) \<and>
    by_id (i_rows (snd (fold rival os (w, s)))) \<and>
    (get_row i (i_rows (snd (fold rival os (w, s)))) =
      (case find (\<lambda>x. w_id x = i \<and> counts w x \<and> beats w x) os of Some x \<Rightarrow> Some (flagged_over x) | None \<Rightarrow> get_row i (i_rows s))) \<and>
    i_changes (snd (fold rival os (w, s))) = i_changes s \<and> i_changeTargets (snd (fold rival os (w, s))) = i_changeTargets s \<and>
    i_tagged (snd (fold rival os (w, s))) = i_tagged s"
    using assms
  proof (induction os arbitrary: w s)
    case (Cons x os)
    have d: "distinct (ids os)" using Cons.prems by simp
    have no: "find (\<lambda>y. w_id y = w_id x \<and> counts w y \<and> beats w y) os = None"
      using Cons.prems by (auto simp: find_None_iff image_iff)
    consider "\<not> counts w x" | "counts w x" "beats w x" | "counts w x" "\<not> beats w x" by blast
    then show ?case
    proof cases
      case 1
      with Cons.IH [OF Cons.prems(1) d, of w] show ?thesis by (simp add: rival_step)
    next
      case 2
      have "by_id (i_rows (set_row (flagged_over x) s))" using Cons.prems(1) by (simp add: put_row_sorted)
      from 2 no Cons.IH [OF this d, of w] Cons.prems(1) show ?thesis
        by (cases "w_id x = i") (simp_all add: rival_step get_put_row cong: option.case_cong)
    next
      case 3
      with Cons.IH [OF Cons.prems(1) d, of "flagged_over w"] show ?thesis by (simp add: rival_step)
    qed
  qed simp
  then show "fst (fold rival os (w, s)) = (if list_ex (\<lambda>x. counts w x \<and> \<not> beats w x) os then flagged_over w else w)"
    "by_id (i_rows (snd (fold rival os (w, s))))"
    "get_row i (i_rows (snd (fold rival os (w, s)))) =
      (case find (\<lambda>x. w_id x = i \<and> counts w x \<and> beats w x) os of Some x \<Rightarrow> Some (flagged_over x) | None \<Rightarrow> get_row i (i_rows s))"
    "i_changes (snd (fold rival os (w, s))) = i_changes s" "i_changeTargets (snd (fold rival os (w, s))) = i_changeTargets s"
    "i_tagged (snd (fold rival os (w, s))) = i_tagged s" by simp_all
qed

lemma superseded_or: "superseded (w\<lparr>w_flags := f OR (if b then SUPERSEDED else 0)\<rparr>) \<longleftrightarrow> superseded (w\<lparr>w_flags := f\<rparr>) \<or> b"
  by (cases b) (simp_all add: superseded_def and.assoc bit.conj_disj_distrib2 SUPERSEDED_def)

lemma superseded_edited: "superseded (edited w c) \<longleftrightarrow> superseded w"
proof -
  have "((f OR EDITED) AND NOT DROPPED) AND SUPERSEDED = f AND SUPERSEDED" for f :: "8 word"
  proof -
    have "NOT DROPPED AND SUPERSEDED = SUPERSEDED" "EDITED AND SUPERSEDED = 0" by (simp_all add: EDITED_def DROPPED_def SUPERSEDED_def)
    then show ?thesis by (simp only: and.assoc bit.conj_disj_distrib2 or.right_neutral)
  qed
  then show ?thesis by (simp add: superseded_def edited_def)
qed

lemma superseded_version: "superseded (version_in N es w) \<longleftrightarrow> superseded w"
  by (auto simp: version_in_def superseded_edited split: option.split)

lemma superseded_bare: "superseded (bare w) \<longleftrightarrow> superseded w"
  by (simp add: superseded_def)

lemma superseded_shown:
  assumes "bare v = shown N es p" "\<not> superseded p"
  shows "superseded v \<longleftrightarrow> outdone es p"
proof -
  have "superseded v \<longleftrightarrow> superseded (shown N es p)" unfolding assms(1) [symmetric] by (simp only: superseded_bare)
  also have "\<dots> \<longleftrightarrow> superseded ((version_in N es p)\<lparr>w_flags := w_flags (version_in N es p)\<rparr>) \<or> outdone es p"
    by (simp only: shown_def superseded_bare superseded_or)
  also have "superseded ((version_in N es p)\<lparr>w_flags := w_flags (version_in N es p)\<rparr>) \<longleftrightarrow> superseded p"
    using superseded_version [of N es p] by (simp add: superseded_def)
  finally show ?thesis using assms(2) by simp
qed

lemma bare_flagged: "bare (flagged_over v) = bare (flagged_over (bare v))"
  by (simp add: bare_def flagged_over_def)

lemma shown_flagged:
  assumes "bare v = shown N es p" "edits_in N fs p = edits_in N es p" "outdone fs p"
  shows "bare (flagged_over v) = shown N fs p"
proof -
  have "bare (flagged_over v) = bare (flagged_over (shown N es p))" unfolding assms(1) [symmetric] by (rule bare_flagged)
  also have "\<dots> = shown N fs p"
    using version_other [OF assms(2)] assms(3) by (simp add: shown_def flagged_over_def bare_def or.assoc)
  finally show ?thesis .
qed

text \<open>A put that meets changes already here becomes its latest version.\<close>

lemma settle_pending:
  assumes w: "as_put N w" and cs: "set cs = set (changes_of (w_id w) (chs es))" and inj: "inj_on ch_version (set (chs es))"
    and known: "tagged_known N (i_rows s) (i_tagged s)"
  defines "w1 \<equiv> w\<lparr>w_ix := w_ix w @ tagKeys N w s\<rparr>"
  shows "deleted_in N es w \<Longrightarrow> \<exists>g s2. settle_row N w1 cs True s = (Gone g, w1, s2) \<and>
      i_rows s2 = i_rows s \<and> i_changes s2 = i_changes s \<and> i_changeTargets s2 = i_changeTargets s \<and> i_tagged s2 = i_tagged s"
    "\<not> deleted_in N es w \<Longrightarrow> \<exists>k v. settle_row N w1 cs True s = (k, v, s) \<and> (\<forall>g. k \<noteq> Gone g) \<and> bare v = bare (version_in N es w) \<and>
      w_ix v = ixKeys N (w_type v) (decode_row N v) @ alltags N v (i_rows s)"
proof -
  have e: "allowed_changes N w1 cs = allowed_changes N w cs" by (rule allowed_cong) (simp_all add: w1_def)
  have rv: "row_version w1 = row_version w" by (simp add: w1_def row_version_def)
  have set: "set (allowed_changes N w cs) = set (edits_in N es w)" using cs by (auto simp: edits_in_def allowed_changes_def)
  have lat: "latest ch_version (allowed_changes N w cs) = latest ch_version (edits_in N es w)"
  proof (rule latest_set [OF _ set])
    show "inj_on ch_version (set (edits_in N es w))"
      by (rule inj_on_subset [OF inj]) (auto simp: edits_in_def allowed_changes_def changes_of_def)
  qed
  {
    assume "deleted_in N es w"
    then have "filter (\<lambda>c. ch_kind c = DELETE) (allowed_changes N w cs) \<noteq> []"
      using set by (auto simp: deleted_in_def list_ex_iff filter_empty_conv)
    then obtain d where "latest ch_version (filter (\<lambda>c. ch_kind c = DELETE) (allowed_changes N w cs)) = Some d"
      by (cases "latest ch_version (filter (\<lambda>c. ch_kind c = DELETE) (allowed_changes N w cs))") auto
    then show "\<exists>g s2. settle_row N w1 cs True s = (Gone g, w1, s2) \<and>
      i_rows s2 = i_rows s \<and> i_changes s2 = i_changes s \<and> i_changeTargets s2 = i_changeTargets s \<and> i_tagged s2 = i_tagged s"
      by (simp add: settle_row_def e Let_def)
  }
  assume "\<not> deleted_in N es w"
  then have "filter (\<lambda>c. ch_kind c = DELETE) (allowed_changes N w cs) = []"
    using set by (auto simp: deleted_in_def list_ex_iff filter_empty_conv)
  then have s: "settle_row N w1 cs True s = (case latest ch_version (edits_in N es w) of None \<Rightarrow> (Same, w1, s)
      | Some best \<Rightarrow> if compare (ch_version best) (row_version w) > 0 then (Edited, edited_row N w1 best s, s) else (Same, w1, s))"
    by (simp add: settle_row_def e lat Let_def rv split: option.split)
  have tags: "tagKeys N x s = alltags N x (i_rows s)" for x using tagKeys_alltags [OF known] .
  have same: "alltags N w1 r = alltags N w r" "decode_row N w1 = decode_row N w" for r
    by (rule alltags_cong) (simp_all add: w1_def decode_row_def)
  have w1: "bare w1 = bare w" "w_type w1 = w_type w" "w_id w1 = w_id w" "w_author w1 = w_author w"
    "w_ix w1 = ixKeys N (w_type w1) (decode_row N w1) @ alltags N w1 (i_rows s)"
    using w by (simp_all add: same) (simp_all add: w1_def as_put_def tags)
  have ed: "bare (edited_row N w1 b s) = bare (edited w b)"
    "w_ix (edited_row N w1 b s) = ixKeys N (w_type (edited_row N w1 b s)) (decode_row N (edited_row N w1 b s)) @ alltags N (edited_row N w1 b s) (i_rows s)" for b
  proof -
    show "bare (edited_row N w1 b s) = bare (edited w b)"
      using bare_edited [of w1 b] bare_edited [of w b] w1(1) by (simp add: edited_row_facts(1))
    have "alltags N (edited_row N w1 b s) (i_rows s) = alltags N w1 (i_rows s)" by (rule alltags_cong) (simp_all add: edited_row_facts)
    then show "w_ix (edited_row N w1 b s) = ixKeys N (w_type (edited_row N w1 b s)) (decode_row N (edited_row N w1 b s)) @ alltags N (edited_row N w1 b s) (i_rows s)"
      by (simp add: edited_row_facts tags)
  qed
  show "\<exists>k v. settle_row N w1 cs True s = (k, v, s) \<and> (\<forall>g. k \<noteq> Gone g) \<and> bare v = bare (version_in N es w) \<and>
      w_ix v = ixKeys N (w_type v) (decode_row N v) @ alltags N v (i_rows s)"
  proof (cases "latest ch_version (edits_in N es w)")
    case None
    then have "settle_row N w1 cs True s = (Same, w1, s)" "version_in N es w = w" by (simp_all add: s version_in_def)
    with w1 show ?thesis by (intro exI [of _ Same] exI [of _ w1]) simp
  next
    case (Some b)
    show ?thesis
    proof (cases "compare (ch_version b) (row_version w) > 0")
      case True
      with Some have "settle_row N w1 cs True s = (Edited, edited_row N w1 b s, s)" "version_in N es w = edited w b" by (simp_all add: s version_in_def)
      with ed show ?thesis by (intro exI [of _ Edited] exI [of _ "edited_row N w1 b s"]) simp
    next
      case False
      with Some have "settle_row N w1 cs True s = (Same, w1, s)" "version_in N es w = w" by (simp_all add: s version_in_def)
      with w1 show ?thesis by (intro exI [of _ Same] exI [of _ w1]) simp
    qed
  qed
qed

lemma beats_self: "\<not> beats w w"
  using compare_0 [of "put_version w" "put_version w"] by (simp add: beats_def)

lemma outdone_iff: "outdone es w \<longleftrightarrow> w_opm w \<and> (\<exists>x\<in>set (puts es). w_opm x \<and> same_group x w \<and> beats x w)"
  by (auto simp: outdone_def list_ex_iff beats_def)

lemma deleted_beats_none:
  "told_well N es \<Longrightarrow> w \<in> set (puts es) \<Longrightarrow> deleted_in N es w \<Longrightarrow> w_opm w \<Longrightarrow> x \<in> set (puts es) \<Longrightarrow> w_opm x \<Longrightarrow> same_group w x \<Longrightarrow> \<not> beats w x"
  unfolding told_well_def no_later_vote_deleted_def beats_def by blast

text \<open>The rows of a new record's group: which it outdoes, and whether one outdoes it.\<close>

lemma group_outdone:
  assumes h: "holds_in N es s" and okw: "told_well N (es @ [Putting w values])" and new: "w_id w \<notin> set (ids (puts es))" "w_opm w"
    and ties: "\<And>x. x \<in> set (puts es) \<Longrightarrow> w_opm x \<Longrightarrow> same_group x w \<Longrightarrow> put_version x \<noteq> put_version w"
  shows "list_ex (\<lambda>x. counts w x \<and> \<not> beats w x) (group_rows w (i_rows s)) \<longleftrightarrow> outdone es w"
proof -
  note D = holds_inD [OF h] and ok = told_well_take [OF okw]
  have dist: "distinct (ids (puts es))" and puts: "\<And>x. x \<in> set (puts es) \<Longrightarrow> as_put N x" using ok by (auto simp: told_well_def)
  have gt: "beats x w" if "x \<in> set (puts es)" "w_opm x" "same_group x w" "\<not> beats w x" for x
    using ties [OF that(1-3)] that(4) stamps.not_gt [of "put_version w" "put_version x"] compare_0 [of "put_version x" "put_version w"]
    by (auto simp: beats_def)
  show ?thesis
  proof
    assume "list_ex (\<lambda>x. counts w x \<and> \<not> beats w x) (group_rows w (i_rows s))"
    then obtain r where r: "r \<in> set (i_rows s)" "w_opm r" "same_group r w" "\<not> beats w r" by (auto simp: list_ex_iff group_rows_def)
    then have "get_row (w_id r) (i_rows s) = Some r" by (simp add: get_row_mem [OF D(1)])
    from held_put [OF h this] obtain p where p: "put_in N es (w_id r) = Some p" "bare r = shown N es p" .
    note B = bareD [OF p(2)] and P = put_in_id [OF p(1)]
    have "beats p w" by (rule gt) (use r B P in \<open>simp_all add: same_group_def beats_def\<close>)
    with r B P show "outdone es w" using new(2) by (auto simp: outdone_iff same_group_def)
  next
    assume "outdone es w"
    then obtain x where x: "x \<in> set (puts es)" "w_opm x" "same_group x w" "beats x w" by (auto simp: outdone_iff)
    let ?xs = "filter (\<lambda>y. w_opm y \<and> same_group y w) (puts es)"
    obtain m where m: "latest put_version ?xs = Some m" using x by (cases "latest put_version ?xs") (auto simp: filter_empty_conv)
    have mm: "m \<in> set (puts es)" "w_opm m" "same_group m w" using latest_SomeD(1) [OF m] by auto
    have top: "\<not> beats y m" if "y \<in> set (puts es)" "w_opm y" "same_group y w" for y
    proof -
      have "compare (put_version m) (put_version y) \<ge> 0" using latest_SomeD(2) [OF m] that by simp
      then show ?thesis using compare_sym [of "put_version y" "put_version m"] by (simp add: beats_def)
    qed
    have "beats m w"
    proof (cases "beats x m")
      case True
      with top [OF x(1-3)] show ?thesis by simp
    next
      case False
      have sg: "same_group x m" using x(3) mm(3) by (simp add: same_group_def)
      have "m = x \<or> beats m x"
      proof (cases "put_version x = put_version m")
        case True
        then have "x = m" using ok x(1,2) mm(1,2) sg unfolding told_well_def no_ties_def by blast
        then show ?thesis by simp
      next
        case ne: False
        then have "compare (put_version m) (put_version x) \<noteq> 0" using compare_0 [of "put_version m" "put_version x"] by auto
        with False compare_sym [of "put_version x" "put_version m"] show ?thesis by (auto simp: beats_def)
      qed
      then show ?thesis using x(4) compare_trans unfolding beats_def by blast
    qed
    then have nd: "\<not> deleted_in N es m"
      using deleted_beats_none [OF okw, of m w] mm new(2) deleted_grows [of N es m] by auto
    with mm dist have "put_in N es (w_id m) = Some m" by (simp add: put_in_Some)
    with D(2) [of "w_id m"] obtain r where r: "get_row (w_id m) (i_rows s) = Some r" "bare r = shown N es m" by auto
    note B = bareD [OF r(2)]
    have "\<not> outdone es m" using top mm(3) by (auto simp: outdone_iff same_group_def)
    with superseded_shown [OF r(2)] puts [OF mm(1)] have "\<not> superseded r" by (simp add: as_put_def)
    moreover have "\<not> beats w m"
    proof
      assume "beats w m"
      then have "compare (put_version x) (put_version m) > 0" using x(4) compare_trans by (simp add: beats_def)
      with top [OF x(1-3)] show False by (simp add: beats_def)
    qed
    moreover have "w_id r \<noteq> w_id w" using mm(1) new(1) B(1) by (metis image_eqI list.set_map)
    moreover have "r \<in> set (group_rows w (i_rows s))"
      using r(1) mm B get_row_mem [OF D(1)] by (simp add: group_rows_def same_group_def)
    ultimately show "list_ex (\<lambda>x. counts w x \<and> \<not> beats w x) (group_rows w (i_rows s))"
      using B(7) by (auto simp: list_ex_iff counts_def beats_def)
  qed
qed

lemma find_unique:
  assumes "distinct (ids xs)" "x \<in> set xs" "w_id x = i"
  shows "find (\<lambda>y. w_id y = i \<and> Q y) xs = (if Q x then Some x else None)"
  using assms
proof (induction xs)
  case (Cons y ys)
  then show ?case by (cases "x = y") (auto simp: image_iff find_None_iff)
qed simp

lemma get_group:
  assumes "by_id rows" "get_row i rows = Some r"
  shows "find (\<lambda>x. w_id x = i \<and> Q x) (group_rows w rows) = (if w_opm r \<and> same_group r w \<and> Q r then Some r else None)"
proof -
  have r: "r \<in> set rows" "w_id r = i" using assms by (simp_all add: get_row_mem)
  have d: "distinct (ids (group_rows w rows))" using by_id_distinct [OF assms(1)] by (simp add: group_rows_def distinct_map_filter)
  show ?thesis
  proof (cases "w_opm r \<and> same_group r w")
    case True
    with r have "r \<in> set (group_rows w rows)" by (simp add: group_rows_def)
    from find_unique [OF d this r(2)] True show ?thesis by simp
  next
    case False
    have "x = r" if "x \<in> set (group_rows w rows)" "w_id x = i" for x
      using that r by_id_distinct [OF assms(1)] by (auto simp: group_rows_def distinct_map dest: inj_onD)
    with False have "x \<notin> set (group_rows w rows) \<or> w_id x \<noteq> i" for x by (auto simp: group_rows_def)
    with False show ?thesis by (auto simp: find_None_iff)
  qed
qed

lemma by_id_filter: "by_id rows \<Longrightarrow> by_id (filter Q rows)"
  by (induction rows) auto

text \<open>The rows once a new row found its place in its group.\<close>

lemma placed:
  assumes h: "holds_in N es s" and ok: "told_well N (es @ [Putting w values])" and nd: "\<not> deleted_in N es w"
    and v: "bare v = bare (version_in N es w)"
    and ws: "ws = (if w_opm v then onePerMember v s else (v, s))"
  shows "by_id (i_rows (snd ws))" "w_id w \<notin> set (ids (i_rows (snd ws)))" "fst ws = v \<or> w_opm w \<and> fst ws = flagged_over v"
    "bare (fst ws) = shown N (es @ [Putting w values]) w"
    "i \<noteq> w_id w \<Longrightarrow> map_option bare (get_row i (i_rows (snd ws))) = map_option (shown N (es @ [Putting w values])) (put_in N (es @ [Putting w values]) i)"
    "get_row i (i_rows (snd ws)) = Some r \<Longrightarrow> get_row i (i_rows s) = Some r \<or> w_opm w \<and> (\<exists>q. get_row i (i_rows s) = Some q \<and> r = flagged_over q \<and> w_type q = w_type w)"
    "i_changes (snd ws) = i_changes s" "i_changeTargets (snd ws) = i_changeTargets s" "i_tagged (snd ws) = i_tagged s"
    "\<not> w_opm w \<Longrightarrow> ws = (v, s)" "n \<noteq> w_type w \<or> \<not> w_opm w \<Longrightarrow> rows_linking j n (i_rows (snd ws)) = rows_linking j n (i_rows s)"
proof -
  let ?fs = "es @ [Putting w values]"
  note D = holds_inD [OF h]
  have oks: "told_well N es" using ok by (rule told_well_take)
  have B: "w_id v = w_id w" "w_opm v = w_opm w" "w_type v = w_type w" "put_version v = put_version w" "same_group x v = same_group x w"
    "same_group v x = same_group w x" for x
    using arg_cong [OF v, of w_id] arg_cong [OF v, of w_opm] arg_cong [OF v, of w_type] arg_cong [OF v, of w_stamp] arg_cong [OF v, of w_device]
      arg_cong [OF v, of w_author] arg_cong [OF v, of w_target]
    by (simp_all add: put_version_def same_group_def)
  have new: "w_id w \<notin> set (ids (puts es))" and dist: "distinct (ids (puts es))" using ok by (auto simp: told_well_def)
  have none: "get_row (w_id w) (i_rows s) = None"
  proof -
    have "put_in N es (w_id w) = None" using new by (auto simp: put_in_def find_None_iff image_iff)
    with D(2) [of "w_id w"] show ?thesis by simp
  qed
  have ties: "put_version x \<noteq> put_version w" if "x \<in> set (puts es)" "w_opm x" "same_group x w" "w_opm w" for x
  proof
    assume "put_version x = put_version w"
    then have "x = w" using ok that unfolding told_well_def no_ties_def by (metis Un_iff list.set_intros(1) puts_simps(1,2,4) set_append)
    with that new show False by auto
  qed
  have group: "group_rows v rows = group_rows w rows" for rows by (simp add: group_rows_def B)
  have bts: "beats v = beats w" "counts v = counts w" by (auto simp: beats_def counts_def B)
  have gd: "distinct (ids (group_rows w (i_rows s)))"
    using by_id_distinct [OF D(1)] by (simp add: group_rows_def distinct_map_filter)
  note R = rivals [OF D(1) gd, where w = v, unfolded bts]
  have ws1: "ws = (if w_opm w then fold rival (group_rows w (i_rows s)) (v, s) else (v, s))"
    by (simp add: ws onePerMember_def group B)
  show "\<not> w_opm w \<Longrightarrow> ws = (v, s)" by (simp add: ws1)
  show "by_id (i_rows (snd ws))" using R(2) D(1) by (simp add: ws1)
  show core: "i_changes (snd ws) = i_changes s" "i_changeTargets (snd ws) = i_changeTargets s" "i_tagged (snd ws) = i_tagged s"
    using R(4-6) by (simp_all add: ws1)
  show "fst ws = v \<or> w_opm w \<and> fst ws = flagged_over v" using R(1) by (simp add: ws1)
  have outdone: "outdone ?fs x \<longleftrightarrow> outdone es x \<or> w_opm x \<and> w_opm w \<and> same_group w x \<and> beats w x" for x
    by (auto simp: outdone_iff)
  have eds: "edits_in N ?fs x = edits_in N es x" for x by (rule edits_snoc)
  have get: "get_row i (i_rows (snd ws)) = (case get_row i (i_rows s) of None \<Rightarrow> None
      | Some r \<Rightarrow> if w_opm w \<and> w_opm r \<and> same_group r w \<and> counts w r \<and> beats w r then Some (flagged_over r) else Some r)" for i
  proof (cases "get_row i (i_rows s)")
    case None
    then have "find (\<lambda>x. w_id x = i \<and> counts w x \<and> beats w x) (group_rows w (i_rows s)) = None"
      by (auto simp: find_None_iff group_rows_def get_row_def)
    with None R(3) [of i] show ?thesis by (simp add: ws1)
  next
    case (Some r)
    with get_group [OF D(1) Some, of "\<lambda>x. counts w x \<and> beats w x" w] R(3) [of i] show ?thesis by (simp add: ws1)
  qed
  show "rows_linking j n (i_rows (snd ws)) = rows_linking j n (i_rows s)" if n: "n \<noteq> w_type w \<or> \<not> w_opm w"
  proof -
    have "x \<in> set (i_rows (snd ws)) \<longleftrightarrow> x \<in> set (i_rows s)" if "w_type x = n" for x
    proof -
      have "x \<in> set (i_rows (snd ws)) \<longleftrightarrow> get_row (w_id x) (i_rows (snd ws)) = Some x"
        using get_row_mem [OF \<open>by_id (i_rows (snd ws))\<close>] by simp
      also have "\<dots> \<longleftrightarrow> get_row (w_id x) (i_rows s) = Some x"
        using get [of "w_id x"] n that by (auto split: option.splits if_splits simp: same_group_def)
      also have "\<dots> \<longleftrightarrow> x \<in> set (i_rows s)" using get_row_mem [OF D(1)] by simp
      finally show ?thesis .
    qed
    then have "set (filter (\<lambda>x. j \<in> set (w_links x) \<and> w_type x = n) (i_rows (snd ws))) = set (filter (\<lambda>x. j \<in> set (w_links x) \<and> w_type x = n) (i_rows s))"
      by auto
    with sorted_determined [OF by_id_filter [OF \<open>by_id (i_rows (snd ws))\<close>] by_id_filter [OF D(1)]]
    show ?thesis by (simp add: rows_linking_def)
  qed
  show "w_id w \<notin> set (ids (i_rows (snd ws)))"
  proof
    assume "w_id w \<in> set (ids (i_rows (snd ws)))"
    then obtain r where "r \<in> set (i_rows (snd ws))" "w_id r = w_id w" by auto
    then have "get_row (w_id w) (i_rows (snd ws)) = Some r" using \<open>by_id (i_rows (snd ws))\<close> by (simp add: get_row_mem)
    with get [of "w_id w"] none show False by simp
  qed
  show "get_row i (i_rows (snd ws)) = Some r \<Longrightarrow> get_row i (i_rows s) = Some r \<or> w_opm w \<and> (\<exists>q. get_row i (i_rows s) = Some q \<and> r = flagged_over q \<and> w_type q = w_type w)"
    using get [of i] by (auto split: option.splits if_splits simp: same_group_def)
  show "map_option bare (get_row i (i_rows (snd ws))) = map_option (shown N ?fs) (put_in N ?fs i)" if i: "i \<noteq> w_id w"
  proof -
    have "put_in N ?fs i = put_in N es i"
    proof -
      have "find Q (xs @ [w]) = find Q xs" if "\<not> Q w" for Q and xs :: "row list" using that by (induction xs) auto
      with i show ?thesis by (simp add: put_in_def deleted_in_def eds)
    qed
    moreover have "map_option bare (get_row i (i_rows (snd ws))) = map_option (shown N ?fs) (put_in N es i)"
    proof (cases "get_row i (i_rows s)")
      case None
      with D(2) [of i] get [of i] show ?thesis by simp
    next
      case (Some r)
      from held_put [OF h Some] obtain p where p: "put_in N es i = Some p" "bare r = shown N es p" .
      note P = put_in_id [OF p(1)] and BB = bareD [OF p(2)]
      have "as_put N p" using P oks by (auto simp: told_well_def)
      then have sup: "superseded r \<longleftrightarrow> outdone es p" using superseded_shown [OF p(2)] by (simp add: as_put_def)
      have c: "w_opm w \<and> w_opm r \<and> same_group r w \<and> counts w r \<and> beats w r \<longleftrightarrow> \<not> outdone es p \<and> outdone ?fs p"
        unfolding outdone using BB P i sup by (auto simp: counts_def beats_def same_group_def)
      show ?thesis
      proof (cases "\<not> outdone es p \<and> outdone ?fs p")
        case True
        then have "get_row i (i_rows (snd ws)) = Some (flagged_over r)" using get [of i] Some c by simp
        with shown_flagged [OF p(2) eds] True p(1) show ?thesis by simp
      next
        case False
        then have "get_row i (i_rows (snd ws)) = Some r" using get [of i] Some c by (simp only: if_False option.case)
        moreover have "shown N ?fs p = shown N es p" by (rule shown_cong [OF eds]) (use False outdone in blast)
        ultimately show ?thesis using p by simp
      qed
    qed
    ultimately show ?thesis by simp
  qed
  have self: "outdone ?fs w \<longleftrightarrow> outdone es w" using beats_self by (auto simp: outdone)
  have sh: "shown N ?fs w = bare ((version_in N es w)\<lparr>w_flags := w_flags (version_in N es w) OR (if outdone es w then SUPERSEDED else 0)\<rparr>)"
    by (simp add: shown_def self version_other [OF eds])
  have fst: "fst ws = (if outdone es w then flagged_over v else v)"
  proof (cases "w_opm w")
    case True
    from group_outdone [OF h ok new True ties [OF _ _ _ True]] R(1) True show ?thesis by (simp add: ws1)
  next
    case False
    then show ?thesis by (simp add: ws1 outdone_iff)
  qed
  have "bare (flagged_over v) = bare (flagged_over (version_in N es w))"
    by (simp only: bare_flagged [of v] bare_flagged [of "version_in N es w"] v)
  then show "bare (fst ws) = shown N ?fs w" using v by (simp add: fst sh flagged_over_def)
qed

lemma retag_step:
  assumes srt: "by_id (i_rows t)" and known: "tagged_known N (i_rows t) (i_tagged t)"
    and ix: "\<And>x. x \<in> set (i_rows t) \<Longrightarrow> w_ix x = ixKeys N (w_type x) (decode_row N x) @ alltags N x old"
    and moved: "\<And>x. x \<in> set (i_rows t) \<Longrightarrow> alltags N x (i_rows t) = alltags N x old \<or>
      w_id x = b \<and> (\<exists>u o1 xs ys k off. tag_of N u = Some (o1, k, off) \<and> alltags N x (i_rows t) = on_tags N (xs @ u # ys) \<and>
        alltags N x old = on_tags N (xs @ ys))"
  shows "by_id (i_rows (retag N b t))" "map_option bare (get_row i (i_rows (retag N b t))) = map_option bare (get_row i (i_rows t))"
    "x \<in> set (i_rows (retag N b t)) \<Longrightarrow> w_ix x = ixKeys N (w_type x) (decode_row N x) @ alltags N x (i_rows (retag N b t))"
    "tagged_known N (i_rows (retag N b t)) (i_tagged (retag N b t))"
    "i_changes (retag N b t) = i_changes t" "i_changeTargets (retag N b t) = i_changeTargets t" "i_tagged (retag N b t) = i_tagged t"
proof -
  have "by_id (i_rows (retag N b t)) \<and> (\<forall>i. map_option bare (get_row i (i_rows (retag N b t))) = map_option bare (get_row i (i_rows t))) \<and>
    (\<forall>x\<in>set (i_rows (retag N b t)). w_ix x = ixKeys N (w_type x) (decode_row N x) @ alltags N x (i_rows (retag N b t))) \<and>
    tagged_known N (i_rows (retag N b t)) (i_tagged (retag N b t))"
  proof (cases "get_row b (i_rows t)")
    case None
    then have "w_id x \<noteq> b" if "x \<in> set (i_rows t)" for x using that by (auto simp: get_row_def find_None_iff)
    with None srt known ix moved show ?thesis by (simp add: retag_def)
  next
    case (Some y)
    then have y: "y \<in> set (i_rows t)" "w_id y = b" by (simp_all add: get_row_mem [OF srt])
    have only: "x = y" if "x \<in> set (i_rows t)" "w_id x = b" for x
      using that y by_id_distinct [OF srt] by (auto simp: distinct_map dest: inj_onD)
    let ?ix = "ixKeys N (w_type y) (decode_row N y) @ alltags N y (i_rows t)"
    have new: "ix_of N y (decode_row N y) t = ?ix" using tagKeys_alltags [OF known] by (simp add: ix_of_def)
    show ?thesis
    proof (cases "join [CHR 0x0A] ?ix = join [CHR 0x0A] (w_ix y)")
      case True
      then have "retag N b t = t" using Some new by (simp add: retag_def)
      moreover have "alltags N y (i_rows t) = alltags N y old"
        using moved [OF y(1)] tags_joined True ix [OF y(1)] by (elim disjE conjE exE) metis+
      ultimately show ?thesis using srt known ix moved only by fastforce
    next
      case False
      let ?y = "y\<lparr>w_ix := ?ix\<rparr>"
      have r: "i_rows (retag N b t) = put_row ?y (i_rows t)" "i_tagged (retag N b t) = i_tagged t"
        using Some new False by (simp_all add: retag_def Let_def)
      have notag: "w_type y \<noteq> ''hg/tag''"
      proof
        assume "w_type y = ''hg/tag''"
        then have "alltags N y rows = []" for rows by (simp add: alltags_def is_hg_def)
        with ix [OF y(1)] False show False by simp
      qed
      have same: "alltags N x (put_row ?y (i_rows t)) = alltags N x (i_rows t)" for x
        by (rule alltags_put) (use notag only y(2) in auto)
      have alls: "alltags N ?y rows = alltags N y rows" for rows by (rule alltags_cong) simp_all
      have "tag_of N ?y = tag_of N y" by (simp add: tag_of_def)
      then have "tagged_known N (put_row ?y (i_rows t)) (i_tagged t)"
        using known notag set_put_row [OF srt, of ?y] by (auto simp: tagged_known_def)
      moreover have "w_ix x = ixKeys N (w_type x) (decode_row N x) @ alltags N x (put_row ?y (i_rows t))" if "x \<in> set (put_row ?y (i_rows t))" for x
      proof (cases "x = ?y")
        case True
        have "decode_row N ?y = decode_row N y" by (simp add: decode_row_def)
        then show ?thesis unfolding True same alls by simp
      next
        case False
        with that have x: "x \<in> set (i_rows t)" "w_id x \<noteq> b" using set_put_row [OF srt, of ?y] y(2) by auto
        with ix [OF x(1)] moved [OF x(1)] same [of x] show ?thesis by auto
      qed
      moreover have "map_option bare (get_row i (put_row ?y (i_rows t))) = map_option bare (get_row i (i_rows t))" for i
        using Some y(2) by (simp add: get_put_row [OF srt])
      ultimately show ?thesis unfolding r using put_row_sorted [OF srt, of ?y] by blast
    qed
  qed
  then show "by_id (i_rows (retag N b t))" "map_option bare (get_row i (i_rows (retag N b t))) = map_option bare (get_row i (i_rows t))"
    "x \<in> set (i_rows (retag N b t)) \<Longrightarrow> w_ix x = ixKeys N (w_type x) (decode_row N x) @ alltags N x (i_rows (retag N b t))"
    "tagged_known N (i_rows (retag N b t)) (i_tagged (retag N b t))" by blast+
  show "i_changes (retag N b t) = i_changes t" "i_changeTargets (retag N b t) = i_changeTargets t" "i_tagged (retag N b t) = i_tagged t"
    by (simp_all add: retag_def Let_def split: option.split)
qed

lemma bare_decode: "bare a = bare b \<Longrightarrow> decode_row N a = decode_row N b"
  unfolding decode_row_def by (metis bare_simps(2,8,9))

lemma bare_alltags: "bare a = bare b \<Longrightarrow> alltags N a rows = alltags N b rows"
  by (rule alltags_cong) (metis bare_simps)+

text \<open>What \<open>insert_row\<close> does to the collections, with the tag it brings to a record.\<close>

definition tagged_in :: "ienv \<Rightarrow> jsval option \<Rightarrow> bytes option" where
  "tagged_in N values = (case Option.bind values (\<lambda>v. case prop_of v ''on'' of JStr on \<Rightarrow> Some on | _ \<Rightarrow> None) of
     None \<Rightarrow> None | Some on \<Rightarrow> (case idBytes (n_ce N) (n_Z N) (IdText on) of Inl e \<Rightarrow> None | Inr b \<Rightarrow> Some b))"

lemma insert_row_eq:
  assumes "\<not> n_personal N"
  shows "insert_row N l values w s =
    (let ws = (if w_opm w then onePerMember w s else (w, s));
         s3 = noted (fst ws) None (account N (fst ws) [] (w_ix (fst ws)) (set_row (fst ws) (snd ws)))
     in if w_type (fst ws) = ''hg/tag'' then (case tagged_in N values of None \<Rightarrow> s3 | Some b \<Rightarrow> retag N b (s3\<lparr>i_tagged := b # i_tagged s3\<rparr>)) else s3)"
  using assms by (simp add: insert_row_def tagged_in_def Let_def split_beta split: option.split sum.split)

lemma tag_of_tagged_in:
  assumes "w_type w = ''hg/tag''" "values = decode_row N w" "tag_of N w = Some (on, tag, off)"
  shows "tagged_in N values = Some on"
  using assms by (auto simp: tag_of_def tagged_in_def decode_row_def split: option.splits jsval.splits if_splits sum.splits)

lemma insert_step:
  assumes h: "holds_in N es s" and ok: "told_well N (es @ [Putting w values])" and nd: "\<not> deleted_in N es w"
    and v: "bare v = bare (version_in N es w)" and vix: "w_ix v = ixKeys N (w_type v) (decode_row N v) @ alltags N v (i_rows s)"
    and np: "\<not> n_personal N"
  shows "holds_in N (es @ [Putting w values]) (insert_row N l values v s)"
proof -
  let ?fs = "es @ [Putting w values]"
  define ws where "ws = (if w_opm v then onePerMember v s else (v, s))"
  note D = holds_inD [OF h] and P = placed [OF h ok nd v ws_def]
  let ?w = "fst ws" and ?R = "put_row (fst ws) (i_rows (snd ws))"
  define s3 where "s3 = noted ?w None (account N ?w [] (w_ix ?w) (set_row ?w (snd ws)))"
  have s3: "i_rows s3 = ?R" "i_changes s3 = i_changes s" "i_changeTargets s3 = i_changeTargets s" "i_tagged s3 = i_tagged s"
    by (simp_all add: s3_def P(7-9))
  have as: "as_put N w" using ok by (simp add: told_well_def)
  have vw: "w_id v = w_id w" "w_type v = w_type w" using arg_cong [OF v, of w_id] arg_cong [OF v, of w_type] by simp_all
  have ww: "w_id ?w = w_id w" "w_type ?w = w_type w" "w_ix ?w = w_ix v" "decode_row N ?w = decode_row N v" "\<And>rows. alltags N ?w rows = alltags N v rows"
    using P(3) vw alltags_cong [of "flagged_over v" v N] by auto
  have new: "w_id ?w \<notin> set (ids (i_rows (snd ws)))" using P(2) ww(1) by simp
  have srt: "by_id ?R" by (rule put_row_sorted [OF P(1)])
  have setR: "set ?R = insert ?w (set (i_rows (snd ws)))" using set_put_row [OF P(1), of ?w] new by (auto simp: image_iff)
  have rows: "map_option bare (get_row i ?R) = map_option (shown N ?fs) (put_in N ?fs i)" for i
  proof (cases "i = w_id w")
    case True
    have "distinct (ids (puts ?fs))" using ok by (simp add: told_well_def)
    moreover have "\<not> deleted_in N ?fs w" using nd by (simp add: deleted_in_def edits_snoc)
    ultimately have "put_in N ?fs i = Some w" using True by (subst put_in_Some) simp_all
    with True P(4) ww show ?thesis by (simp add: get_put_row [OF P(1)])
  next
    case False
    with P(5) [OF False] ww show ?thesis by (simp add: get_put_row [OF P(1)])
  qed
  have notag_opm: "''hg/tag'' \<noteq> w_type w \<or> \<not> w_opm w" using as by (auto simp: as_put_def)
  have old: "alltags N x (i_rows (snd ws)) = alltags N x (i_rows s)" for x
    using P(11) [OF notag_opm] by (simp add: alltags_def tags_among_def)
  have ix: "w_ix x = ixKeys N (w_type x) (decode_row N x) @ alltags N x (i_rows s)" if "x \<in> set ?R" for x
  proof (cases "x = ?w")
    case True
    show ?thesis unfolding True ww using vix vw by simp
  next
    case False
    with that setR have "get_row (w_id x) (i_rows (snd ws)) = Some x" by (simp add: get_row_mem [OF P(1)])
    from P(6) [OF this] show ?thesis
    proof (elim disjE conjE exE)
      fix q assume q: "get_row (w_id x) (i_rows s) = Some q" "x = flagged_over q"
      from D(3) [OF q(1)] show ?thesis unfolding q(2) using alltags_cong [of "flagged_over q" q N] by simp
    qed (rule D(3))
  qed
  have keys: "by_key (i_changes s3)" "set (i_changes s3) = set (chs ?fs)" "ch_target ` set (chs ?fs) \<subseteq> set (i_changeTargets s3)"
    using D(4-6) by (auto simp: s3)
  have kept: "x \<in> set (i_rows s)" if "x \<in> set (i_rows (snd ws))" "w_type x = ''hg/tag''" for x
  proof -
    have "get_row (w_id x) (i_rows (snd ws)) = Some x" using that by (simp add: get_row_mem [OF P(1)])
    from P(6) [OF this] show ?thesis using get_row_mem [OF D(1)] that(2) notag_opm by auto
  qed
  have ins: "insert_row N l values v s =
      (if w_type w = ''hg/tag'' then (case tagged_in N values of None \<Rightarrow> s3 | Some b \<Rightarrow> retag N b (s3\<lparr>i_tagged := b # i_tagged s3\<rparr>)) else s3)"
    unfolding insert_row_eq [OF np] ws_def [symmetric] Let_def s3_def [symmetric] ww(2) ..
  show ?thesis
  proof (cases "w_type w = ''hg/tag''")
    case False
    have "alltags N x ?R = alltags N x (i_rows s)" for x
      unfolding old [symmetric] by (rule alltags_put) (use False ww new in \<open>auto simp: image_iff\<close>)
    moreover have "tagged_known N ?R (i_tagged s)"
      using D(7) kept False ww setR by (auto simp: tagged_known_def)
    ultimately show ?thesis using False srt rows ix keys by (simp add: ins holds_in_def s3)
  next
    case True
    then have "edits_in N es w = []"
      using ok by (auto simp: edits_in_def allowed_changes_def mayChange_def changes_of_def told_well_def filter_empty_conv)
    then have vb: "bare v = bare w" using v by (simp add: version_in_def)
    have ws2: "ws = (v, s)" using P(10) notag_opm True by simp
    have vals: "values = decode_row N v" using ok True bare_decode [OF vb] by (auto simp: told_well_def)
    have vt: "w_type v = ''hg/tag''" using vw True by simp
    have moved: "alltags N x ?R = alltags N x (i_rows s) \<or>
      (\<exists>on k off xs ys. tag_of N v = Some (on, k, off) \<and> w_id x = on \<and> alltags N x ?R = on_tags N (xs @ v # ys) \<and> alltags N x (i_rows s) = on_tags N (xs @ ys))" for x
      using alltags_tag [OF new, of N x] by (auto simp: ws2)
    show ?thesis
    proof (cases "tagged_in N values")
      case None
      then have nt: "tag_of N v = None"
        using tag_of_tagged_in [OF vt vals] by (cases "tag_of N v") auto
      with moved have "alltags N x ?R = alltags N x (i_rows s)" for x by auto
      moreover have "tagged_known N ?R (i_tagged s)" using D(7) nt setR by (auto simp: tagged_known_def ws2)
      ultimately show ?thesis using True None srt rows ix keys by (simp add: ins holds_in_def s3)
    next
      case (Some b)
      let ?t = "s3\<lparr>i_tagged := b # i_tagged s3\<rparr>"
      have on: "on = b" if "tag_of N v = Some (on, k, off)" for on k off using tag_of_tagged_in [OF vt vals that] Some by simp
      have tk: "tagged_known N (i_rows ?t) (i_tagged ?t)" using D(7) on setR by (auto simp: tagged_known_def ws2 s3)
      have mv: "alltags N x (i_rows ?t) = alltags N x (i_rows s) \<or>
          w_id x = b \<and> (\<exists>u o1 xs ys k off. tag_of N u = Some (o1, k, off) \<and> alltags N x (i_rows ?t) = on_tags N (xs @ u # ys) \<and>
            alltags N x (i_rows s) = on_tags N (xs @ ys))" for x
        using moved [of x] on by (auto simp: s3)
      have t: "by_id (i_rows ?t)" "\<And>x. x \<in> set (i_rows ?t) \<Longrightarrow> w_ix x = ixKeys N (w_type x) (decode_row N x) @ alltags N x (i_rows s)"
        using srt ix by (simp_all add: s3)
      note R = retag_step [OF t(1) tk t(2) mv]
      have "i_rows ?t = ?R" "i_changes ?t = i_changes s3" "i_changeTargets ?t = i_changeTargets s3" by (simp_all add: s3)
      with R have R: "by_id (i_rows (retag N b ?t))" "\<And>i. map_option bare (get_row i (i_rows (retag N b ?t))) = map_option bare (get_row i ?R)"
        "\<And>x. x \<in> set (i_rows (retag N b ?t)) \<Longrightarrow> w_ix x = ixKeys N (w_type x) (decode_row N x) @ alltags N x (i_rows (retag N b ?t))"
        "tagged_known N (i_rows (retag N b ?t)) (i_tagged (retag N b ?t))"
        "i_changes (retag N b ?t) = i_changes s3" "i_changeTargets (retag N b ?t) = i_changeTargets s3"
        by (simp_all only:)
      have "holds_in N ?fs (retag N b ?t)" unfolding holds_in_def using R rows keys by simp
      with True Some show ?thesis by (simp add: ins)
    qed
  qed
qed

lemma put_step:
  assumes h: "holds_in N es s" and ok: "told_well N (es @ [Putting w values])" and np: "\<not> n_personal N"
  defines "w1 \<equiv> w\<lparr>w_ix := w_ix w @ tagKeys N w s\<rparr>"
    and "pending \<equiv> (if n_hadChanges N \<or> w_id w \<in> set (i_changeTargets s) then changes_of (w_id w) (i_changes s) else [])"
  shows "get_row (w_id w) (i_rows s) = None"
    "holds_in N (es @ [Putting w values]) (case (if pending = [] then (Same, w1, s) else settle_row N w1 pending True s) of
       (Gone g, v, s1) \<Rightarrow> noted v (Some g) s1 | (_, v, s1) \<Rightarrow> insert_row N l values v s1)"
proof -
  let ?fs = "es @ [Putting w values]"
  note D = holds_inD [OF h]
  have oks: "told_well N es" using ok by (rule told_well_take)
  have as: "as_put N w" and inj: "inj_on ch_version (set (chs es))" and new: "w_id w \<notin> set (ids (puts es))"
    using ok by (auto simp: told_well_def no_ties_def)
  have "put_in N es (w_id w) = None" using new by (auto simp: put_in_def find_None_iff image_iff)
  then show none: "get_row (w_id w) (i_rows s) = None" using D(2) [of "w_id w"] by simp
  have "settle_row N w1 [] True s = (Same, w1, s)" by (simp add: settle_row_def allowed_changes_def)
  then have sp: "(if pending = [] then (Same, w1, s) else settle_row N w1 pending True s) = settle_row N w1 pending True s" by auto
  have pend: "set pending = set (changes_of (w_id w) (chs es))"
  proof (cases "n_hadChanges N \<or> w_id w \<in> set (i_changeTargets s)")
    case False
    with D(6) have "changes_of (w_id w) (chs es) = []" by (fastforce simp: changes_of_def filter_empty_conv)
    with False show ?thesis by (simp add: pending_def)
  qed (use D(5) in \<open>simp add: pending_def changes_of_def\<close>)
  note S = settle_pending [OF as pend inj D(7), folded w1_def]
  show "holds_in N ?fs (case (if pending = [] then (Same, w1, s) else settle_row N w1 pending True s) of
       (Gone g, v, s1) \<Rightarrow> noted v (Some g) s1 | (_, v, s1) \<Rightarrow> insert_row N l values v s1)"
  proof (cases "deleted_in N es w")
    case True
    from S(1) [OF True] obtain g s2 where s2: "settle_row N w1 pending True s = (Gone g, w1, s2)"
      "i_rows s2 = i_rows s" "i_changes s2 = i_changes s" "i_changeTargets s2 = i_changeTargets s" "i_tagged s2 = i_tagged s" by blast
    have del: "deleted_in N ?fs x = deleted_in N es x" for x by (simp add: deleted_in_def edits_snoc)
    have none: "\<not> (w_opm w \<and> w_opm x \<and> same_group w x \<and> beats w x)" if "x \<in> set (puts es)" for x
      using deleted_beats_none [OF ok, of w x] True del that by auto
    have "find Q (xs @ [w]) = find Q xs" if "\<not> Q w" for Q and xs :: "row list" using that by (induction xs) auto
    then have "put_in N ?fs i = put_in N es i" for i using True by (simp add: put_in_def del)
    moreover have "outdone ?fs x = outdone es x" if "x \<in> set (puts es)" for x using none [OF that] by (auto simp: outdone_iff)
    then have "shown N ?fs x = shown N es x" if "x \<in> set (puts es)" for x using that by (intro shown_cong edits_snoc)
    then have "map_option (shown N ?fs) (put_in N es i) = map_option (shown N es) (put_in N es i)" for i
      using put_in_id [of N es i] by (cases "put_in N es i") auto
    ultimately have "holds_in N ?fs s" using h by (simp add: holds_in_def)
    then show ?thesis unfolding sp unfolding s2(1) by (auto intro!: holds_in_same [OF \<open>holds_in N ?fs s\<close>] simp: s2)
  next
    case False
    from S(2) [OF False] obtain k v where kv: "settle_row N w1 pending True s = (k, v, s)" "\<forall>g. k \<noteq> Gone g"
      "bare v = bare (version_in N es w)" "w_ix v = ixKeys N (w_type v) (decode_row N v) @ alltags N v (i_rows s)" by blast
    from insert_step [OF h ok False kv(3,4) np, of l] kv(2) show ?thesis unfolding sp unfolding kv(1) by (cases k) auto
  qed
qed

lemma skip_step: "holds_in N es s \<Longrightarrow> holds_in N (es @ [Skipped]) s"
proof -
  have d: "deleted_in N (es @ [Skipped]) x = deleted_in N es x" for x by (simp add: deleted_in_def edits_snoc)
  have "shown N (es @ [Skipped]) x = shown N es x" for x by (rule shown_cong) (simp_all add: edits_snoc outdone_def)
  then have "shown N (es @ [Skipped]) = shown N es" by blast
  moreover have "put_in N (es @ [Skipped]) = put_in N es" by (rule ext) (simp add: put_in_def d)
  ultimately show "holds_in N es s \<Longrightarrow> holds_in N (es @ [Skipped]) s" by (simp add: holds_in_def)
qed

text \<open>One block, whatever came before it.\<close>

lemma one_step:
  assumes h: "holds_in N es s" and ok: "told_well N (es @ [effect_of N (l, seq, bs)])" and np: "\<not> n_personal N"
  shows "holds_in N (es @ [effect_of N (l, seq, bs)]) (one N l rescanned seq bs s)"
proof (cases "enat seq < g_limit l")
  case False
  then show ?thesis using skip_step [OF h] by (simp add: effect_of_def one_def)
next
  case lim: True
  show ?thesis
  proof (cases "checkRecord (n_ce N) (n_Z N) (n_types N) (Some (n_unseal N l seq)) bs")
    case (Refused why)
    then show ?thesis using lim skip_step [OF h] by (simp add: effect_of_def one_def)
  next
    case chk: (Checked r unread vs)
    define s1 where "s1 = (if g_identity l = n_me N then s\<lparr>i_stamper := seen (l_stamp r) (i_stamper s)\<rparr> else s)"
    define s2 where "s2 = (if l_type r = ''hg/device-remove''
       then s1\<lparr>i_removals := i_removals s1 @ [(case vs of None \<Rightarrow> JNull | Some v \<Rightarrow> v, g_identity l)]\<rparr> else s1)"
    have h1: "holds_in N es s1" "holds_in N es s2"
      by (rule holds_in_same [OF h]; simp add: s1_def s2_def)+
    let ?i = "record_id N l seq" and ?e = "effect_of N (l, seq, bs)"
    show ?thesis
    proof (cases "n_allowed N l r vs \<and> builtinValid r vs")
      case False
      then have "?e = Skipped" "one N l rescanned seq bs s = s1" using lim chk by (auto simp: effect_of_def one_def s1_def)
      then show ?thesis using skip_step [OF h1(1)] by simp
    next
      case okay: True
      have run: "one N l rescanned seq bs s = (if l_kind r \<noteq> PUT
          then (case l_target r of None \<Rightarrow> s2 | Some target \<Rightarrow> one_change N l r target vs ?i s2)
          else one_put N l seq rescanned r unread vs ?i s2)"
        using lim chk okay by (simp add: one_def s1_def s2_def Let_def cong: option.case_cong)
      show ?thesis
      proof (cases "l_kind r = PUT")
        case put: True
        let ?skip = "isRemoved (n_state N) (hex ?i) \<or> breaks N (l_type r) vs ?i l (l_stamp r) \<noteq> None"
        show ?thesis
        proof (cases ?skip)
          case True
          then have "?e = Skipped" using lim chk okay put by (simp add: effect_of_def Let_def)
          moreover have "holds_in N es (one_put N l seq rescanned r unread vs ?i s2)"
            using True by (intro holds_in_same [OF h1(2)]) (auto simp: one_put_def)
          ultimately show ?thesis using skip_step run put by simp
        next
          case False
          let ?w = "new_row N l seq r unread vs ?i"
          have e: "?e = Putting ?w vs" using False lim chk okay put by (simp add: effect_of_def Let_def)
          have i: "w_id ?w = ?i" by (simp add: new_row_def Let_def)
          note P = put_step [OF h1(2) ok [unfolded e] np]
          show ?thesis unfolding e using P(1) [unfolded i] P(2) [of l, unfolded i] False run put by (simp add: one_put_def Let_def)
        qed
      next
        case change: False
        show ?thesis
        proof (cases "l_target r")
          case None
          then have "?e = Skipped" using lim chk okay change by (simp add: effect_of_def Let_def)
          then show ?thesis using skip_step [OF h1(2)] run change None by simp
        next
          case (Some target)
          let ?skip = "isRemoved (n_state N) (hex target) \<or> l_kind r = EDIT \<and> breaks N (l_type r) vs target l (l_stamp r) \<noteq> None"
          show ?thesis
          proof (cases ?skip)
            case True
            then have "?e = Skipped" using lim chk okay change Some by (simp add: effect_of_def Let_def)
            moreover have "holds_in N es (one_change N l r target vs ?i s2)"
              using True by (intro holds_in_same [OF h1(2)]) (auto simp: one_change_def)
            ultimately show ?thesis using skip_step run change Some by simp
          next
            case False
            let ?c = "\<lparr>ch_target = target, ch_id = ?i, ch_kind = l_kind r, ch_type = l_type r, ch_author = g_identity l,
              ch_device = g_device l, ch_stamp = l_stamp r, ch_fields = l_fields r, ch_links = l_links r\<rparr>"
            let ?s3 = "s2\<lparr>i_changes := put_change ?c (i_changes s2), i_changeTargets := target # i_changeTargets s2\<rparr>"
            have e: "?e = Changing ?c" using False lim chk okay change Some by (simp add: effect_of_def Let_def)
            have eq: "one N l rescanned seq bs s = (case get_row target (i_rows ?s3) of
               None \<Rightarrow> if l_kind r = DELETE then ?s3\<lparr>i_wiped := i_wiped ?s3 @ [(target, Some (g_identity l))]\<rparr> else ?s3
             | Some w \<Rightarrow> (case settle_row N w [?c] False ?s3 of
                 (Same, v, s2) \<Rightarrow> s2 | (Edited, v, s2) \<Rightarrow> noted v None s2 | (Gone g, v, s2) \<Rightarrow> noted v (Some g) s2))"
              using False run change Some by (auto simp: one_change_def Let_def)
            have s3: "?s3 = s2\<lparr>i_changes := put_change ?c (i_changes s2), i_changeTargets := ch_target ?c # i_changeTargets s2\<rparr>" by simp
            note C = change_step [OF h1(2) ok [unfolded e] s3]
            show ?thesis
            proof (cases "get_row target (i_rows ?s3)")
              case None
              then have "holds_in N (es @ [Changing ?c]) ?s3" using C(1) by simp
              then show ?thesis unfolding e eq None option.case by (rule holds_in_same) simp_all
            next
              case (Some w)
              then have "holds_in N (es @ [Changing ?c]) (snd (snd (settle_row N w [?c] False ?s3)))" using C(2) by simp
              then show ?thesis unfolding e eq Some option.case
                by (rule holds_in_same) (auto split: prod.split settled.split)
            qed
          qed
        qed
      qed
    qed
  qed
qed

end
