(* ===== verification/Any_Order.thy ===== *)
theory Any_Order
  imports Arrival
begin

text \<open>
  Whatever the order in which blocks arrive, the index ends the same and shows each record at its latest
  version (from \<open>one_step\<close> of Arrival by induction on the blocks), with examples of votes and notes, and what
  the code does otherwise when a vote is deleted.
\<close>

section \<open>Any order\<close>

definition arrive :: "ienv \<Rightarrow> bool \<Rightarrow> (dlog \<times> nat \<times> bytes) list \<Rightarrow> indexer \<Rightarrow> indexer" where
  "arrive N rescanned bs s = fold (\<lambda>(l, seq, b). one N l rescanned seq b) bs s"

definition effects :: "ienv \<Rightarrow> (dlog \<times> nat \<times> bytes) list \<Rightarrow> effect list" where
  "effects N bs = map (effect_of N) bs"

text \<open>A space that is not the personal one, with Hypergraph's own tags, and a record written in the clear in a private
  space read without content.\<close>

definition env_ok :: "ienv \<Rightarrow> bool" where
  "env_ok N \<longleftrightarrow> \<not> n_personal N \<and> (\<forall>t. map_of (n_types N) ''hg/tag'' = Some t \<longrightarrow> \<not> t_onePerMember t) \<and>
     (\<forall>l seq r r'. n_unseal N l seq r = Unreadable r' \<longrightarrow> l_fields r' = [])"

definition places :: "ienv \<Rightarrow> (dlog \<times> nat \<times> bytes) list \<Rightarrow> bytes list" where
  "places N bs = map (\<lambda>(l, seq, b). record_id N l seq) bs"

text \<open>Fields that are not there have no keys.\<close>

lemma keys_of_nothing: "ixKeys N name (decode_record (n_ce N) (n_Z N) (n_types N) name [] ls) = []"
proof (cases "map_of (n_types N) name")
  case (Some t)
  have "decode_record (n_ce N) (n_Z N) (n_types N) name [] ls = Some (JObj (zip (map fst (t_fields t)) (replicate (length (t_fields t)) JNull)))"
    using Some by (simp add: decode_record_def decode_fields_def decode_each.simps)
  moreover have "absent (prop_of (JObj (zip ns (replicate k JNull))) f)" for ns f and k :: nat
    by (auto simp: absent_def split: option.split dest!: map_of_SomeD set_zip_rightD)
  ultimately show ?thesis using Some by (simp add: ixKeys_def list_ex_iff)
qed (simp add: ixKeys_def decode_record_def)

lemma effect_put:
  assumes "effect_of N (l, seq, bs) = Putting w vs" "env_ok N"
  shows "w_id w = record_id N l seq" "as_put N w" "w_type w = ''hg/tag'' \<Longrightarrow> vs = decode_row N w"
proof -
  from assms(1) obtain r unread where chk: "checkRecord (n_ce N) (n_Z N) (n_types N) (Some (n_unseal N l seq)) bs = Checked r unread vs"
    and valid: "builtinValid r vs" and kind: "l_kind r = PUT" and w: "w = new_row N l seq r unread vs (record_id N l seq)"
    by (auto simp: effect_of_def Let_def split: if_splits checked.splits option.splits)
  have w': "w_type w = l_type r" "w_fields w = l_fields r" "w_links w = l_links r" "w_ix w = ixKeys N (l_type r) vs"
    by (simp_all add: w new_row_def Let_def)
  show "w_id w = record_id N l seq" by (simp add: w new_row_def Let_def)
  have same: "check_type (n_ce N) (n_Z N) (n_types N) q = Checked r unread vs \<Longrightarrow> q = r" for q
    by (auto simp: check_type_def split: if_splits option.splits)
  from chk obtain r0 where r0: "decodeRecord (n_ce N) bs = Inr r0"
    "(unread \<and> vs = None \<and> n_unseal N l seq r0 = Unreadable r) \<or> check_type (n_ce N) (n_Z N) (n_types N) r = Checked r unread vs"
    by (auto simp: checkRecord_def split: sum.splits if_splits opened.splits dest: same)
  consider "unread" "vs = None" "l_fields r = []" | "\<not> unread" "map_of (n_types N) (l_type r) = None" "vs = None"
    | "\<not> unread" "decode_record (n_ce N) (n_Z N) (n_types N) (l_type r) (l_fields r) (l_links r) = vs"
    using r0(2) assms(2) kind unfolding env_ok_def
    by (auto simp: check_type_def PUT_def DELETE_def split: if_splits option.splits)
  then have dec: "ixKeys N (w_type w) (decode_row N w) = ixKeys N (l_type r) vs"
  proof cases
    case 1
    have "ixKeys N (l_type r) (decode_row N w) = []" using keys_of_nothing [of N "l_type r" "w_links w"] 1(3) w' by (simp add: decode_row_def)
    with 1 w' show ?thesis by (simp add: ixKeys_def)
  next
    case 2
    with w' show ?thesis by (simp add: ixKeys_def decode_row_def decode_record_def)
  next
    case 3
    with w' show ?thesis by (simp add: decode_row_def)
  qed
  have "w_flags w = modFlags 0 (q_moderation (n_state N) (hex (record_id N l seq))) OR (if unread then UNREADABLE else 0)"
    by (simp add: w new_row_def Let_def)
  then have flags: "\<not> superseded w"
    by (simp add: superseded_def modFlags_def HIDDEN_def FLAGGED_def SUPERSEDED_def UNREADABLE_def)
  have "row_version w = put_version w" by (simp add: w new_row_def Let_def row_version_def put_version_def)
  moreover have "\<not> w_opm w" if "w_type w = ''hg/tag''"
    using assms(2) that by (auto simp: w new_row_def Let_def env_ok_def split: option.split)
  ultimately show "as_put N w" using dec flags w' by (simp add: as_put_def)
  show "vs = decode_row N w" if "w_type w = ''hg/tag''"
  proof -
    from valid that w' obtain v where "vs = Some v" by (auto simp: builtinValid_def split: option.splits)
    with r0(2) that w' kind show ?thesis
      by (auto simp: check_type_def decode_row_def PUT_def DELETE_def split: if_splits option.splits)
  qed
qed

lemma effect_change: "effect_of N (l, seq, bs) = Changing c \<Longrightarrow> ch_id c = record_id N l seq \<and> ch_type c \<noteq> ''hg/tag''"
  by (auto simp: effect_of_def builtinValid_def Let_def split: if_splits checked.splits option.splits)

lemma puts_set: "w \<in> set (puts es) \<longleftrightarrow> (\<exists>vs. Putting w vs \<in> set es)"
  by (induction es) (auto simp: puts_def split: effect.splits)

lemma chs_set: "c \<in> set (chs es) \<longleftrightarrow> Changing c \<in> set es"
  by (induction es) (auto simp: chs_def split: effect.splits)

lemma effects_mem:
  assumes "e \<in> set (effects N bs)"
  obtains l seq b where "effect_of N (l, seq, b) = e" "record_id N l seq \<in> set (places N bs)"
  using assms by (force simp: effects_def places_def)

lemma effects_ids:
  assumes "env_ok N"
  shows "set (ids (puts (effects N bs))) \<subseteq> set (places N bs)" "set (map ch_id (chs (effects N bs))) \<subseteq> set (places N bs)"
    "distinct (places N bs) \<Longrightarrow> distinct (ids (puts (effects N bs))) \<and> distinct (map ch_id (chs (effects N bs)))"
proof -
  have sub: "set (ids (puts (effects N bs))) \<subseteq> set (places N bs) \<and> set (map ch_id (chs (effects N bs))) \<subseteq> set (places N bs)" for bs
  proof -
    have "w_id w \<in> set (places N bs)" if "w \<in> set (puts (effects N bs))" for w
      using that unfolding puts_set by (metis effects_mem effect_put(1) [OF _ assms])
    moreover have "ch_id c \<in> set (places N bs)" if "c \<in> set (chs (effects N bs))" for c
      using that unfolding chs_set by (metis effects_mem effect_change)
    ultimately show ?thesis by auto
  qed
  then show "set (ids (puts (effects N bs))) \<subseteq> set (places N bs)" "set (map ch_id (chs (effects N bs))) \<subseteq> set (places N bs)" by blast+
  show "distinct (places N bs) \<Longrightarrow> distinct (ids (puts (effects N bs))) \<and> distinct (map ch_id (chs (effects N bs)))"
  proof (induction bs)
    case (Cons b bs)
    obtain l seq x where b: "b = (l, seq, x)" by (cases b)
    have new: "record_id N l seq \<notin> set (places N bs)" and IH: "distinct (ids (puts (effects N bs)))" "distinct (map ch_id (chs (effects N bs)))"
      using Cons by (auto simp: places_def b)
    have cons: "effects N (b # bs) = effect_of N (l, seq, x) # effects N bs" by (simp add: effects_def b)
    show ?case
    proof (cases "effect_of N (l, seq, x)")
      case (Putting w vs)
      from effect_put(1) [OF this assms] new sub [of bs] IH show ?thesis by (auto simp: cons Putting)
    next
      case (Changing c)
      from effect_change [OF this] new sub [of bs] IH show ?thesis by (auto simp: cons Changing)
    qed (use IH in \<open>simp add: cons\<close>)
  qed (simp add: effects_def)
qed

lemma effects_told_well:
  assumes "env_ok N" "distinct (places N bs)" "no_ties (effects N bs)" "no_later_vote_deleted N (effects N bs)"
  shows "told_well N (effects N bs)"
proof -
  have "as_put N w" if "w \<in> set (puts (effects N bs))" for w
    using that unfolding puts_set by (metis effects_mem effect_put(2) [OF _ assms(1)])
  moreover have "vs = decode_row N w" if "Putting w vs \<in> set (effects N bs)" "w_type w = ''hg/tag''" for w vs
    using that by (metis effects_mem effect_put(3) [OF _ assms(1)])
  moreover have "ch_type c \<noteq> ''hg/tag''" if "c \<in> set (chs (effects N bs))" for c
    using that unfolding chs_set by (metis effects_mem effect_change)
  ultimately show ?thesis using effects_ids(3) [OF assms(1,2)] assms(3,4) by (simp add: told_well_def)
qed

lemma arrive_holds:
  assumes "env_ok N" "distinct (places N bs)" "no_ties (effects N bs)" "no_later_vote_deleted N (effects N bs)"
    "i_rows s = []" "i_changes s = []"
  shows "holds_in N (effects N bs) (arrive N rescanned bs s)"
proof -
  have start: "holds_in N [] s" using assms(5,6) by (simp add: holds_in_def tagged_known_def put_in_def get_row_def)
  have "holds_in N (effects N as) (arrive N rescanned as s)" if "told_well N (effects N as)" for as
    using that
  proof (induction as rule: rev_induct)
    case (snoc b as)
    obtain l seq x where b: "b = (l, seq, x)" by (cases b)
    have e: "effects N (as @ [b]) = effects N as @ [effect_of N (l, seq, x)]" by (simp add: effects_def b)
    from snoc.prems have ok: "told_well N (effects N as @ [effect_of N (l, seq, x)])" by (simp only: e)
    have np: "\<not> n_personal N" using assms(1) by (simp add: env_ok_def)
    from one_step [OF snoc.IH [OF told_well_take [OF ok]] ok np, of rescanned]
    show ?case unfolding e by (simp add: arrive_def b)
  qed (simp add: effects_def arrive_def start)
  from this [OF effects_told_well [OF assms(1-4)]] show ?thesis .
qed

lemma order_free:
  assumes "told_well N es" "told_well N fs" "set fs = set es"
  shows "put_in N fs i = put_in N es i" "w \<in> set (puts es) \<Longrightarrow> shown N fs w = shown N es w"
proof -
  have p: "set (puts fs) = set (puts es)" and c: "set (chs fs) = set (chs es)" using assms(3) by (auto simp: puts_set chs_set)
  have e: "set (edits_in N fs w) = set (edits_in N es w)" for w using c by (auto simp: edits_in_def allowed_changes_def changes_of_def)
  have d: "deleted_in N fs w = deleted_in N es w" for w using e [of w] by (auto simp: deleted_in_def list_ex_iff)
  have dist: "distinct (ids (puts es))" "distinct (ids (puts fs))" using assms by (auto simp: told_well_def)
  have "put_in N fs i = Some w \<longleftrightarrow> put_in N es i = Some w" for w
    by (simp add: put_in_Some dist d p)
  then show "put_in N fs i = put_in N es i" by (metis not_Some_eq)
  have "latest ch_version (edits_in N fs w) = latest ch_version (edits_in N es w)" for w
  proof (rule latest_set [OF _ e])
    have "inj_on ch_version (set (chs es))" using assms(1) by (simp add: told_well_def no_ties_def)
    then show "inj_on ch_version (set (edits_in N es w))"
      by (rule inj_on_subset) (auto simp: edits_in_def allowed_changes_def changes_of_def)
  qed
  then have "version_in N fs w = version_in N es w" for w by (simp add: version_in_def)
  moreover have "outdone fs w = outdone es w" for w by (simp add: outdone_iff p)
  ultimately show "shown N fs w = shown N es w" for w by (simp add: shown_def)
qed

lemma held_determined:
  assumes h: "holds_in N es s" "holds_in N fs t" and ok: "told_well N es" "told_well N fs" "set fs = set es"
  shows "i_rows t = i_rows s" "i_changes t = i_changes s"
proof -
  note D = holds_inD [OF h(1)] and E = holds_inD [OF h(2)] and O = order_free [OF ok]
  have bare: "map_option bare (get_row i (i_rows t)) = map_option bare (get_row i (i_rows s))" for i
    using D(2) [of i] E(2) [of i] O(1) [of i] O(2) put_in_id by (cases "put_in N es i") auto
  have eqI: "v = v'" if "bare v = bare v'" "w_ix v = w_ix v'" for v v' :: row
    using that by (cases v; cases v') (simp add: bare_def)
  have tag: "get_row i (i_rows t) = Some v \<longleftrightarrow> get_row i (i_rows s) = Some v" if "w_type v = ''hg/tag''" for i v
  proof -
    have none: "alltags N x rows = []" if "w_type x = ''hg/tag''" for x rows using that by (simp add: alltags_def is_hg_def)
    have one: "get_row i (i_rows b) = Some v" if g: "get_row i (i_rows a) = Some v" and b: "map_option bare (get_row i (i_rows a)) = map_option bare (get_row i (i_rows b))"
      and ia: "w_ix v = ixKeys N (w_type v) (decode_row N v) @ alltags N v (i_rows a)"
      and ib: "\<And>x. get_row i (i_rows b) = Some x \<Longrightarrow> w_ix x = ixKeys N (w_type x) (decode_row N x) @ alltags N x (i_rows b)" for a b
    proof -
      from g b obtain x where x: "get_row i (i_rows b) = Some x" "bare v = bare x" by (cases "get_row i (i_rows b)") auto
      have tx: "w_type x = ''hg/tag''" using arg_cong [OF x(2), of w_type] \<open>w_type v = ''hg/tag''\<close> by simp
      have "w_ix v = w_ix x"
        using ia ib [OF x(1)] none [OF \<open>w_type v = ''hg/tag''\<close>] none [OF tx] bare_decode [OF x(2)] tx \<open>w_type v = ''hg/tag''\<close> by simp
      with eqI x show ?thesis by simp
    qed
    show ?thesis using one [of t s] one [of s t] bare [of i] D(3) [of i] E(3) [of i] by metis
  qed
  have "rows_linking j ''hg/tag'' (i_rows t) = rows_linking j ''hg/tag'' (i_rows s)" for j
  proof -
    have "x \<in> set (i_rows t) \<longleftrightarrow> x \<in> set (i_rows s)" if "w_type x = ''hg/tag''" for x
      using tag [OF that, of "w_id x"] get_row_mem [OF D(1)] get_row_mem [OF E(1)] by simp
    then have "set (filter (\<lambda>x. j \<in> set (w_links x) \<and> w_type x = ''hg/tag'') (i_rows t)) = set (filter (\<lambda>x. j \<in> set (w_links x) \<and> w_type x = ''hg/tag'') (i_rows s))"
      by auto
    with sorted_determined [OF by_id_filter [OF E(1)] by_id_filter [OF D(1)]] show ?thesis by (simp add: rows_linking_def)
  qed
  then have all: "alltags N v (i_rows t) = alltags N v (i_rows s)" for v by (simp add: alltags_def tags_among_def)
  show "i_rows t = i_rows s"
  proof (rule rows_determined [OF E(1) D(1)])
    fix i
    show "get_row i (i_rows t) = get_row i (i_rows s)"
    proof (cases "get_row i (i_rows t)")
      case None
      with bare [of i] show ?thesis by simp
    next
      case (Some v)
      with bare [of i] obtain x where x: "get_row i (i_rows s) = Some x" "bare v = bare x" by (cases "get_row i (i_rows s)") auto
      have "w_type v = w_type x" using arg_cong [OF x(2), of w_type] by simp
      with E(3) [OF Some] D(3) [OF x(1)] bare_decode [OF x(2)] bare_alltags [OF x(2)] all have "w_ix v = w_ix x" by simp
      with eqI x Some show ?thesis by simp
    qed
  qed
  have "set (i_changes t) = set (i_changes s)" using D(5) E(5) ok(3) by (auto simp: chs_set)
  with sorted_determined [OF E(4) D(4)] show "i_changes t = i_changes s" by blast
qed

section \<open>Votes and notes\<close>

definition ex_type :: "bool \<Rightarrow> string \<Rightarrow> rtype" where
  "ex_type opm name = \<lparr>t_name = name, t_fields = [], t_links = [], t_onePerMember = opm, t_target = None,
     t_editable = ByMembers, t_put = ByMembers, t_index = []\<rparr>"

definition ex_N :: ienv where
  "ex_N = \<lparr>n_ce = plain, n_Z = plain_z32, n_types = [(''vote'', ex_type True ''vote''), (''note'', ex_type False ''note'')],
     n_state = Top new_state, n_me = [], n_personal = False, n_space = replicate 32 7, n_rules = [],
     n_unseal = (\<lambda>l seq r. Opened r), n_allowed = (\<lambda>l r v. True), n_logOf = (\<lambda>k. None), n_block = (\<lambda>k i. None), n_real = (\<lambda>w. []),
     n_hadChanges = False, n_hadTags = False, n_hadRecords = False\<rparr>"

definition ex_log :: dlog where
  "ex_log = \<lparr>g_key = replicate 32 1, g_identity = replicate 32 2, g_device = replicate 32 3, g_limit = \<infinity>, g_own = False\<rparr>"

definition no_index :: indexer where
  "no_index = \<lparr>i_rows = [], i_changes = [], i_ixBytes = (\<lambda>k. 0), i_dropped = (\<lambda>k. (0, 0)), i_changeTargets = [], i_tagged = [], i_applied = (\<lambda>h. None),
     i_changed = [], i_clears = [], i_wiped = [], i_removals = [], i_stamper = \<lparr>newest = 0\<rparr>\<rparr>"

definition ex_id :: "nat \<Rightarrow> bytes" where
  "ex_id seq = replicate 32 1 @ le 8 (seq + 2 ^ 53)"

definition ex_rec :: "nat \<Rightarrow> string \<Rightarrow> nat \<Rightarrow> nat option \<Rightarrow> lrec" where
  "ex_rec kind name stamp on = \<lparr>l_kind = kind, l_type = name, l_stamp = stamp, l_target = map_option ex_id on, l_links = [], l_fields = [], l_sealed = False\<rparr>"

definition ex_block :: "nat \<times> nat \<times> string \<times> nat \<times> nat option \<Rightarrow> dlog \<times> nat \<times> bytes" where
  "ex_block = (\<lambda>(seq, kind, name, stamp, on). (ex_log, seq, record_put plain (ex_rec kind name stamp on)))"

definition ex_ok :: "nat \<times> nat \<times> string \<times> nat \<times> nat option \<Rightarrow> bool" where
  "ex_ok = (\<lambda>(seq, kind, name, stamp, on). kind \<in> {PUT, EDIT, DELETE} \<and> (kind = PUT \<longleftrightarrow> on = None) \<and> name \<in> {''vote'', ''note''} \<and>
     stamp < 2 ^ 53)"

lemma length_ex_id [simp]: "length (ex_id n) = 40" "ex_id n \<noteq> []" by (simp_all add: ex_id_def)

lemma ex_record_id: "record_id ex_N ex_log seq = ex_id seq"
  by (simp add: record_id_def recordId_def ex_N_def ex_log_def ex_id_def plain_def plain_fixed32_def plain_int_def nat_add_distrib)

lemma ex_checked:
  assumes "ex_ok (seq, kind, name, stamp, on)"
  shows "checkRecord (n_ce ex_N) (n_Z ex_N) (n_types ex_N) (Some (n_unseal ex_N ex_log seq)) (record_put plain (ex_rec kind name stamp on)) =
    Checked (ex_rec kind name stamp on) False (Some (JObj []))"
proof -
  let ?r = "ex_rec kind name stamp on"
  have t: "decode (recordId plain) (ex_id n) \<noteq> None" for n
    by (simp add: decode_def recordId_def plain_def plain_fixed32_def plain_int_def fixed_get_def)
  have "length (record_put plain ?r) \<le> MAX_RECORD"
    using assms by (cases on) (auto simp: ex_ok_def record_put_def ex_rec_def plain_def plain_int_def plain_string_def plain_array_def plain_buffer_def plain_raw_def MAX_RECORD_def)
  moreover have "record_ok plain ?r" using assms t by (cases on) (auto simp: record_ok_def ex_rec_def id_bytes_def ex_ok_def PUT_def EDIT_def DELETE_def)
  ultimately have "decodeRecord plain (record_put plain ?r) = Inr ?r" using record_round_trip [OF plain_ok, of ?r] by simp
  moreover have "decode_each plain plain_z32 [] [] [] [] = Some []" by (subst decode_each.simps) simp
  ultimately show ?thesis
    using assms by (auto simp: checkRecord_def ex_N_def ex_rec_def ex_ok_def check_type_def decode_record_def decode_fields_def ex_type_def)
qed

lemma ex_id_less: "ex_id a < ex_id b \<longleftrightarrow> le 8 (a + 2 ^ 53) < le 8 (b + 2 ^ 53)"
proof -
  have "replicate n c @ xs < replicate n c @ ys \<longleftrightarrow> xs < ys" for n and c :: byte and xs ys by (induction n) auto
  then show ?thesis by (simp add: ex_id_def)
qed

lemma le_inj: "a < 256 ^ k \<Longrightarrow> b < 256 ^ k \<Longrightarrow> le k a = le k b \<longleftrightarrow> a = b"
  by (metis unle_le)

lemma ex_id_eq: "a < 2 ^ 53 \<Longrightarrow> b < 2 ^ 53 \<Longrightarrow> ex_id a = ex_id b \<longleftrightarrow> a = b"
  by (simp add: ex_id_def le_inj)

lemma le_num: "le (numeral k) n = of_nat (n mod 256) # le (pred_numeral k) (n div 256)"
  by (subst numeral_eq_Suc) (rule le.simps)

lemma le_1: "le 1 n = [of_nat (n mod 256)]" "le (Suc 0) n = [of_nat (n mod 256)]"
  by (simp_all add: One_nat_def)

definition ex_row :: "nat \<Rightarrow> string \<Rightarrow> nat \<Rightarrow> row" where
  "ex_row seq name stamp = \<lparr>w_id = ex_id seq, w_type = name, w_author = g_identity ex_log, w_device = g_device ex_log, w_log = g_key ex_log, w_seq = seq,
     w_stamp = stamp, w_vstamp = stamp, w_vdevice = g_device ex_log, w_fields = [], w_links = [], w_ix = [], w_flags = 0, w_opm = (name = ''vote''),
     w_target = (if name = ''vote'' then Some [] else None)\<rparr>"

definition ex_change :: "nat \<Rightarrow> nat \<Rightarrow> string \<Rightarrow> nat \<Rightarrow> nat \<Rightarrow> change" where
  "ex_change seq kind name stamp n = \<lparr>ch_target = ex_id n, ch_id = ex_id seq, ch_kind = kind, ch_type = name, ch_author = g_identity ex_log,
     ch_device = g_device ex_log, ch_stamp = stamp, ch_fields = [], ch_links = []\<rparr>"

lemma ex_N_simps [simp]:
  "n_state ex_N = Top new_state" "n_ce ex_N = plain" "n_Z ex_N = plain_z32" "n_rules ex_N = []" "n_logOf ex_N = (\<lambda>k. None)" "\<not> n_personal ex_N"
  "\<not> n_hadRecords ex_N" "\<not> n_hadChanges ex_N" "\<not> n_hadTags ex_N" "n_allowed ex_N = (\<lambda>l r v. True)" "n_me ex_N = []"
  "map_of (n_types ex_N) ''vote'' = Some (ex_type True ''vote'')" "map_of (n_types ex_N) ''note'' = Some (ex_type False ''note'')"
  "map_of (n_types ex_N) ''hg/tag'' = None" "n_unseal ex_N l seq = Opened"
  by (simp_all add: ex_N_def)

lemma ex_log_simps [simp]: "g_limit ex_log = \<infinity>" "g_identity ex_log = replicate 32 2" "g_device ex_log = replicate 32 3" "\<not> g_own ex_log"
  by (simp_all add: ex_log_def)

lemma ex_state [simp]: "q_moderation (Top new_state) h = not_moderated" "\<not> isRemoved (Top new_state) h"
  by (simp_all add: q_moderation_def isRemoved_def new_state_def no_entries_def)

lemma ex_breaks [simp]: "breaks ex_N name v i l stamp = None"
  by (simp add: breaks_def split: option.split)

lemma ex_new_row:
  assumes "name \<in> {''vote'', ''note''}"
  shows "new_row ex_N ex_log seq (ex_rec kind name stamp on) False (Some (JObj [])) (ex_id seq) = ex_row seq name stamp"
  using assms
  by (auto simp: new_row_def ex_row_def ex_rec_def ex_type_def ixKeys_def modFlags_def not_moderated_def)

lemma ex_effect:
  assumes "ex_ok (seq, kind, name, stamp, on)"
  shows "effect_of ex_N (ex_block (seq, kind, name, stamp, on)) = (case on of
     None \<Rightarrow> Putting (ex_row seq name stamp) (Some (JObj [])) | Some n \<Rightarrow> Changing (ex_change seq kind name stamp n))"
proof -
  have "builtinValid (ex_rec kind name stamp on) v" for v using assms by (auto simp: builtinValid_def ex_rec_def ex_ok_def)
  moreover have "name \<in> {''vote'', ''note''}" "(kind = PUT) = (on = None)" using assms by (auto simp: ex_ok_def)
  moreover have "l_kind (ex_rec kind name stamp on) = kind" "l_target (ex_rec kind name stamp on) = map_option ex_id on"
    "l_type (ex_rec kind name stamp on) = name" "l_stamp (ex_rec kind name stamp on) = stamp" "l_fields (ex_rec kind name stamp on) = []"
    "l_links (ex_rec kind name stamp on) = []" by (simp_all add: ex_rec_def)
  ultimately show ?thesis unfolding effect_of_def ex_block_def prod.case ex_checked [OF assms] checked.case Let_def
    by (cases on) (simp_all add: ex_record_id ex_new_row ex_change_def)
qed

lemma ex_one:
  assumes "ex_ok (seq, kind, name, stamp, on)"
  shows "one ex_N ex_log False seq (record_put plain (ex_rec kind name stamp on)) s = (case on of
     None \<Rightarrow> one_put ex_N ex_log seq False (ex_rec kind name stamp on) False (Some (JObj [])) (ex_id seq) s
   | Some n \<Rightarrow> one_change ex_N ex_log (ex_rec kind name stamp on) (ex_id n) (Some (JObj [])) (ex_id seq) s)"
proof -
  have "builtinValid (ex_rec kind name stamp on) v" for v using assms by (auto simp: builtinValid_def ex_rec_def ex_ok_def)
  moreover have "name \<noteq> ''hg/device-remove''" "(kind = PUT) = (on = None)" using assms by (auto simp: ex_ok_def)
  moreover have "l_kind (ex_rec kind name stamp on) = kind" "l_target (ex_rec kind name stamp on) = map_option ex_id on"
    "l_type (ex_rec kind name stamp on) = name" by (simp_all add: ex_rec_def)
  ultimately show ?thesis unfolding one_def ex_checked [OF assms] checked.case Let_def
    by (cases on) (simp_all add: ex_record_id)
qed

lemma ex_put:
  assumes "name \<in> {''vote'', ''note''}"
  shows "one_put ex_N ex_log seq False (ex_rec kind name stamp on) False (Some (JObj [])) (ex_id seq) s =
   (let w = (ex_row seq name stamp)\<lparr>w_ix := tagKeys ex_N (ex_row seq name stamp) s\<rparr>;
        pending = (if ex_id seq \<in> set (i_changeTargets s) then changes_of (ex_id seq) (i_changes s) else [])
    in case (if pending = [] then (Same, w, s) else settle_row ex_N w pending True s) of
       (Gone g, v, s1) \<Rightarrow> noted v (Some g) s1 | (_, v, s1) \<Rightarrow> insert_row ex_N ex_log (Some (JObj [])) v s1)"
  by (simp add: one_put_def ex_new_row [OF assms] Let_def) (simp add: ex_row_def)

definition ex_runs :: "(nat \<times> nat \<times> string \<times> nat \<times> nat option) list \<Rightarrow> indexer \<Rightarrow> indexer" where
  "ex_runs bs s = arrive ex_N False (map ex_block bs) s"

lemma ex_arrive:
  assumes "ex_ok (seq, kind, name, stamp, on)"
  shows "ex_runs ((seq, kind, name, stamp, on) # bs) s = ex_runs bs (case on of
     None \<Rightarrow> (let w = (ex_row seq name stamp)\<lparr>w_ix := tagKeys ex_N (ex_row seq name stamp) s\<rparr>;
        pending = (if ex_id seq \<in> set (i_changeTargets s) then changes_of (ex_id seq) (i_changes s) else [])
       in case (if pending = [] then (Same, w, s) else settle_row ex_N w pending True s) of
         (Gone g, v, s1) \<Rightarrow> noted v (Some g) s1 | (_, v, s1) \<Rightarrow> insert_row ex_N ex_log (Some (JObj [])) v s1)
   | Some n \<Rightarrow> one_change ex_N ex_log (ex_rec kind name stamp on) (ex_id n) (Some (JObj [])) (ex_id seq) s)"
proof -
  have "name \<in> {''vote'', ''note''}" using assms by (auto simp: ex_ok_def)
  note put = ex_put [OF this]
  have "ex_runs ((seq, kind, name, stamp, on) # bs) s =
    ex_runs bs (one ex_N ex_log False seq (record_put plain (ex_rec kind name stamp on)) s)"
    by (simp add: ex_runs_def arrive_def ex_block_def)
  then show ?thesis unfolding ex_one [OF assms] put .
qed

lemma ex_arrive_Nil: "ex_runs [] s = s"
  by (simp add: ex_runs_def arrive_def)

lemma ex_ids: "ex_id 2 \<noteq> ex_id 3" "ex_id 2 < ex_id 3" "\<not> ex_id 3 < ex_id 2" "ex_id 3 \<noteq> ex_id 2" "ex_id 2 \<noteq> ex_id 4" "ex_id 3 \<noteq> ex_id 4"
  by (simp_all add: ex_id_less le_num le_1 ex_id_eq)

lemma ex_tagKeys: "i_tagged s = [] \<Longrightarrow> tagKeys ex_N w s = []"
  by (simp add: tagKeys_def)

lemmas ex_run = ex_arrive ex_arrive_Nil ex_tagKeys ex_ok_def ex_row_def no_index_def Let_def insert_row_def onePerMember_def group_rows_def set_row_def
  account_def noted_def ixCost_def one_change_def ex_rec_def get_row_def settle_row_def allowed_changes_def mayChange_def latest_def clears_def drop_row_def
  byAuthor_def ex_ids changes_of_def rival_def same_group_def put_version_def row_version_def ch_version_def compare_def superseded_def SUPERSEDED_def
  del_row_def PUT_def EDIT_def DELETE_def

section \<open>Arrival in any order\<close>

text \<open>C35: The order in which the blocks of a shared (not the personal) space's logs arrive does not matter, as long as no
  device stamps two of its changes, or two of its votes on a thing, alike and nobody deletes a vote that is later than
  another of theirs on the same thing: with edits and deletes before or after the records they change, tags before or
  after what they are on, and a member's votes in any order, the index ends with the same rows, in every column, and the
  same changes, whatever the index skips looking up. (Of a later vote that is deleted the order does matter, lemma
  \<open>deleted_vote_depends_on_order\<close> below.)\<close>

theorem arrival_order_never_matters:
  assumes "env_ok N" "distinct (places N bs)" "no_ties (effects N bs)" "no_later_vote_deleted N (effects N bs)"
    and "i_rows s = []" "i_changes s = []" "i_rows t = []" "i_changes t = []"
    and "set cs = set bs" "distinct (places N cs)"
  shows "i_rows (arrive N rescanned' cs t) = i_rows (arrive N rescanned bs s) \<and>
    i_changes (arrive N rescanned' cs t) = i_changes (arrive N rescanned bs s)"
proof -
  have e: "set (effects N cs) = set (effects N bs)" using assms(9) by (simp add: effects_def)
  then have "set (puts (effects N cs)) = set (puts (effects N bs))" "set (chs (effects N cs)) = set (chs (effects N bs))"
    by (auto simp: puts_set chs_set)
  moreover from this have "deleted_in N (effects N cs) w = deleted_in N (effects N bs) w" for w
    by (simp add: deleted_in_def edits_in_def allowed_changes_def changes_of_def list_ex_iff)
  ultimately have c: "no_ties (effects N cs)" "no_later_vote_deleted N (effects N cs)"
    using assms(3,4) by (simp_all add: no_ties_def no_later_vote_deleted_def)
  from held_determined [OF arrive_holds [OF assms(1-6)] arrive_holds [OF assms(1,10) c assms(7,8)]
      effects_told_well [OF assms(1-4)] effects_told_well [OF assms(1,10) c] e]
  show ?thesis by blast
qed

text \<open>C36: What the index of a shared space shows of a record, once any blocks arrived, is its put at the latest version
  that someone who may edit it wrote, marked edited and superseded as it is, unless its author deleted it, and then
  nothing; its keys are those of that version's fields and of the tags that its editors have put on it. As for the
  order, no device stamps two changes, or two votes on a thing, alike, and nobody deletes a vote later than another of
  theirs on that thing.\<close>

theorem rows_are_the_latest:
  assumes "env_ok N" "distinct (places N bs)" "no_ties (effects N bs)" "no_later_vote_deleted N (effects N bs)"
    and "i_rows s = []" "i_changes s = []"
  shows "map_option bare (get_row i (i_rows (arrive N rescanned bs s))) = map_option (shown N (effects N bs)) (put_in N (effects N bs) i) \<and>
    (\<forall>v. get_row i (i_rows (arrive N rescanned bs s)) = Some v \<longrightarrow>
       w_ix v = ixKeys N (w_type v) (decode_row N v) @ alltags N v (i_rows (arrive N rescanned bs s)))"
  using holds_inD(2,3) [OF arrive_holds [OF assms]] by blast

text \<open>An edit before its note, and two votes of a member.\<close>

definition ex_blocks :: "(nat \<times> nat \<times> string \<times> nat \<times> nat option) list" where
  "ex_blocks = [(4, EDIT, ''note'', 14, Some 5), (2, PUT, ''vote'', 12, None), (5, PUT, ''note'', 11, None), (3, PUT, ''vote'', 13, None)]"

lemma ex_effects:
  "effects ex_N (map ex_block ex_blocks) = [Changing (ex_change 4 EDIT ''note'' 14 5), Putting (ex_row 2 ''vote'' 12) (Some (JObj [])),
     Putting (ex_row 5 ''note'' 11) (Some (JObj [])), Putting (ex_row 3 ''vote'' 13) (Some (JObj []))]"
  by (simp add: effects_def ex_blocks_def ex_effect ex_ok_def PUT_def EDIT_def)

lemma ex_env_ok: "env_ok ex_N"
  by (simp add: env_ok_def)

lemma ex_places: "places ex_N (map ex_block bs) = map ex_id (map fst bs)"
  by (auto simp: places_def ex_block_def ex_record_id)

lemma ex_told:
  "distinct (places ex_N (map ex_block ex_blocks))" "no_ties (effects ex_N (map ex_block ex_blocks))" "no_later_vote_deleted ex_N (effects ex_N (map ex_block ex_blocks))"
  unfolding ex_places ex_effects
  by (simp_all add: ex_blocks_def ex_id_eq no_ties_def no_later_vote_deleted_def deleted_in_def edits_in_def allowed_changes_def changes_of_def ex_row_def ex_change_def put_version_def EDIT_def DELETE_def same_group_def)

theorem arrival_order_never_matters_witness:
  "i_rows (ex_runs (rev ex_blocks) no_index) = i_rows (ex_runs ex_blocks no_index) \<and> i_changes (ex_runs (rev ex_blocks) no_index) = i_changes (ex_runs ex_blocks no_index)"
proof -
  have "places ex_N (map ex_block (rev ex_blocks)) = rev (places ex_N (map ex_block ex_blocks))" by (simp only: ex_places rev_map)
  then have "distinct (places ex_N (map ex_block (rev ex_blocks)))" using ex_told(1) by simp
  from arrival_order_never_matters [OF ex_env_ok ex_told, of no_index no_index "map ex_block (rev ex_blocks)" False False, OF _ _ _ _ _ this]
  show ?thesis by (simp add: ex_runs_def no_index_def)
qed

theorem rows_are_the_latest_witness:
  "\<exists>w. get_row (ex_id 5) (i_rows (ex_runs ex_blocks no_index)) = Some w \<and> row_version w = (14, replicate 32 3) \<and> w_flags w AND EDITED \<noteq> 0"
proof -
  have ids: "ex_id 2 \<noteq> ex_id 5" "ex_id 5 \<noteq> ex_id 2" by (simp_all add: ex_id_eq)
  have "edits_in ex_N (effects ex_N (map ex_block ex_blocks)) (ex_row 5 ''note'' 11) = [ex_change 4 EDIT ''note'' 14 5]"
    unfolding ex_effects
    by (simp add: edits_in_def changes_of_def allowed_changes_def mayChange_def mayEdit_def ex_row_def ex_change_def EDIT_def DELETE_def)
  then have "put_in ex_N (effects ex_N (map ex_block ex_blocks)) (ex_id 5) = Some (ex_row 5 ''note'' 11)"
    "version_in ex_N (effects ex_N (map ex_block ex_blocks)) (ex_row 5 ''note'' 11) = edited (ex_row 5 ''note'' 11) (ex_change 4 EDIT ''note'' 14 5)"
    using ids by (simp_all add: put_in_def ex_effects deleted_in_def version_in_def)
     (simp_all add: ex_row_def ex_change_def EDIT_def DELETE_def ch_version_def row_version_def compare_def)
  with rows_are_the_latest [OF ex_env_ok ex_told, of no_index "ex_id 5" False] obtain w
    where w: "get_row (ex_id 5) (i_rows (ex_runs ex_blocks no_index)) = Some w" "bare w = shown ex_N (effects ex_N (map ex_block ex_blocks)) (ex_row 5 ''note'' 11)"
      and v: "version_in ex_N (effects ex_N (map ex_block ex_blocks)) (ex_row 5 ''note'' 11) = edited (ex_row 5 ''note'' 11) (ex_change 4 EDIT ''note'' 14 5)"
    by (auto simp: ex_runs_def no_index_def)
  have "w_flags w AND EDITED \<noteq> 0" using arg_cong [OF w(2), of w_flags] v
    by (simp add: shown_def edited_def ex_row_def EDITED_def DROPPED_def SUPERSEDED_def)
  moreover have "row_version w = (14, replicate 32 3)" using bareD(6) [OF w(2)] v by (simp add: ch_version_def ex_change_def)
  ultimately show ?thesis using w(1) by blast
qed

section \<open>Where the order shows\<close>

text \<open>A vote deleted after it arrived leaves the member's earlier vote superseded; before, the earlier vote counts.\<close>

definition ex_deleted :: "(nat \<times> nat \<times> string \<times> nat \<times> nat option) list" where
  "ex_deleted = [(2, PUT, ''vote'', 12, None), (3, PUT, ''vote'', 13, None), (4, DELETE, ''vote'', 14, Some 3)]"

definition ex_deleted_first :: "(nat \<times> nat \<times> string \<times> nat \<times> nat option) list" where
  "ex_deleted_first = [(4, DELETE, ''vote'', 14, Some 3), (2, PUT, ''vote'', 12, None), (3, PUT, ''vote'', 13, None)]"

lemma deleted_vote_depends_on_order:
  "map (\<lambda>w. (w_seq w, superseded w)) (i_rows (ex_runs ex_deleted no_index)) = [(2, True)]"
  "map (\<lambda>w. (w_seq w, superseded w)) (i_rows (ex_runs ex_deleted_first no_index)) = [(2, False)]"
  by (simp_all add: ex_deleted_def ex_deleted_first_def ex_run)

text \<open>A tag that arrives on a record whose content was dropped takes the keys of its fields, and they stay away when
  the content is back.\<close>

lemma tag_on_dropped_loses_keys:
  assumes "by_id (i_rows s)" "get_row i (i_rows s) = Some w" "w_fields w = []" "get_row i (i_rows (retag N i s)) = Some v"
  shows "join [CHR 0x0A] (w_ix v) = join [CHR 0x0A] (tagKeys N w s)"
proof -
  have ix: "ix_of N w (decode_row N w) s = tagKeys N w s"
    using keys_of_nothing [of N "w_type w" "w_links w"] assms(3) by (simp add: ix_of_def decode_row_def)
  from assms(2) have "w_id w = i" by (auto simp: get_row_def find_Some_iff)
  with assms show ?thesis
    by (auto simp: retag_def ix Let_def get_put_row split: if_splits)
qed

lemma restore_keeps_keys: "restore N i fs read got s = (Some v, s') \<Longrightarrow> get_row i (i_rows s) = Some w \<Longrightarrow> w_ix v = w_ix w"
  by (auto simp: restore_def Let_def split: if_splits)

end
