(* ===== verification/Query.thy ===== *)
theory Query
  imports Index_Facts
begin

text \<open>
  Reading the index (lib/index/query.js, and the reads of lib/space.js built on it): queries by filters,
  pages, what points at a record, tagged records, relations and tags. What a read does with the network is
  an argument: \<open>content\<close> is the row of a record whose content was dropped, fetched again (\<open>None\<close>: it is not here
  in time). \<open>now\<close> is the clock. Waiting until an answer is complete is not modelled; what a page needs for
  that is (\<open>need\<close>). Numbers of the app's (stamps, sizes of pages) are whole.
\<close>

unbundle bit_operations_syntax

section \<open>Keys, ids and records\<close>

lemma size_prop: "map_of ps n = Some v \<Longrightarrow> size v < size (JObj ps)"
proof -
  assume "map_of ps n = Some v"
  then have "(n, v) \<in> set ps" by (rule map_of_SomeD)
  then have "size v \<le> size_list (size_prod (\<lambda>s. 0) size) ps" by (rule size_list_estimation') simp
  then show "size v < size (JObj ps)" by simp
qed

text \<open>\<open>None\<close>: NOT\_FOUND.\<close>

function keyBytes :: "z32 \<Rightarrow> jsval \<Rightarrow> bytes option" where
  "keyBytes Z k =
     (let b = (case k of
          JStr s \<Rightarrow> z_decode Z s
        | JBuf b \<Rightarrow> Some b
        | JObj ps \<Rightarrow> (case map_of ps ''publicKey'' of None \<Rightarrow> None | Some v \<Rightarrow> if js_truthy v then keyBytes Z v else None)
        | _ \<Rightarrow> None)
      in case b of None \<Rightarrow> None | Some b \<Rightarrow> if length b = 32 then Some b else None)"
  by pat_completeness auto
termination by (relation "measure (\<lambda>(Z, k). size k)") (simp_all only: in_measure prod.case wf_measure size_prop)

declare keyBytes.simps [simp del]

text \<open>A record as the app gives it: its id, or the record.\<close>

definition idOf :: "ienv \<Rightarrow> jsval \<Rightarrow> hg_error + bytes" where
  "idOf N r = (case r of
       JStr s \<Rightarrow> idBytes (n_ce N) (n_Z N) (IdText s)
     | JBuf b \<Rightarrow> Inr b
     | _ \<Rightarrow> (case prop_of r ''id'' of
           JStr s \<Rightarrow> idBytes (n_ce N) (n_Z N) (IdText s)
         | JBuf b \<Rightarrow> Inr b
         | v \<Rightarrow> (case (prop_of v ''log'', prop_of v ''seq'') of
               (JBuf l, JNum n) \<Rightarrow> idBytes (n_ce N) (n_Z N) (IdParts \<lparr>r_log = l, r_seq = nat n\<rparr>)
             | _ \<Rightarrow> Inl NOT_FOUND)))"

definition NOT_SHOWN :: "8 word" where "NOT_SHOWN = HIDDEN OR REMOVED OR SUPERSEDED"

definition has_flag :: "row \<Rightarrow> 8 word \<Rightarrow> bool" where
  "has_flag w f \<longleftrightarrow> w_flags w AND f \<noteq> 0"

definition shape :: "ienv \<Rightarrow> nat \<Rightarrow> row \<Rightarrow> jsval" where
  "shape N now w =
     (let values = (if map_of (n_types N) (w_type w) \<noteq> None \<and> \<not> has_flag w UNREADABLE
            then (case decode_row N w of None \<Rightarrow> [] | Some v \<Rightarrow> js_entries v) else [])
      in JObj (spread values
           ([(''id'', JStr (z_encode (n_Z N) (w_id w))), (''type'', JStr (w_type w)), (''author'', JStr (z_encode (n_Z N) (w_author w))),
             (''device'', JStr (z_encode (n_Z N) (w_vdevice w))), (''stamp'', JNum (int (w_stamp w))), (''edited'', JBool (has_flag w EDITED))] @
            (if has_flag w HIDDEN then [(''hidden'', JBool True)] else []) @
            (if has_flag w FLAGGED then [(''flagged'', JBool True)] else []) @
            (if has_flag w UNREADABLE then [(''unreadable'', JBool True)] else []) @
            (if isFuture (w_vstamp w) now then [(''futureStamp'', JBool True)] else []))))"

section \<open>Queries\<close>

datatype asked = Hidden | Flagged

record query =
  y_type :: string
  y_filter :: "(string \<times> jsval) list option"
  y_author :: "bytes option"
  y_device :: "bytes option"
  y_tagged :: "string option"
  y_target :: "bytes option"
  y_from :: nat
  y_to :: enat
  y_moderation :: "asked option"

definition new_query :: "string \<Rightarrow> query" where
  "new_query name = \<lparr>y_type = name, y_filter = None, y_author = None, y_device = None, y_tagged = None, y_target = None, y_from = 0, y_to = \<infinity>,
     y_moderation = None\<rparr>"

text \<open>\<open>None\<close>: the code throws.\<close>

definition by_tag :: "jsval \<Rightarrow> query \<Rightarrow> query option" where
  "by_tag name q = (case name of JStr s \<Rightarrow> if s = [] then None else Some (q\<lparr>y_tagged := Some s\<rparr>) | _ \<Rightarrow> None)"

definition on_record :: "ienv \<Rightarrow> jsval \<Rightarrow> query \<Rightarrow> query option" where
  "on_record N r q = (case idOf N r of Inl e \<Rightarrow> None | Inr b \<Rightarrow> Some (q\<lparr>y_target := Some b\<rparr>))"

definition since_ms :: "nat \<Rightarrow> query \<Rightarrow> query" where "since_ms ms q = q\<lparr>y_from := ms\<rparr>"
definition until_ms :: "enat \<Rightarrow> query \<Rightarrow> query" where "until_ms ms q = q\<lparr>y_to := ms\<rparr>"

definition by_moderation :: "jsval \<Rightarrow> query \<Rightarrow> query option" where
  "by_moderation state q = (if state = JStr ''hidden'' then Some (q\<lparr>y_moderation := Some Hidden\<rparr>)
     else if state = JStr ''flagged'' then Some (q\<lparr>y_moderation := Some Flagged\<rparr>) else None)"

definition where_fields :: "(string \<times> jsval) list \<Rightarrow> query \<Rightarrow> query" where "where_fields fs q = q\<lparr>y_filter := Some fs\<rparr>"

definition by_author :: "ienv \<Rightarrow> jsval \<Rightarrow> query \<Rightarrow> query option" where
  "by_author N k q = map_option (\<lambda>b. q\<lparr>y_author := Some b\<rparr>) (keyBytes (n_Z N) k)"

definition from_device :: "ienv \<Rightarrow> jsval \<Rightarrow> query \<Rightarrow> query option" where
  "from_device N k q = map_option (\<lambda>b. q\<lparr>y_device := Some b\<rparr>) (keyBytes (n_Z N) k)"

text \<open>The key of a filter in the app's index.\<close>

definition filter_key :: "ienv \<Rightarrow> (string \<times> jsval) list \<Rightarrow> string" where
  "filter_key N fs = join '','' (map fst fs) @ NUL @ join NUL (map (\<lambda>(f, v). js_text N v) fs)"

text \<open>Refused: no such index, or no value to look for.\<close>

definition filter_error :: "ienv \<Rightarrow> query \<Rightarrow> hg_error option" where
  "filter_error N q = (case y_filter q of
       None \<Rightarrow> None
     | Some fs \<Rightarrow>
         let names = map fst fs;
             declared = (case map_of (n_types N) (y_type q) of None \<Rightarrow> False
               | Some t \<Rightarrow> list_ex (\<lambda>f. join '','' f = join '','' names) (t_index t))
         in if \<not> declared then Some INVALID_TYPE
            else if list_all (\<lambda>(f, v). absent v) fs then Some INVALID_RECORD else None)"

text \<open>One filter picks the index; what it finds, in the order of the index.\<close>

definition found :: "ienv \<Rightarrow> query \<Rightarrow> row list \<Rightarrow> row list" where
  "found N q rows =
     (case (y_filter q, y_tagged q) of
        (Some fs, _) \<Rightarrow> rows_by_ix (y_type q) (filter_key N fs) rows
      | (None, Some tag) \<Rightarrow> rows_by_ix (y_type q) (tagKey tag) rows
      | (None, None) \<Rightarrow>
          (case y_target q of
             Some target \<Rightarrow> rows_linking target (y_type q) rows
           | None \<Rightarrow> (case y_author q of
                 Some author \<Rightarrow> sort_key w_stamp (filter (\<lambda>w. w_author w = author) rows)
               | None \<Rightarrow> rows_of_type (y_type q) rows)))"

type_synonym place = "nat \<times> bytes" \<comment> \<open>the stamp and id of the last record of the page before\<close>

definition in_stamps :: "query \<Rightarrow> place option \<Rightarrow> row \<Rightarrow> bool" where
  "in_stamps q after w \<longleftrightarrow> y_from q \<le> w_stamp w \<and> enat (w_stamp w) < y_to q \<and>
     (case after of None \<Rightarrow> True | Some (stamp, i) \<Rightarrow> w_stamp w \<le> stamp)"

text \<open>The other filters, and the page's place.\<close>

definition kept :: "ienv \<Rightarrow> query \<Rightarrow> place option \<Rightarrow> row \<Rightarrow> bool" where
  "kept N q after w \<longleftrightarrow>
     w_type w = y_type q \<and> \<not> has_flag w NOT_SHOWN \<and> mayPut (n_ce N) (n_Z N) (n_types N) w (n_state N) \<and>
     y_from q \<le> w_stamp w \<and> enat (w_stamp w) < y_to q \<and>
     (case y_device q of None \<Rightarrow> True | Some d \<Rightarrow> w_device w = d) \<and>
     (case y_author q of None \<Rightarrow> True | Some a \<Rightarrow> w_author w = a) \<and>
     (case y_target q of None \<Rightarrow> True | Some t \<Rightarrow> t \<in> set (w_links w)) \<and>
     (case y_filter q of None \<Rightarrow> True | Some fs \<Rightarrow> filter_key N fs \<in> set (w_ix w)) \<and>
     (case y_tagged q of None \<Rightarrow> True | Some t \<Rightarrow> tagKey t \<in> set (w_ix w)) \<and>
     (case after of None \<Rightarrow> True | Some (stamp, i) \<Rightarrow> \<not> (w_stamp w = stamp \<and> \<not> w_id w < i))"

section \<open>Links that count\<close>

definition type_at :: "row list \<Rightarrow> bytes \<Rightarrow> string option" where
  "type_at rows i = map_option w_type (get_row i rows)"

text \<open>The row may be the one with its content fetched. \<open>None\<close>: it could not be told.\<close>

definition row_linkCounts :: "ienv \<Rightarrow> (row \<Rightarrow> row option) \<Rightarrow> row list \<Rightarrow> row \<Rightarrow> bytes \<Rightarrow> bool option \<times> row" where
  "row_linkCounts N content rows w target =
     (let i = z_encode (n_Z N) target; name = type_at rows target
      in case linkCounts (n_types N) (w_type w) (if has_flag w DROPPED then None else decode_row N w) i name of
           Some ok \<Rightarrow> (Some ok, w)
         | None \<Rightarrow> (case content w of
               None \<Rightarrow> (None, w)
             | Some full \<Rightarrow> (linkCounts (n_types N) (w_type full) (decode_row N full) i name, full)))"

text \<open>The rows of a page: up to \<open>n\<close> (all of them when \<open>n\<close> is 0), and whether one could not be judged.\<close>

fun collect :: "(row \<Rightarrow> bool option \<times> row) option \<Rightarrow> nat \<Rightarrow> row list \<Rightarrow> row list \<Rightarrow> bool \<Rightarrow> row list \<times> bool" where
  "collect judged n [] items partial = (items, partial)"
| "collect judged n (w # ws) items partial =
     (case judged of
        None \<Rightarrow> if length items + 1 = n then (items @ [w], partial) else collect judged n ws (items @ [w]) partial
      | Some f \<Rightarrow> (case f w of
            (None, v) \<Rightarrow> collect judged n ws items True
          | (Some False, v) \<Rightarrow> collect judged n ws items partial
          | (Some True, v) \<Rightarrow> if length items + 1 = n then (items @ [v], partial) else collect judged n ws (items @ [v]) partial))"

definition page_rows :: "ienv \<Rightarrow> (row \<Rightarrow> row option) \<Rightarrow> row list \<Rightarrow> query \<Rightarrow> nat \<Rightarrow> place option \<Rightarrow> row list \<times> bool" where
  "page_rows N content rows q n after =
     collect (map_option (\<lambda>t w. row_linkCounts N content rows w t) (y_target q)) n
       (filter (kept N q after) (rev (filter (in_stamps q after) (found N q rows)))) [] False"

section \<open>Rows as the app sees them\<close>

definition judge_link :: "ienv \<Rightarrow> row list \<Rightarrow> rtype \<Rightarrow> (string \<times> jsval) list \<Rightarrow> string \<times> jsval \<Rightarrow> string \<times> jsval" where
  "judge_link N rows t item e = (case e of (f, v) \<Rightarrow>
     if map_of (t_fields t) f \<noteq> Some ''link'' \<or> map_of (t_links t) f = None \<or> \<not> js_truthy v then e
     else (case idOf N v of
         Inl err \<Rightarrow> e
       | Inr i \<Rightarrow> (case type_at rows i of
             None \<Rightarrow> e
           | Some name \<Rightarrow> if name \<noteq> [] \<and> \<not> linkAllowed t f name then (f, JNull) else e)))"

definition judgeLinks :: "ienv \<Rightarrow> row list \<Rightarrow> string \<Rightarrow> jsval \<Rightarrow> jsval" where
  "judgeLinks N rows name item = (case map_of (n_types N) name of
       None \<Rightarrow> item
     | Some t \<Rightarrow> JObj (map (judge_link N rows t (js_entries item)) (js_entries item)))"

definition shaped :: "ienv \<Rightarrow> (row \<Rightarrow> row option) \<Rightarrow> nat \<Rightarrow> row list \<Rightarrow> row list \<Rightarrow> jsval list \<times> bool" where
  "shaped N content now rows ws =
     (let got = concat (map (\<lambda>w. if \<not> has_flag w DROPPED then [w] else (case content w of None \<Rightarrow> [] | Some v \<Rightarrow> [v])) ws)
      in (map (\<lambda>w. judgeLinks N rows (w_type w) (shape N now w)) got, length got < length ws))"

section \<open>Pages\<close>

text \<open>From which stamp on an answer must hold everything to be complete: the whole space, or this device's own
  records only.\<close>

datatype need = Whole | FromStamp nat | OwnOnly

record answer =
  a_items :: "jsval list"
  a_partial :: bool
  a_need :: need

text \<open>The list of the records moderators hid or flagged: \<open>hs\<close> are the records the decisions name.\<close>

definition moderated_keeps :: "ienv \<Rightarrow> query \<Rightarrow> place option \<Rightarrow> asked \<Rightarrow> row \<Rightarrow> bool" where
  "moderated_keeps N q after a w \<longleftrightarrow>
     w_type w = y_type q \<and> has_flag w (case a of Hidden \<Rightarrow> HIDDEN | Flagged \<Rightarrow> FLAGGED) \<and> \<not> has_flag w (REMOVED OR SUPERSEDED) \<and>
     mayPut (n_ce N) (n_Z N) (n_types N) w (n_state N) \<and> y_from q \<le> w_stamp w \<and> enat (w_stamp w) < y_to q \<and>
     (case y_device q of None \<Rightarrow> True | Some d \<Rightarrow> w_device w = d) \<and>
     (case y_author q of None \<Rightarrow> True | Some x \<Rightarrow> w_author w = x) \<and>
     (case y_target q of None \<Rightarrow> True | Some t \<Rightarrow> t \<in> set (w_links w)) \<and>
     (case y_filter q of None \<Rightarrow> True | Some fs \<Rightarrow> filter_key N fs \<in> set (w_ix w)) \<and>
     (case y_tagged q of None \<Rightarrow> True | Some t \<Rightarrow> tagKey t \<in> set (w_ix w)) \<and>
     (case after of None \<Rightarrow> True | Some (stamp, i) \<Rightarrow> w_stamp w < stamp \<or> w_stamp w = stamp \<and> w_id w < i)"

definition row_place :: "row \<Rightarrow> place" where "row_place w = (w_stamp w, w_id w)"

definition newest_first :: "row list \<Rightarrow> row list" where
  "newest_first ws = rev (sort_key row_place ws)"

definition moderated_rows :: "ienv \<Rightarrow> row list \<Rightarrow> string list \<Rightarrow> query \<Rightarrow> asked \<Rightarrow> nat \<Rightarrow> place option \<Rightarrow> row list" where
  "moderated_rows N rows hs q a n after = take n (newest_first (concat (map (\<lambda>h.
     case s_moderated (own (n_state N)) h of
       None \<Rightarrow> []
     | Some md \<Rightarrow>
         if md_removed md \<or> \<not> (case a of Hidden \<Rightarrow> md_hidden md | Flagged \<Rightarrow> md_flagged md) then []
         else (case get_row (unhex h) rows of None \<Rightarrow> [] | Some w \<Rightarrow> if moderated_keeps N q after a w then [w] else [])) hs)))"

text \<open>\<open>Query#run\<close>: one page, of \<open>n\<close> records (\<open>n > 0\<close>). \<open>pending\<close>: the space's types have not arrived. \<open>me\<close> is this device.\<close>

definition run_query :: "ienv \<Rightarrow> (row \<Rightarrow> row option) \<Rightarrow> nat \<Rightarrow> bool \<Rightarrow> bytes \<Rightarrow> row list \<Rightarrow> string list \<Rightarrow> query \<Rightarrow> nat \<Rightarrow> place option \<Rightarrow> hg_error + answer" where
  "run_query N content now pending me rows hs q n after =
     (if map_of (n_types N) (y_type q) = None then
        (if pending then Inr \<lparr>a_items = [], a_partial = True, a_need = Whole\<rparr> else Inl INVALID_TYPE)
      else case y_moderation q of
          Some a \<Rightarrow>
            (case shaped N content now rows (moderated_rows N rows hs q a n after) of (items, partial) \<Rightarrow>
               Inr \<lparr>a_items = items, a_partial = partial, a_need = FromStamp 0\<rparr>)
        | None \<Rightarrow>
            (case filter_error N q of
               Some e \<Rightarrow> Inl e
             | None \<Rightarrow>
                 (case page_rows N content rows q n after of (ws, unjudged) \<Rightarrow>
                  case shaped N content now rows ws of (items, partial) \<Rightarrow>
                    Inr \<lparr>a_items = items, a_partial = unjudged \<or> partial,
                      a_need = (if y_device q = Some me then OwnOnly
                                else if length ws = n \<and> ws \<noteq> [] then FromStamp (max (y_from q) (w_stamp (ws ! (n - 1)))) else FromStamp (y_from q))\<rparr>)))"

text \<open>A record as an item of a page: its stamp and id.\<close>

definition item_place :: "ienv \<Rightarrow> jsval \<Rightarrow> place" where
  "item_place N r = (case prop_of r ''stamp'' of JNum n \<Rightarrow> nat n | _ \<Rightarrow> 0, case idOf N r of Inr b \<Rightarrow> b | Inl e \<Rightarrow> [])"

definition taggedRows :: "ienv \<Rightarrow> (row \<Rightarrow> row option) \<Rightarrow> nat \<Rightarrow> bytes \<Rightarrow> row list \<Rightarrow> string \<Rightarrow> nat \<Rightarrow> place option \<Rightarrow> hg_error + answer" where
  "taggedRows N content now me rows tag n after =
     (let lists = map (\<lambda>name. run_query N content now False me rows [] ((new_query name)\<lparr>y_tagged := Some tag\<rparr>) n after)
            (filter (\<lambda>name. \<not> is_hg name) (map fst (n_types N)))
      in case find isl lists of
           Some e \<Rightarrow> e
         | None \<Rightarrow>
             let answers = map projr lists;
                 items = take n (rev (sort_key (item_place N) (concat (map a_items answers))))
             in Inr \<lparr>a_items = items, a_partial = list_ex a_partial answers,
                  a_need = FromStamp (if length items = n \<and> items \<noteq> [] then fst (item_place N (items ! (n - 1))) else 0)\<rparr>)"

section \<open>What points at a record\<close>

text \<open>Without a type the index orders by type first.\<close>

definition rows_pointing :: "bytes \<Rightarrow> row list \<Rightarrow> row list" where
  "rows_pointing target rows = sort_key (\<lambda>w. (w_type w, w_stamp w)) (filter (\<lambda>w. target \<in> set (w_links w)) rows)"

definition linkedRows :: "ienv \<Rightarrow> row list \<Rightarrow> bytes \<Rightarrow> string option \<Rightarrow> row list" where
  "linkedRows N rows target name =
     filter (\<lambda>w. \<not> has_flag w NOT_SHOWN \<and> (truthy name \<or> \<not> is_hg (w_type w)) \<and> mayPut (n_ce N) (n_Z N) (n_types N) w (n_state N))
       (if truthy name then rows_linking target (the name) rows else rows_pointing target rows)"

definition pointingAt :: "ienv \<Rightarrow> (row \<Rightarrow> row option) \<Rightarrow> row list \<Rightarrow> bytes \<Rightarrow> string option \<Rightarrow> row list \<times> bool" where
  "pointingAt N content rows target name =
     collect (Some (\<lambda>w. row_linkCounts N content rows w target)) 0 (linkedRows N rows target name) [] False"

definition linked :: "ienv \<Rightarrow> (row \<Rightarrow> row option) \<Rightarrow> nat \<Rightarrow> row list \<Rightarrow> bytes \<Rightarrow> string option \<Rightarrow> jsval list \<times> bool" where
  "linked N content now rows target name =
     (case pointingAt N content rows target name of (ws, unjudged) \<Rightarrow>
      case shaped N content now rows ws of (items, partial) \<Rightarrow> (items, unjudged \<or> partial))"

definition count_pointing :: "ienv \<Rightarrow> (row \<Rightarrow> row option) \<Rightarrow> row list \<Rightarrow> string option \<Rightarrow> bytes \<Rightarrow> nat \<times> bool" where
  "count_pointing N content rows name on = map_prod length id (pointingAt N content rows on name)"

definition tags_of :: "ienv \<Rightarrow> row list \<Rightarrow> bytes \<Rightarrow> string list" where
  "tags_of N rows i = (case get_row i rows of
       None \<Rightarrow> []
     | Some w \<Rightarrow> sort (map (drop (length (tagKey []))) (filter (\<lambda>k. take (length (tagKey [])) k = tagKey []) (w_ix w))))"

definition tagStamp :: "ienv \<Rightarrow> row list \<Rightarrow> bytes \<Rightarrow> string \<Rightarrow> nat" where
  "tagStamp N rows i name = fold (\<lambda>t top.
     case decode_record (n_ce N) (n_Z N) (n_types N) ''hg/tag'' (w_fields t) (w_links t) of
       None \<Rightarrow> top
     | Some v \<Rightarrow> if prop_of v ''tag'' = JStr name then max top (w_stamp t) else top) (rows_linking i ''hg/tag'' rows) 0"

section \<open>Relations\<close>

datatype direction = Out | In | Both

text \<open>A relation row as an edge of record \<open>i\<close>: who it is from and to, if its author may relate from there.\<close>

definition edge_of :: "ienv \<Rightarrow> row list \<Rightarrow> bytes \<Rightarrow> direction \<Rightarrow> string option \<Rightarrow> row \<Rightarrow> jsval option" where
  "edge_of N rows i dir name w =
     (if has_flag w NOT_SHOWN then None
      else case decode_record (n_ce N) (n_Z N) (n_types N) ''hg/relation'' (w_fields w) (w_links w) of
          None \<Rightarrow> None
        | Some v \<Rightarrow>
            (case (prop_of v ''from'', prop_of v ''to'') of
               (JStr f, JStr t) \<Rightarrow>
                 (case (idBytes (n_ce N) (n_Z N) (IdText f), idBytes (n_ce N) (n_Z N) (IdText t)) of
                    (Inr from_id, Inr to_id) \<Rightarrow>
                      if \<not> (case dir of Out \<Rightarrow> from_id = i | In \<Rightarrow> to_id = i | Both \<Rightarrow> from_id = i \<or> to_id = i) then None
                      else if truthy name \<and> prop_of v ''rel'' \<noteq> JStr (the name) then None
                      else (case get_row from_id rows of
                          None \<Rightarrow> None
                        | Some source \<Rightarrow>
                            if mayEdit (n_ce N) (n_Z N) (n_types N) (w_author w) (Some (w_id w)) source (n_state N) then Some v else None)
                  | _ \<Rightarrow> None)
             | _ \<Rightarrow> None))"

definition edge_key :: "jsval \<Rightarrow> jsval \<times> jsval \<times> jsval" where
  "edge_key v = (prop_of v ''from'', prop_of v ''to'', prop_of v ''rel'')"

fun best_edge :: "row \<times> jsval \<Rightarrow> (row \<times> jsval) list \<Rightarrow> (row \<times> jsval) list" where
  "best_edge (w, v) [] = [(w, v)]"
| "best_edge (w, v) ((x, u) # es) =
     (if edge_key u = edge_key v then (if compare (put_version w) (put_version x) > 0 then (w, v) else (x, u)) # es
      else (x, u) # best_edge (w, v) es)"

fun insert_oldest :: "row \<times> jsval \<Rightarrow> (row \<times> jsval) list \<Rightarrow> (row \<times> jsval) list" where
  "insert_oldest e [] = [e]"
| "insert_oldest e (x # xs) = (if compare (put_version (fst e)) (put_version (fst x)) < 0 then e # x # xs else x # insert_oldest e xs)"

definition edgeRows :: "ienv \<Rightarrow> row list \<Rightarrow> bytes \<Rightarrow> direction \<Rightarrow> string option \<Rightarrow> (row \<times> jsval) list" where
  "edgeRows N rows i dir name =
     (let edges = concat (map (\<lambda>w. case edge_of N rows i dir name w of None \<Rightarrow> [] | Some v \<Rightarrow> [(w, v)]) (rows_linking i ''hg/relation'' rows))
      in fold insert_oldest (filter (\<lambda>(w, v). \<not> js_truthy (prop_of v ''off'')) (fold best_edge edges [])) [])"

definition edge_shape :: "ienv \<Rightarrow> row \<times> jsval \<Rightarrow> jsval" where
  "edge_shape N e = (case e of (w, v) \<Rightarrow>
     JObj [(''id'', JStr (z_encode (n_Z N) (w_id w))), (''from'', prop_of v ''from''), (''to'', prop_of v ''to''), (''type'', prop_of v ''rel''),
       (''value'', if absent (prop_of v ''value'') then JNull else prop_of v ''value''),
       (''data'', if absent (prop_of v ''data'') then JNull else prop_of v ''data''),
       (''author'', JStr (z_encode (n_Z N) (w_author w))), (''stamp'', JNum (int (w_stamp w)))])"

text \<open>\<open>desc\<close>: newest first. The limit caps the edges given, not their number.\<close>

definition edges_at :: "ienv \<Rightarrow> row list \<Rightarrow> bytes \<Rightarrow> direction \<Rightarrow> string option \<Rightarrow> bool \<Rightarrow> enat \<Rightarrow> jsval list \<times> nat" where
  "edges_at N rows i dir name desc most =
     (let all = map (edge_shape N) (edgeRows N rows i dir name);
          ordered = (if desc then rev all else all)
      in (case most of enat n \<Rightarrow> take n ordered | \<infinity> \<Rightarrow> ordered, length all))"

section \<open>One record\<close>

definition deletedOf :: "ienv \<Rightarrow> change list \<Rightarrow> bytes \<Rightarrow> gone option" where
  "deletedOf N chs i =
     (if isRemoved (n_state N) (hex i) then Some BySpace
      else (case idParts (n_ce N) (n_Z N) (IdBytes i) of
          None \<Rightarrow> None
        | Some r \<Rightarrow> (case n_logOf N (r_log r) of
              None \<Rightarrow> None
            | Some l \<Rightarrow> map_option byAuthor (latest ch_version
                (filter (\<lambda>c. ch_kind c = DELETE \<and> ch_author c = g_identity l) (changes_of i chs))))))"

definition get_record :: "ienv \<Rightarrow> (row \<Rightarrow> row option) \<Rightarrow> nat \<Rightarrow> row list \<Rightarrow> change list \<Rightarrow> bytes \<Rightarrow> jsval option \<times> bool \<times> gone option" where
  "get_record N content now rows chs i =
     (let (found, partial) = (case get_row i rows of
            None \<Rightarrow> (None, False)
          | Some w \<Rightarrow>
              if \<not> mayPut (n_ce N) (n_Z N) (n_types N) w (n_state N) then (None, False)
              else (case shaped N content now rows [w] of (items, p) \<Rightarrow> (case items of [] \<Rightarrow> None | x # xs \<Rightarrow> Some x, p)))
      in (found, partial, if found = None then deletedOf N chs i else None))"

end
