(* ===== verification/Pages.thy ===== *)
theory Pages
  imports Query Any_Order
begin

text \<open>
  The pages of a query, each asked for after the last record of the one before, are the list of the records
  that all its filters keep, newest first: whichever of the filters picks the index, none is missed or shown twice.
\<close>

section \<open>The list a query stands for\<close>

text \<open>Without its filters' own index: every record they keep, judged by its links where they ask for it.\<close>

definition answered_row :: "(row \<Rightarrow> bool option \<times> row) option \<Rightarrow> row \<Rightarrow> row list" where
  "answered_row judged w = (case judged of None \<Rightarrow> [w] | Some f \<Rightarrow> (case f w of (Some True, v) \<Rightarrow> [v] | _ \<Rightarrow> []))"

definition query_rows :: "ienv \<Rightarrow> (row \<Rightarrow> row option) \<Rightarrow> row list \<Rightarrow> query \<Rightarrow> row list" where
  "query_rows N content rows q =
     concat (map (answered_row (map_option (\<lambda>t w. row_linkCounts N content rows w t) (y_target q))) (newest_first (filter (kept N q None) rows)))"

text \<open>The app asking for \<open>k\<close> pages.\<close>

fun pages :: "ienv \<Rightarrow> (row \<Rightarrow> row option) \<Rightarrow> row list \<Rightarrow> query \<Rightarrow> nat \<Rightarrow> nat \<Rightarrow> place option \<Rightarrow> row list" where
  "pages N content rows q n 0 after = []"
| "pages N content rows q n (Suc k) after =
     (let ws = fst (page_rows N content rows q n after)
      in if ws = [] then [] else ws @ pages N content rows q n k (Some (row_place (last ws))))"

section \<open>Orders of the index\<close>

lemma insort_place:
  assumes "\<forall>y\<in>set ys. w_id x < w_id y" "sorted_wrt (<) (map row_place ys)"
  shows "sorted_wrt (<) (map row_place (insort_key w_stamp x ys))"
  using assms
proof (induction ys)
  case (Cons y ys)
  then show ?case
    by (auto simp: row_place_def less_prod_def set_insort_key intro: order.strict_trans2 order.strict_trans)
qed simp

lemma by_stamp_sorted: "by_id rows \<Longrightarrow> sorted_wrt (<) (map row_place (sort_key w_stamp (filter Q rows)))"
proof (induction rows)
  case (Cons w ws)
  then show ?case by (auto simp: image_iff intro!: insort_place)
qed simp

lemma by_place_sorted: "distinct (ids ws) \<Longrightarrow> sorted_wrt (<) (map row_place (sort_key row_place ws))"
proof -
  assume d: "distinct (ids ws)"
  then have "distinct (map row_place ws)" by (auto simp: distinct_map row_place_def inj_on_def)
  then have "distinct (map row_place (sort_key row_place ws))" by (simp add: distinct_map)
  then show ?thesis by (simp add: strict_sorted_iff)
qed

lemma newest_first_filter:
  assumes "by_id rows" "\<And>w. Q w \<Longrightarrow> R w"
  shows "filter Q (rev (sort_key w_stamp (filter R rows))) = newest_first (filter Q rows)"
proof -
  have d: "distinct (ids (filter Q rows))" using by_id_distinct [OF assms(1)] by (simp add: distinct_map_filter)
  have "sort_key w_stamp (filter Q (filter R rows)) = sort_key row_place (filter Q rows)"
  proof (rule sorted_determined)
    show "sorted_wrt (<) (map row_place (sort_key w_stamp (filter Q (filter R rows))))"
      using by_stamp_sorted [OF assms(1), of "\<lambda>w. R w \<and> Q w"] by (simp add: conj_commute)
    show "sorted_wrt (<) (map row_place (sort_key row_place (filter Q rows)))" by (rule by_place_sorted [OF d])
  qed (use assms(2) in auto)
  moreover have "filter Q (sort_key w_stamp (filter R rows)) = sort_key w_stamp (filter Q (filter R rows))" by (simp add: filter_sort)
  ultimately show ?thesis by (simp add: newest_first_def rev_filter [symmetric])
qed

lemma found_all:
  obtains R where "found N q rows = sort_key w_stamp (filter R rows)" "\<And>w. kept N q None w \<Longrightarrow> R w"
proof -
  have "\<exists>R. found N q rows = sort_key w_stamp (filter R rows) \<and> (\<forall>w. kept N q None w \<longrightarrow> R w)"
    unfolding found_def
    by (cases "y_filter q"; cases "y_tagged q"; cases "y_target q"; cases "y_author q")
      (auto simp: rows_by_ix_def rows_linking_def rows_of_type_def kept_def intro!: exI)
  then show ?thesis using that by blast
qed

section \<open>One page\<close>

definition before_place :: "place option \<Rightarrow> row \<Rightarrow> bool" where
  "before_place after w \<longleftrightarrow> (case after of None \<Rightarrow> True | Some p \<Rightarrow> row_place w < p)"

lemma kept_before: "in_stamps q after w \<and> kept N q after w \<longleftrightarrow> kept N q None w \<and> before_place after w"
  by (cases after) (auto simp: in_stamps_def kept_def before_place_def row_place_def less_prod_def)

lemma collect_page:
  assumes "length items < n"
  shows "fst (collect judged n ws items partial) = items @ take (n - length items) (concat (map (answered_row judged) ws))"
  using assms
proof (induction ws arbitrary: items partial)
  case (Cons w ws)
  have "n - length items = Suc (n - Suc (length items))" using Cons.prems by simp
  then have step: "take (n - length items) (v # xs) = v # take (n - Suc (length items)) xs" for v :: row and xs
    by (simp only: take_Suc_Cons)
  have more: "fst (if length items + 1 = n then (items @ [v], partial) else collect judged n ws (items @ [v]) partial) =
      items @ v # take (n - Suc (length items)) (concat (map (answered_row judged) ws))" for v
    using Cons.IH [of "items @ [v]"] Cons.prems by auto
  show ?case
  proof (cases judged)
    case None
    have "answered_row None w = [w]" by (simp add: answered_row_def)
    with more [of w, unfolded None] step show ?thesis
      by (simp only: None collect.simps option.case list.map concat.simps append_Cons append_Nil)
  next
    case (Some f)
    obtain k v where f: "f w = (k, v)" by (cases "f w")
    have "answered_row (Some f) w = (case k of Some True \<Rightarrow> [v] | _ \<Rightarrow> [])" by (simp add: answered_row_def f)
    moreover have "k = None \<or> k = Some False \<or> k = Some True" by (cases k) auto
    ultimately show ?thesis using Cons.IH [OF Cons.prems, unfolded Some] step more [of v, unfolded Some] unfolding Some
      by (elim disjE) (simp_all only: f collect.simps option.case prod.case bool.case list.map concat.simps append_Cons append_Nil)
  qed
qed simp

definition judged_by :: "ienv \<Rightarrow> (row \<Rightarrow> row option) \<Rightarrow> row list \<Rightarrow> query \<Rightarrow> row \<Rightarrow> row list" where
  "judged_by N content rows q = answered_row (map_option (\<lambda>t w. row_linkCounts N content rows w t) (y_target q))"

lemma page_is:
  assumes "by_id rows" "n > 0"
  shows "fst (page_rows N content rows q n after) =
    take n (concat (map (judged_by N content rows q) (filter (before_place after) (newest_first (filter (kept N q None) rows)))))"
proof -
  obtain R where R: "found N q rows = sort_key w_stamp (filter R rows)" "\<And>w. kept N q None w \<Longrightarrow> R w" by (rule found_all [of N q rows]) blast
  have "filter (kept N q after) (rev (filter (in_stamps q after) (found N q rows))) =
    filter (\<lambda>w. kept N q None w \<and> before_place after w) (rev (sort_key w_stamp (filter R rows)))"
    by (simp only: R(1) rev_filter [symmetric] filter_filter kept_before [symmetric] conj_commute [of "kept N q after _"])
  also have "\<dots> = filter (before_place after) (filter (kept N q None) (rev (sort_key w_stamp (filter R rows))))"
    by (simp add: conj_commute)
  also have "\<dots> = filter (before_place after) (newest_first (filter (kept N q None) rows))"
    using newest_first_filter [OF assms(1), of "kept N q None" R] R(2) by simp
  finally show ?thesis using collect_page [of "[]" n] assms(2) by (simp add: page_rows_def judged_by_def)
qed

lemma judged_place:
  assumes "\<And>w v. content w = Some v \<Longrightarrow> row_place v = row_place w" "v \<in> set (judged_by N content rows q w)"
  shows "row_place v = row_place w"
  using assms(2)
  by (auto simp: judged_by_def answered_row_def row_linkCounts_def Let_def split: option.splits bool.splits dest: assms(1))

lemma judged_one: "judged_by N content rows q w = [] \<or> (\<exists>v. judged_by N content rows q w = [v])"
  by (auto simp: judged_by_def answered_row_def split: option.split prod.split bool.split)

text \<open>What comes after the last record of a page, in a list from the newest to the oldest.\<close>

lemma after_last:
  assumes "\<And>w v. v \<in> set (f w) \<Longrightarrow> row_place v = row_place w" "\<And>w. f w = [] \<or> (\<exists>v. f w = [v])"
    and "sorted_wrt (>) (map row_place ws)" "take n (concat (map f ws)) \<noteq> []"
  shows "concat (map f (filter (before_place (Some (row_place (last (take n (concat (map f ws))))))) ws)) = drop n (concat (map f ws))"
  using assms(3,4)
proof (induction ws arbitrary: n)
  case (Cons w ws)
  have all: "filter (before_place (Some (row_place w))) ws = ws"
    using Cons.prems(1) by (auto simp: before_place_def filter_id_conv)
  have place: "row_place x \<in> set (map row_place ws)" if "x \<in> set (concat (map f ws))" for x
    using that assms(1) by auto
  consider "f w = []" | v where "f w = [v]" using assms(2) by blast
  then show ?case
  proof cases
    case 1
    with Cons.prems have ne: "take n (concat (map f ws)) \<noteq> []" by simp
    show ?thesis using Cons.IH [OF _ ne] Cons.prems(1) 1 by (simp add: before_place_def)
  next
    case 2
    then have pv: "row_place v = row_place w" using assms(1) [of v w] by simp
    obtain m where n: "n = Suc m" using Cons.prems(2) by (cases n) auto
    show ?thesis
    proof (cases "take m (concat (map f ws)) = []")
      case True
      then have "drop m (concat (map f ws)) = concat (map f ws)" unfolding take_eq_Nil by (elim disjE) (simp_all only: drop_Nil drop_0)
      with True 2 have "take n (concat (map f (w # ws))) = [v]" "drop n (concat (map f (w # ws))) = concat (map f ws)"
        by (simp_all only: n list.map concat.simps append_Cons append_Nil take_Suc_Cons drop_Suc_Cons)
      moreover have "filter (before_place (Some (row_place v))) (w # ws) = ws" using all pv by (simp add: before_place_def)
      ultimately show ?thesis by (simp only: last_ConsL)
    next
      case False
      let ?l = "last (take m (concat (map f ws)))"
      have "?l \<in> set (concat (map f ws))" using False last_in_set in_set_takeD by metis
      moreover have "\<forall>p\<in>set (map row_place ws). p < row_place w" using Cons.prems(1) by simp
      ultimately have "row_place ?l < row_place w" using place by blast
      then have "\<not> before_place (Some (row_place ?l)) w" by (simp add: before_place_def)
      then have "filter (before_place (Some (row_place ?l))) (w # ws) = filter (before_place (Some (row_place ?l))) ws" by simp
      moreover have "take n (concat (map f (w # ws))) = v # take m (concat (map f ws))" "drop n (concat (map f (w # ws))) = drop m (concat (map f ws))"
        using 2 by (simp_all only: n list.map concat.simps append_Cons append_Nil take_Suc_Cons drop_Suc_Cons)
      moreover have "sorted_wrt (>) (map row_place ws)" using Cons.prems(1) by simp
      ultimately show ?thesis using Cons.IH [OF _ False] False by (simp only: last_ConsR not_False_eq_True)
    qed
  qed
qed simp

lemma pages_are:
  assumes "by_id rows" "n > 0" "\<And>w v. content w = Some v \<Longrightarrow> row_place v = row_place w"
  shows "pages N content rows q n k after = take (k * n)
    (concat (map (judged_by N content rows q) (filter (before_place after) (newest_first (filter (kept N q None) rows)))))"
proof (induction k arbitrary: after)
  case (Suc k)
  define L where "L = newest_first (filter (kept N q None) rows)"
  define f where "f = judged_by N content rows q"
  define A where "A = filter (before_place after) L"
  have page: "fst (page_rows N content rows q n after) = take n (concat (map f A))"
    using page_is [OF assms(1,2)] by (simp add: L_def f_def A_def)
  show ?case
  proof (cases "take n (concat (map f A)) = []")
    case True
    then have "concat (map f A) = []" using assms(2) by simp
    with True page show ?thesis by (simp add: L_def [symmetric] f_def [symmetric] A_def [symmetric])
  next
    case False
    let ?p = "row_place (last (take n (concat (map f A))))"
    have "distinct (ids (filter (kept N q None) rows))" using by_id_distinct [OF assms(1)] by (simp add: distinct_map_filter)
    then have "sorted_wrt (>) (map row_place L)"
      using by_place_sorted by (simp add: L_def newest_first_def rev_map [symmetric] sorted_wrt_rev)
    then have s: "sorted_wrt (>) (map row_place A)" by (simp add: A_def sorted_wrt_map sorted_wrt_filter)
    have fp: "v \<in> set (f w) \<Longrightarrow> row_place v = row_place w" for v w unfolding f_def by (rule judged_place [OF assms(3)])
    have f1: "f w = [] \<or> (\<exists>v. f w = [v])" for w unfolding f_def by (rule judged_one)
    have "last (take n (concat (map f A))) \<in> set (concat (map f A))" using False last_in_set in_set_takeD by metis
    then obtain w where "w \<in> set A" "?p = row_place w" using fp by fastforce
    then have "filter (before_place (Some ?p)) L = filter (before_place (Some ?p)) A"
      by (auto simp: A_def before_place_def intro!: filter_cong split: option.split)
    with after_last [OF fp f1 s False] have "concat (map f (filter (before_place (Some ?p)) L)) = drop n (concat (map f A))" by simp
    with Suc.IH [of "Some ?p"] page False show ?thesis
      by (simp only: pages.simps Let_def L_def [symmetric] f_def [symmetric] A_def [symmetric] take_add mult_Suc if_False)
  qed
qed simp

text \<open>C37: The pages of a query, each after the last record of the one before, are the records that all its filters
  keep, newest first, each once and none left out, whichever filter picks the index they are read from.\<close>

theorem pages_are_the_list:
  assumes "by_id rows" "n > 0" "\<And>w v. content w = Some v \<Longrightarrow> row_place v = row_place w"
  shows "pages N content rows q n k None = take (k * n) (query_rows N content rows q) \<and>
    sorted_wrt (>) (map row_place (newest_first (filter (kept N q None) rows))) \<and>
    set (newest_first (filter (kept N q None) rows)) = {w \<in> set rows. kept N q None w}"
proof -
  have "distinct (ids (filter (kept N q None) rows))" using by_id_distinct [OF assms(1)] by (simp add: distinct_map_filter)
  then have "sorted_wrt (>) (map row_place (newest_first (filter (kept N q None) rows)))"
    using by_place_sorted by (simp add: newest_first_def rev_map [symmetric] sorted_wrt_rev)
  moreover have "filter (before_place None) ws = ws" for ws by (simp add: before_place_def)
  ultimately show ?thesis
    using pages_are [OF assms] by (auto simp: query_rows_def judged_by_def newest_first_def)
qed

definition ex_rows :: "row list" where
  "ex_rows = [ex_row 2 ''vote'' 12, ex_row 3 ''vote'' 13, ex_row 5 ''note'' 11]"

lemma ex_ids_order: "ex_id 2 < ex_id 3" "ex_id 2 < ex_id 5" "ex_id 3 < ex_id 5"
  by (simp_all add: ex_id_less le_num le_1)

theorem pages_are_the_list_witness:
  "map w_seq (pages ex_N (\<lambda>w. None) ex_rows (new_query ''vote'') 1 2 None) = [3, 2]"
proof -
  have "by_id ex_rows" using ex_ids_order by (simp add: ex_rows_def ex_row_def)
  from pages_are_the_list [OF this, of 1 "\<lambda>w. None" ex_N "new_query ''vote''" 2]
  have "pages ex_N (\<lambda>w. None) ex_rows (new_query ''vote'') 1 2 None = take 2 (query_rows ex_N (\<lambda>w. None) ex_rows (new_query ''vote''))" by simp
  then show ?thesis using ex_ids_order
    by (simp add: query_rows_def answered_row_def newest_first_def ex_rows_def kept_def new_query_def ex_row_def has_flag_def mayPut_def ex_type_def
        row_place_def less_eq_prod_def)
qed

section \<open>What points at a record\<close>

lemma sorted_filter_by: "sorted (map f xs) \<Longrightarrow> sorted (map f (filter Q xs))"
  by (induction xs) auto

text \<open>Of one type, oldest first; without a type, type by type.\<close>

lemma linked_of_type_oldest_first: "name \<noteq> [] \<Longrightarrow> sorted (map w_stamp (linkedRows N rows target (Some name)))"
  by (auto simp: linkedRows_def truthy_def rows_linking_def intro!: sorted_filter_by)

definition ex_linking :: "row list" where
  "ex_linking = [(ex_row 2 ''note'' 13)\<lparr>w_links := [ex_id 5]\<rparr>, (ex_row 3 ''vote'' 12)\<lparr>w_links := [ex_id 5]\<rparr>]"

lemma linked_without_type_not_by_age: "map w_stamp (linkedRows ex_N ex_linking (ex_id 5) None) = [13, 12]"
  by (simp add: linkedRows_def truthy_def rows_pointing_def ex_linking_def ex_row_def has_flag_def is_hg_def mayPut_def ex_type_def less_eq_prod_def)

end
