(* ===== verification/Private_Keys.thy ===== *)
theory Private_Keys
  imports Query
begin

text \<open>
  Private spaces: records sealed with the key of an epoch (lib/private/crypto.js), keys given to devices in grants
  (lib/private/grants.js), and the keys a device holds (lib/space.js): which it learns from grants and key links,
  and when a sealed record opens. What the code takes from sodium-universal, and the codec \<open>c.fixed(n)\<close> of
  compact-encoding, are the argument \<open>S\<close>; random bytes (nonces, new keys) are arguments. The ring of keys is a list
  of short commitments with their key and epoch: the code's two maps, which it always sets together.
\<close>

section \<open>Sodium\<close>

record sodium =
  sd_hash :: "bytes \<Rightarrow> bytes" \<comment> \<open>32 bytes\<close>
  sd_pk_box :: "bytes \<Rightarrow> bytes option" \<comment> \<open>a signing key as a box key; \<open>None\<close>: it throws\<close>
  sd_sk_box :: "bytes \<Rightarrow> bytes"
  sd_seal :: "bytes \<Rightarrow> bytes \<Rightarrow> bytes \<Rightarrow> bytes" \<comment> \<open>its randomness, the message, the public key\<close>
  sd_seal_open :: "bytes \<Rightarrow> bytes \<times> bytes \<Rightarrow> bytes option"
  sd_encrypt :: "bytes \<Rightarrow> bytes \<Rightarrow> bytes \<Rightarrow> bytes \<Rightarrow> bytes" \<comment> \<open>message, additional data, nonce, key\<close>
  sd_decrypt :: "bytes \<Rightarrow> bytes \<Rightarrow> bytes \<Rightarrow> bytes \<Rightarrow> bytes option"
  sd_fixed :: "nat \<Rightarrow> bytes codec"

definition NONCE_BYTES :: nat where "NONCE_BYTES = 24"
definition TAG_BYTES :: nat where "TAG_BYTES = 16"
definition KEY_BYTES :: nat where "KEY_BYTES = 32"
definition SEAL_BYTES :: nat where "SEAL_BYTES = 48"
definition COMMIT_BYTES :: nat where "COMMIT_BYTES = 8"

definition boxKeyPair :: "sodium \<Rightarrow> bytes \<times> bytes \<Rightarrow> (bytes \<times> bytes) option" where
  "boxKeyPair S device = (case device of (pk, sk) \<Rightarrow> map_option (\<lambda>p. (p, sd_sk_box S sk)) (sd_pk_box S pk))"

definition openSealed :: "sodium \<Rightarrow> bytes \<Rightarrow> bytes \<times> bytes \<Rightarrow> bytes option" where
  "openSealed S sealed pair = (if length sealed < SEAL_BYTES then None else sd_seal_open S sealed pair)"

definition commitOf :: "sodium \<Rightarrow> bytes \<Rightarrow> bytes" where
  "commitOf S key = sd_hash S (ascii ''hypergraph/epoch'' @ [0] @ key)"

definition place_bytes :: "bytes \<Rightarrow> bytes \<Rightarrow> nat \<Rightarrow> nat \<Rightarrow> bytes" where
  "place_bytes space lg seq epoch = ascii ''hypergraph/record'' @ [0] @ space @ lg @ ([0] @ ascii (decimal seq) @ [0] @ ascii (decimal epoch))"

definition recordAD :: "sodium \<Rightarrow> bytes \<Rightarrow> bytes \<Rightarrow> nat \<Rightarrow> nat \<Rightarrow> bytes" where
  "recordAD S space lg seq epoch = sd_hash S (place_bytes space lg seq epoch)"

definition linkAD :: "sodium \<Rightarrow> bytes \<Rightarrow> bytes \<Rightarrow> bytes" where
  "linkAD S space commit = sd_hash S (ascii ''hypergraph/key-link'' @ [0] @ space @ commit)"

definition shortCommit :: "bytes \<Rightarrow> string" where "shortCommit commit = hex (take COMMIT_BYTES commit)"

section \<open>Sealed records\<close>

text \<open>An empty buffer is written as null is, and read as null: for fields the code makes it an empty one again, and a
  link that is null stands here as an empty one. The links of an opened record are no longer checked to be record
  ids, as \<open>decodeRecord\<close> checks those of a record in the clear.\<close>

definition buf_of :: "bytes \<Rightarrow> jsval" where "buf_of b = (if b = [] then JNull else JBuf b)"

fun of_buf :: "jsval \<Rightarrow> bytes" where
  "of_buf (JBuf b) = b"
| "of_buf v = []"

definition payload_put :: "prims \<Rightarrow> bytes \<Rightarrow> bytes list \<Rightarrow> bytes" where
  "payload_put C fs ls = c_put (p_buffer C) (buf_of fs) @ c_put (p_array C (p_buffer C)) (JArr (map buf_of ls))"

definition payload_get :: "prims \<Rightarrow> bytes \<Rightarrow> (bytes \<times> bytes list) option" where
  "payload_get C bs = do {
     (f, r) \<leftarrow> c_get (p_buffer C) bs;
     (ls, r) \<leftarrow> c_get (p_array C (p_buffer C)) r;
     (case ls of JArr vs \<Rightarrow> Some (of_buf f, map of_buf vs) | _ \<Rightarrow> None) }"

record envelope =
  v_epoch :: nat
  v_commit :: bytes
  v_nonce :: bytes
  v_box :: "bytes option"

definition envelope_put :: "sodium \<Rightarrow> prims \<Rightarrow> envelope \<Rightarrow> bytes" where
  "envelope_put S C v = c_put (p_uint C) (JNum (int (v_epoch v))) @ c_put (sd_fixed S COMMIT_BYTES) (v_commit v) @ c_put (sd_fixed S NONCE_BYTES) (v_nonce v) @ c_put (p_buffer C) (buf (v_box v))"

definition envelope_get :: "sodium \<Rightarrow> prims \<Rightarrow> bytes \<Rightarrow> envelope option" where
  "envelope_get S C bs = do {
     (e, r) \<leftarrow> c_get (p_uint C) bs;
     (cm, r) \<leftarrow> c_get (sd_fixed S COMMIT_BYTES) r;
     (n, r) \<leftarrow> c_get (sd_fixed S NONCE_BYTES) r;
     (b, r) \<leftarrow> c_get (p_buffer C) r;
     (case e of JNum k \<Rightarrow> Some \<lparr>v_epoch = nat k, v_commit = cm, v_nonce = n, v_box = unbuf b\<rparr> | _ \<Rightarrow> None) }"

definition sealRecord :: "sodium \<Rightarrow> prims \<Rightarrow> bytes \<Rightarrow> bytes \<Rightarrow> nat \<Rightarrow> bytes \<Rightarrow> bytes \<Rightarrow> bytes list \<Rightarrow> bytes" where
  "sealRecord S C nonce key epoch ad fs ls = envelope_put S C
     \<lparr>v_epoch = epoch, v_commit = take COMMIT_BYTES (commitOf S key), v_nonce = nonce, v_box = Some (sd_encrypt S (payload_put C fs ls) ad nonce key)\<rparr>"

definition sealedWith :: "sodium \<Rightarrow> prims \<Rightarrow> bytes \<Rightarrow> (nat \<times> string) option" where
  "sealedWith S C sealed = map_option (\<lambda>v. (v_epoch v, hex (v_commit v))) (envelope_get S C sealed)"

definition openRecord :: "sodium \<Rightarrow> prims \<Rightarrow> bytes \<Rightarrow> bytes \<Rightarrow> bytes \<Rightarrow> (bytes \<times> bytes list) option" where
  "openRecord S C key ad sealed = do {
     v \<leftarrow> envelope_get S C sealed;
     box \<leftarrow> v_box v;
     if length box < TAG_BYTES then None
     else do { plain \<leftarrow> sd_decrypt S box ad (v_nonce v) key; payload_get C plain } }"

text \<open>An older key sealed with a newer one.\<close>

definition sealKey :: "sodium \<Rightarrow> bytes \<Rightarrow> bytes \<Rightarrow> bytes \<Rightarrow> bytes \<Rightarrow> bytes" where
  "sealKey S nonce withKey key ad = nonce @ sd_encrypt S key ad nonce withKey"

definition openKey :: "sodium \<Rightarrow> bytes \<Rightarrow> jsval \<Rightarrow> bytes \<Rightarrow> bytes option" where
  "openKey S withKey sealed ad = (case sealed of
       JBuf b \<Rightarrow> if length b \<noteq> NONCE_BYTES + KEY_BYTES + TAG_BYTES then None
                  else sd_decrypt S (drop NONCE_BYTES b) ad (take NONCE_BYTES b) withKey
     | _ \<Rightarrow> None)"

section \<open>Grants\<close>

definition grantIx :: "z32 \<Rightarrow> bytes \<Rightarrow> string" where "grantIx Z device = ''to'' @ NUL @ z_encode Z device"

definition makeGrant :: "sodium \<Rightarrow> z32 \<Rightarrow> bytes \<Rightarrow> bytes \<Rightarrow> nat \<Rightarrow> bytes \<Rightarrow> bytes \<Rightarrow> jsval option" where
  "makeGrant S Z random key epoch commit device = map_option (\<lambda>box.
     JObj [(''to'', JStr (z_encode Z device)), (''epoch'', JNum (int epoch)), (''commit'', JBuf commit), (''sealed'', JBuf (sd_seal S random key box))])
     (sd_pk_box S device)"

definition known :: "epochs option \<Rightarrow> nat \<Rightarrow> string \<Rightarrow> bool" where
  "known keys epoch commit \<longleftrightarrow> (case keys of None \<Rightarrow> False
     | Some k \<Rightarrow> ep_commits k epoch = Some commit \<or> ep_others k commit = Some epoch)"

text \<open>Epochs are \<open>uint\<close> fields: never negative.\<close>

definition openGrant :: "sodium \<Rightarrow> jsval \<Rightarrow> bytes \<times> bytes \<Rightarrow> epochs option \<Rightarrow> (string \<times> bytes) option" where
  "openGrant S values pair keys =
     (case (prop_of values ''sealed'', prop_of values ''commit'', prop_of values ''epoch'') of
        (JBuf sealed, JBuf commit, JNum n) \<Rightarrow>
          if \<not> safe_int n \<or> \<not> known keys (nat n) (hex commit) then None
          else (case openSealed S sealed pair of
              None \<Rightarrow> None
            | Some key \<Rightarrow> if hex (commitOf S key) \<noteq> hex commit then None else Some (hex commit, key))
      | _ \<Rightarrow> None)"

definition current_commit :: "epochs option \<Rightarrow> string option" where
  "current_commit keys = (case keys of None \<Rightarrow> None | Some k \<Rightarrow> if ep_current k < 0 then None else ep_commits k (nat (ep_current k)))"

definition current_grant :: "jsval \<Rightarrow> epochs option \<Rightarrow> bool" where
  "current_grant values keys \<longleftrightarrow> (case keys of None \<Rightarrow> False
     | Some k \<Rightarrow> (case prop_of values ''commit'' of
           JBuf commit \<Rightarrow> prop_of values ''epoch'' = JNum (ep_current k) \<and> current_commit keys = Some (hex commit)
         | _ \<Rightarrow> False))"

section \<open>The keys held here\<close>

type_synonym ring = "(string \<times> bytes \<times> nat) list"

definition keep :: "string \<Rightarrow> bytes \<Rightarrow> nat \<Rightarrow> ring \<Rightarrow> ring" where
  "keep sc key epoch kr = (sc, key, epoch) # filter (\<lambda>e. fst e \<noteq> sc) kr"

definition hidden :: "space_state \<Rightarrow> ring \<Rightarrow> nat \<Rightarrow> bool" where
  "hidden st kr epoch \<longleftrightarrow> q_history st = ''hidden'' \<and> kr \<noteq> [] \<and> list_all (\<lambda>(s, k, e). epoch < e) kr"

definition current_key :: "epochs option \<Rightarrow> ring \<Rightarrow> bytes option" where
  "current_key keys kr = (case current_commit keys of None \<Rightarrow> None
     | Some commit \<Rightarrow> if commit = [] then None else map_option fst (map_of kr (take 16 commit)))"

definition PLAIN :: "string list" where "PLAIN = [''hg/grant'', ''hg/key-link'', ''hg/device-remove'']"

text \<open>How a record is written with the current key, at its place in this device's log.\<close>

definition sealed_record :: "sodium \<Rightarrow> prims \<Rightarrow> bytes \<Rightarrow> bytes \<Rightarrow> bytes \<Rightarrow> bytes \<Rightarrow> nat \<Rightarrow> nat \<Rightarrow> lrec \<Rightarrow> lrec" where
  "sealed_record S C nonce space lg key epoch seq r =
     r\<lparr>l_links := [], l_fields := sealRecord S C nonce key epoch (recordAD S space lg seq epoch) (l_fields r) (l_links r), l_sealed := True\<rparr>"

definition seals :: "space_state \<Rightarrow> lrec \<Rightarrow> bool" where
  "seals st r \<longleftrightarrow> q_private st \<and> l_type r \<notin> set PLAIN \<and> l_kind r \<noteq> DELETE"

definition locked :: "sodium \<Rightarrow> prims \<Rightarrow> space_state \<Rightarrow> ring \<Rightarrow> bytes \<Rightarrow> bool" where
  "locked S C st kr bs \<longleftrightarrow> q_private st \<and>
     (case decodeRecord C bs of
        Inl e \<Rightarrow> False
      | Inr r \<Rightarrow> l_sealed r \<and> l_type r \<notin> set PLAIN \<and>
          (case sealedWith S C (l_fields r) of None \<Rightarrow> False | Some (epoch, sc) \<Rightarrow> map_of kr sc = None \<and> \<not> hidden st kr epoch))"

definition unseal :: "sodium \<Rightarrow> prims \<Rightarrow> bytes \<Rightarrow> space_state \<Rightarrow> ring \<Rightarrow> dlog \<Rightarrow> nat \<Rightarrow> lrec \<Rightarrow> opened" where
  "unseal S C space st kr l seq r =
     (if \<not> seals st r then (if l_sealed r then Closed else Opened r)
      else if \<not> l_sealed r then (if l_kind r = PUT then Unreadable (r\<lparr>l_fields := [], l_links := []\<rparr>) else Closed)
      else (case sealedWith S C (l_fields r) of
          None \<Rightarrow> Closed
        | Some (epoch, sc) \<Rightarrow>
            (case map_of kr sc of
               None \<Rightarrow> if hidden st kr epoch then Closed else Locked
             | Some (key, e) \<Rightarrow>
                 (case openRecord S C key (recordAD S space (g_key l) seq epoch) (l_fields r) of
                    None \<Rightarrow> Closed
                  | Some (fs, ls) \<Rightarrow> Opened (r\<lparr>l_fields := fs, l_links := ls, l_sealed := False\<rparr>)))))"

definition unsealed :: "sodium \<Rightarrow> prims \<Rightarrow> bytes \<Rightarrow> space_state \<Rightarrow> ring \<Rightarrow> dlog \<Rightarrow> nat \<Rightarrow> bytes \<Rightarrow> lrec option" where
  "unsealed S C space st kr l seq bs = (case decodeRecord C bs of
       Inl e \<Rightarrow> None
     | Inr r \<Rightarrow> (case unseal S C space st kr l seq r of Opened q \<Rightarrow> Some q | Unreadable q \<Rightarrow> Some q | _ \<Rightarrow> None))"

section \<open>What is sealed opens where it was written\<close>

text \<open>What the packages promise: a box opens with its key and additional data, and \<open>c.fixed\<close> reads back its bytes.\<close>

definition sodium_ok :: "sodium \<Rightarrow> bool" where
  "sodium_ok S \<longleftrightarrow> (\<forall>m ad n key. sd_decrypt S (sd_encrypt S m ad n key) ad n key = Some m \<and> length (sd_encrypt S m ad n key) = length m + TAG_BYTES) \<and>
     (\<forall>key. length (sd_hash S key) = 32) \<and> (\<forall>k b r. length b = k \<longrightarrow> c_get (sd_fixed S k) (c_put (sd_fixed S k) b @ r) = Some (b, r))"

definition small_content :: "prims \<Rightarrow> bytes \<Rightarrow> bytes list \<Rightarrow> bool" where
  "small_content C fs ls \<longleftrightarrow> length fs < 2 ^ 32 \<and> length ls < 2 ^ 32 \<and> list_all (\<lambda>l. length l < 2 ^ 32) ls \<and>
     length (payload_put C fs ls) + TAG_BYTES < 2 ^ 32"

lemma of_buf_of [simp]: "of_buf (buf_of b) = b" by (simp add: buf_of_def)

lemma is_buffer_of: "length b < 2 ^ 32 \<Longrightarrow> is_buffer (buf_of b)" by (simp add: buf_of_def is_buffer_def)

lemma payload_trip:
  assumes "prims_ok C" "small_content C fs ls"
  shows "payload_get C (payload_put C fs ls) = Some (fs, ls)"
proof -
  note f = roundtripD(1) [OF buffer_trip [OF assms(1)] is_buffer_of, of fs]
  have "is_arr is_buffer (JArr (map buf_of ls))"
    using assms(2) by (auto simp: is_arr_def small_content_def list_all_iff intro: is_buffer_of)
  note l = roundtripD(2) [OF array_trip [OF assms(1) buffer_trip [OF assms(1)]] this]
  show ?thesis using assms(2) by (simp add: payload_get_def payload_put_def f l small_content_def o_def)
qed

lemma envelope_trip:
  assumes "prims_ok C" "sodium_ok S" "v_epoch v < 2 ^ 53" "length (v_commit v) = COMMIT_BYTES" "length (v_nonce v) = NONCE_BYTES"
    "v_box v = Some box" "box \<noteq> []" "length box < 2 ^ 32"
  shows "envelope_get S C (envelope_put S C v) = Some v"
proof -
  have "is_buffer (JBuf box)" using assms(7,8) by (simp add: is_buffer_def)
  note b = roundtripD(2) [OF buffer_trip [OF assms(1)] this]
  have fx: "c_get (sd_fixed S k) (c_put (sd_fixed S k) x @ r) = Some (x, r)" if "length x = k" for k x r
    using assms(2) that unfolding sodium_ok_def by blast
  show ?thesis
    by (cases v) (use assms(6) b num_trip(1) [OF assms(1,3)] fx [OF assms(4)] fx [OF assms(5)] in
      \<open>simp add: envelope_get_def envelope_put_def buf_def\<close>)
qed

lemma sealed_envelope:
  assumes "prims_ok C" "sodium_ok S" "epoch < 2 ^ 53" "length nonce = NONCE_BYTES" "small_content C fs ls"
  shows "envelope_get S C (sealRecord S C nonce key epoch ad fs ls) = Some \<lparr>v_epoch = epoch, v_commit = take COMMIT_BYTES (commitOf S key),
    v_nonce = nonce, v_box = Some (sd_encrypt S (payload_put C fs ls) ad nonce key)\<rparr>"
proof -
  have l: "length (sd_encrypt S (payload_put C fs ls) ad nonce key) = length (payload_put C fs ls) + TAG_BYTES"
    using assms(2) by (simp add: sodium_ok_def)
  then have "sd_encrypt S (payload_put C fs ls) ad nonce key \<noteq> []" by (auto simp: TAG_BYTES_def)
  with l assms show ?thesis unfolding sealRecord_def
    by (intro envelope_trip) (auto simp: small_content_def commitOf_def sodium_ok_def COMMIT_BYTES_def)
qed

lemma openRecord_trip:
  assumes "prims_ok C" "sodium_ok S" "epoch < 2 ^ 53" "length nonce = NONCE_BYTES" "small_content C fs ls"
  shows "openRecord S C key ad (sealRecord S C nonce key epoch ad fs ls) = Some (fs, ls)"
    "sealedWith S C (sealRecord S C nonce key epoch ad fs ls) = Some (epoch, shortCommit (commitOf S key))"
  using assms(2) payload_trip [OF assms(1,5)]
  by (simp_all add: openRecord_def sealedWith_def shortCommit_def sealed_envelope [OF assms] sodium_ok_def)

text \<open>A record this device seals is the one a holder of the key reads at its place, and waits for the key elsewhere.\<close>

lemma sealed_record_opens:
  assumes "prims_ok C" "sodium_ok S" "epoch < 2 ^ 53" "length nonce = NONCE_BYTES" "small_content C (l_fields r) (l_links r)"
    and "seals st r" "\<not> l_sealed r"
  shows "map_of kr (shortCommit (commitOf S key)) = Some (key, e) \<Longrightarrow>
      unseal S C space st kr l seq (sealed_record S C nonce space (g_key l) key epoch seq r) = Opened r"
    "map_of kr (shortCommit (commitOf S key)) = None \<Longrightarrow>
      unseal S C space st kr l seq (sealed_record S C nonce space (g_key l) key epoch seq r) = (if hidden st kr epoch then Closed else Locked)"
proof -
  have "seals st (sealed_record S C nonce space (g_key l) key epoch seq r)" using assms(6) by (simp add: seals_def sealed_record_def)
  moreover have "r\<lparr>l_links := l_links r, l_fields := l_fields r, l_sealed := False\<rparr> = r" using assms(7) by (cases r) simp
  ultimately show "map_of kr (shortCommit (commitOf S key)) = Some (key, e) \<Longrightarrow>
      unseal S C space st kr l seq (sealed_record S C nonce space (g_key l) key epoch seq r) = Opened r"
    "map_of kr (shortCommit (commitOf S key)) = None \<Longrightarrow>
      unseal S C space st kr l seq (sealed_record S C nonce space (g_key l) key epoch seq r) = (if hidden st kr epoch then Closed else Locked)"
    by (simp_all add: unseal_def sealed_record_def openRecord_trip [OF assms(1-5)])
qed

section \<open>Learning keys\<close>

definition learn_grant :: "ienv \<Rightarrow> sodium \<Rightarrow> bytes \<times> bytes \<Rightarrow> epochs option \<Rightarrow> row \<Rightarrow> ring \<times> bool \<Rightarrow> ring \<times> bool" where
  "learn_grant N S pair keys w kb = (case kb of (kr, learnt) \<Rightarrow>
     (case decode_record (n_ce N) (n_Z N) (n_types N) ''hg/grant'' (w_fields w) (w_links w) of
        None \<Rightarrow> kb
      | Some v \<Rightarrow>
          (case (prop_of v ''commit'', prop_of v ''epoch'') of
             (JBuf commit, JNum n) \<Rightarrow>
               if map_of kr (shortCommit commit) \<noteq> None then kb
               else (case openGrant S v pair keys of
                   None \<Rightarrow> kb
                 | Some (c, key) \<Rightarrow> (keep (shortCommit commit) key (nat n) kr, True))
           | _ \<Rightarrow> kb)))"

record key_link =
  k_from :: string
  k_to :: bytes
  k_epoch :: nat
  k_sealed :: jsval

definition key_links :: "ienv \<Rightarrow> row list \<Rightarrow> key_link list" where
  "key_links N rows = concat (map (\<lambda>w.
     case decode_record (n_ce N) (n_Z N) (n_types N) ''hg/key-link'' (w_fields w) (w_links w) of
       None \<Rightarrow> []
     | Some v \<Rightarrow>
         (case (prop_of v ''from'', prop_of v ''to'', prop_of v ''epoch'') of
            (JBuf f, JBuf t, JNum n) \<Rightarrow>
              if length t = 32 \<and> safe_int n then [\<lparr>k_from = shortCommit f, k_to = t, k_epoch = nat n, k_sealed = prop_of v ''sealed''\<rparr>] else []
          | _ \<Rightarrow> [])) (rows_of_type ''hg/key-link'' rows))"

text \<open>The key a link opens with the keys held: from a later epoch only, and only one the decision log recorded.\<close>

definition link_opens :: "sodium \<Rightarrow> bytes \<Rightarrow> epochs option \<Rightarrow> key_link \<Rightarrow> bytes \<times> nat \<Rightarrow> bytes option" where
  "link_opens S space keys l held = (case held of (bk, epoch) \<Rightarrow>
     if \<not> epoch > k_epoch l \<or> \<not> known keys (k_epoch l) (hex (k_to l)) then None
     else (case openKey S bk (k_sealed l) (linkAD S space (k_to l)) of
         None \<Rightarrow> None
       | Some key \<Rightarrow> if commitOf S key \<noteq> k_to l then None else Some key))"

definition follow_one :: "sodium \<Rightarrow> bytes \<Rightarrow> epochs option \<Rightarrow> key_link \<Rightarrow> ring \<times> bool \<Rightarrow> ring \<times> bool" where
  "follow_one S space keys l kb = (case kb of (kr, again) \<Rightarrow>
     (case map_of kr (k_from l) of
        None \<Rightarrow> kb
      | Some held \<Rightarrow>
          if map_of kr (shortCommit (k_to l)) \<noteq> None then kb
          else (case link_opens S space keys l held of
              None \<Rightarrow> kb
            | Some key \<Rightarrow> (keep (shortCommit (k_to l)) key (k_epoch l) kr, True))))"

definition follow_round :: "sodium \<Rightarrow> bytes \<Rightarrow> epochs option \<Rightarrow> key_link list \<Rightarrow> ring \<Rightarrow> ring \<times> bool" where
  "follow_round S space keys links kr = fold (follow_one S space keys) links (kr, False)"

text \<open>The sc commitments that links lead to and that are not held yet: what bounds the rounds.\<close>

definition missing_keys :: "key_link list \<Rightarrow> ring \<Rightarrow> string set" where
  "missing_keys links kr = {shortCommit (k_to l) | l. l \<in> set links} - fst ` set kr"

lemma keep_simps [simp]:
  "map_of (keep sc key epoch kr) s = (if s = sc then Some (key, epoch) else map_of kr s)"
  "fst ` set (keep sc key epoch kr) = insert sc (fst ` set kr)"
proof -
  have "map_of (filter (\<lambda>e. fst e \<noteq> sc) kr) s = map_of kr s" if "s \<noteq> sc"
    using that by (induction kr) auto
  then show "map_of (keep sc key epoch kr) s = (if s = sc then Some (key, epoch) else map_of kr s)" by (simp add: keep_def)
  show "fst ` set (keep sc key epoch kr) = insert sc (fst ` set kr)" by (auto simp: keep_def)
qed

lemma finite_missing [simp]: "finite (missing_keys links kr)"
  by (simp add: missing_keys_def)

lemma held_short: "map_of kr s \<noteq> None \<longleftrightarrow> s \<in> fst ` set kr"
  by (simp add: map_of_eq_None_iff)

lemma follow_one_cases:
  obtains "follow_one S space keys l (kr, b) = (kr, b)"
  | held key where "follow_one S space keys l (kr, b) = (keep (shortCommit (k_to l)) key (k_epoch l) kr, True)"
      "map_of kr (k_from l) = Some held" "map_of kr (shortCommit (k_to l)) = None" "link_opens S space keys l held = Some key"
proof (cases "\<exists>held key. map_of kr (k_from l) = Some held \<and> map_of kr (shortCommit (k_to l)) = None \<and> link_opens S space keys l held = Some key")
  case True
  then obtain held key where h: "map_of kr (k_from l) = Some held" "map_of kr (shortCommit (k_to l)) = None" "link_opens S space keys l held = Some key"
    by blast
  then show thesis by (intro that(2) [of key held]) (simp_all add: follow_one_def)
next
  case False
  then have "follow_one S space keys l (kr, b) = (kr, b)" by (cases "map_of kr (k_from l)") (auto simp: follow_one_def split: option.split)
  then show thesis by (rule that(1))
qed

lemma follow_fold_missing:
  assumes "set ls \<subseteq> set links" "fold (follow_one S space keys) ls (kr, b) = (kr', True)"
  shows "missing_keys links kr' \<subseteq> missing_keys links kr \<and> (b \<or> missing_keys links kr' \<noteq> missing_keys links kr)"
  using assms
proof (induction ls arbitrary: kr b)
  case (Cons l ls)
  show ?case
  proof (cases rule: follow_one_cases [of S space keys l kr b])
    case 1
    with Cons.IH [of kr b] Cons.prems show ?thesis by simp
  next
    case (2 held key)
    let ?k = "keep (shortCommit (k_to l)) key (k_epoch l) kr"
    have "shortCommit (k_to l) \<in> missing_keys links kr" "shortCommit (k_to l) \<notin> missing_keys links ?k"
      using Cons.prems(1) 2(3) by (auto simp: missing_keys_def map_of_eq_None_iff simp del: fst_conv)
    moreover have "missing_keys links ?k \<subseteq> missing_keys links kr" by (auto simp: missing_keys_def)
    moreover have "missing_keys links kr' \<subseteq> missing_keys links ?k" using Cons.IH [of ?k True] Cons.prems 2(1) by simp
    ultimately show ?thesis by blast
  qed
qed auto

lemma round_shrinks:
  assumes "follow_round S space keys links kr = (kr', True)"
  shows "card (missing_keys links kr') < card (missing_keys links kr)"
proof -
  from assms have "fold (follow_one S space keys) links (kr, False) = (kr', True)" by (simp add: follow_round_def)
  with follow_fold_missing [OF subset_refl, of S space keys links kr False kr'] have "missing_keys links kr' \<subset> missing_keys links kr" by blast
  then show ?thesis by (simp add: psubset_card_mono)
qed

text \<open>Opens the older keys the held ones unlock, until none is left; and whether one was learnt.\<close>

function followLinks :: "sodium \<Rightarrow> bytes \<Rightarrow> epochs option \<Rightarrow> key_link list \<Rightarrow> ring \<Rightarrow> ring \<times> bool" where
  "followLinks S space keys links kr =
     (case follow_round S space keys links kr of (kr', again) \<Rightarrow>
        if again then (fst (followLinks S space keys links kr'), True) else (kr', False))"
  by pat_completeness auto
termination
  by (relation "measure (\<lambda>(S, space, keys, links, kr). card (missing_keys links kr))") (auto dest: round_shrinks [OF sym])

declare followLinks.simps [simp del]

text \<open>The keys of grants, then of links (not in a space whose history is hidden).\<close>

definition refreshKeys :: "ienv \<Rightarrow> sodium \<Rightarrow> bytes \<times> bytes \<Rightarrow> bytes \<Rightarrow> row list \<Rightarrow> ring \<Rightarrow> ring \<times> bool" where
  "refreshKeys N S pair device rows kr =
     (let keys = s_epochs (own (n_state N))
      in if keys = None then (kr, False)
         else (case fold (learn_grant N S pair keys) (rows_by_ix ''hg/grant'' (grantIx (n_Z N) device) rows) (kr, False) of (kr1, learnt) \<Rightarrow>
             if q_history (n_state N) = ''hidden'' then (kr1, learnt)
             else (case followLinks S (n_space N) keys (key_links N rows) kr1 of (kr2, again) \<Rightarrow> (kr2, learnt \<or> again))))"

section \<open>What links unlock\<close>

text \<open>What can be unlocked at all, in any order: a key held, or one sealed with an unlocked key by a link that opens.\<close>

inductive unlocked :: "sodium \<Rightarrow> bytes \<Rightarrow> epochs option \<Rightarrow> key_link list \<Rightarrow> ring \<Rightarrow> string \<Rightarrow> bytes \<Rightarrow> nat \<Rightarrow> bool"
  for S :: sodium and space :: bytes and keys :: "epochs option" and links :: "key_link list" and kr :: ring where
  unlocked_held: "map_of kr s = Some (key, epoch) \<Longrightarrow> unlocked S space keys links kr s key epoch"
| unlocked_link: "unlocked S space keys links kr (k_from l) by epoch \<Longrightarrow> l \<in> set links \<Longrightarrow> link_opens S space keys l (by, epoch) = Some key
    \<Longrightarrow> unlocked S space keys links kr (shortCommit (k_to l)) key (k_epoch l)"

definition sound_ring :: "sodium \<Rightarrow> bytes \<Rightarrow> epochs option \<Rightarrow> key_link list \<Rightarrow> ring \<Rightarrow> ring \<Rightarrow> bool" where
  "sound_ring S space keys links kr kr' \<longleftrightarrow> map_of kr \<subseteq>\<^sub>m map_of kr' \<and>
     (\<forall>s key e. map_of kr' s = Some (key, e) \<longrightarrow> unlocked S space keys links kr s key e)"

lemma sound_ring_one:
  assumes "sound_ring S space keys links kr kr1" "l \<in> set links"
  shows "sound_ring S space keys links kr (fst (follow_one S space keys l (kr1, b)))"
proof (cases rule: follow_one_cases [of S space keys l kr1 b])
  case 1
  with assms show ?thesis by simp
next
  case (2 held key)
  obtain bk e where held: "held = (bk, e)" by force
  have "unlocked S space keys links kr (shortCommit (k_to l)) key (k_epoch l)"
    using assms 2(2,4) unfolding held sound_ring_def by (blast intro: unlocked_link)
  with assms(1) 2(1,3) show ?thesis
    by (auto simp: sound_ring_def map_le_def dom_def split: if_splits)
qed

lemma sound_ring_fold:
  assumes "sound_ring S space keys links kr kr1" "set ls \<subseteq> set links"
  shows "sound_ring S space keys links kr (fst (fold (follow_one S space keys) ls (kr1, b)))"
  using assms
proof (induction ls arbitrary: kr1 b)
  case (Cons l ls)
  from sound_ring_one [OF Cons.prems(1), of l b] Cons.prems(2)
  have "sound_ring S space keys links kr (fst (follow_one S space keys l (kr1, b)))" by simp
  from Cons.IH [OF this, of "snd (follow_one S space keys l (kr1, b))"] Cons.prems(2) show ?case by simp
qed simp

text \<open>A round that learns nothing leaves the ring as it was, and no link that opens to a key not held.\<close>

lemma fold_flag_kept: "snd (fold (follow_one S space keys) ls (kr, True))"
proof (induction ls arbitrary: kr)
  case (Cons l ls)
  show ?case by (cases rule: follow_one_cases [of S space keys l kr True]) (simp_all add: Cons.IH)
qed simp

lemma quiet_round:
  assumes "fold (follow_one S space keys) ls (kr, False) = (kr', False)"
  shows "kr' = kr \<and> (\<forall>l\<in>set ls. \<forall>held. map_of kr (k_from l) = Some held \<longrightarrow> map_of kr (shortCommit (k_to l)) = None \<longrightarrow>
    link_opens S space keys l held = None)"
  using assms
proof (induction ls)
  case (Cons l ls)
  show ?case
  proof (cases rule: follow_one_cases [of S space keys l kr False])
    case 1
    then have "\<forall>held. map_of kr (k_from l) = Some held \<longrightarrow> map_of kr (shortCommit (k_to l)) = None \<longrightarrow> link_opens S space keys l held = None"
      by (auto simp: follow_one_def split: option.splits)
    with Cons 1 show ?thesis by simp
  next
    case (2 held key)
    from fold_flag_kept [of S space keys ls "keep (shortCommit (k_to l)) key (k_epoch l) kr"] Cons.prems 2(1) show ?thesis by simp
  qed
qed simp

lemma followLinks_ends:
  assumes "sound_ring S space keys links kr kr1" "followLinks S space keys links kr1 = (kr', learnt)"
  shows "sound_ring S space keys links kr kr' \<and> follow_round S space keys links kr' = (kr', False)"
  using assms
proof (induction S space keys links kr1 arbitrary: kr' learnt rule: followLinks.induct)
  case (1 S space keys links kr1)
  obtain kr2 again where r: "follow_round S space keys links kr1 = (kr2, again)" by force
  have sound: "sound_ring S space keys links kr kr2"
    using sound_ring_fold [OF "1.prems"(1) subset_refl, of False] r by (simp add: follow_round_def)
  show ?case
  proof (cases again)
    case True
    with r "1.prems"(2) have "followLinks S space keys links kr2 = (kr', snd (followLinks S space keys links kr2))"
      by (cases "followLinks S space keys links kr2") (simp add: followLinks.simps [of S space keys links kr1])
    from "1.IH" [OF r [symmetric] True sound this] show ?thesis .
  next
    case False
    with r "1.prems"(2) have "kr' = kr2" by (simp add: followLinks.simps [of S space keys links kr1])
    moreover from False r quiet_round [of S space keys links kr1 kr2] have "kr2 = kr1" by (simp add: follow_round_def)
    ultimately show ?thesis using r False sound by simp
  qed
qed

lemma followLinks_flag:
  assumes "followLinks S space keys links kr = (kr', learnt)"
  shows "learnt \<longleftrightarrow> kr' \<noteq> kr"
proof -
  obtain kr2 again where r: "follow_round S space keys links kr = (kr2, again)" by force
  have keep_all: "sound_ring S space keys links kr2 kr'" if again
  proof -
    have "sound_ring S space keys links kr2 kr2" by (simp add: sound_ring_def unlocked_held)
    moreover have "followLinks S space keys links kr2 = (kr', snd (followLinks S space keys links kr2))"
      using that r assms by (cases "followLinks S space keys links kr2") (simp add: followLinks.simps [of S space keys links kr])
    ultimately show ?thesis using followLinks_ends by blast
  qed
  show ?thesis
  proof (cases again)
    case True
    with round_shrinks [of S space keys links kr kr2] r have "card (missing_keys links kr2) < card (missing_keys links kr)" by simp
    then obtain s where "s \<notin> fst ` set kr" "s \<in> fst ` set kr2"
      using psubset_card_mono [of "missing_keys links kr2" "missing_keys links kr"] card_mono [of "missing_keys links kr2" "missing_keys links kr"]
      by (auto simp: missing_keys_def)
    then have "map_of kr s = None" "map_of kr2 s \<noteq> None" using held_short by metis+
    then have "kr' \<noteq> kr" using keep_all [OF True] by (auto simp: sound_ring_def map_le_def dom_def)
    with True r assms show ?thesis by (simp add: followLinks.simps [of S space keys links kr] split: prod.splits)
  next
    case False
    with r quiet_round [of S space keys links kr kr2] have "kr2 = kr" by (simp add: follow_round_def)
    with False r assms show ?thesis by (simp add: followLinks.simps [of S space keys links kr])
  qed
qed

text \<open>When the order does not matter: no two unlocked keys share a short commitment. Then the keys held at the end are the unlocked ones.\<close>

lemma unlocked_all_held:
  assumes sound: "sound_ring S space keys links kr kr'" and quiet: "follow_round S space keys links kr' = (kr', False)"
    and single: "\<And>s k e k' e'. unlocked S space keys links kr s k e \<Longrightarrow> unlocked S space keys links kr s k' e' \<Longrightarrow> (k, e) = (k', e')"
    and u: "unlocked S space keys links kr s k e"
  shows "map_of kr' s = Some (k, e)"
  using u
proof induction
  case (unlocked_held s key epoch)
  with sound show ?case by (auto simp: sound_ring_def map_le_def dom_def)
next
  case (unlocked_link l bk epoch key)
  from quiet_round [of S space keys links kr' kr'] quiet unlocked_link
  have "map_of kr' (shortCommit (k_to l)) \<noteq> None" by (auto simp: follow_round_def)
  then obtain k2 e2 where h: "map_of kr' (shortCommit (k_to l)) = Some (k2, e2)" by force
  then have "unlocked S space keys links kr (shortCommit (k_to l)) k2 e2" using sound by (simp add: sound_ring_def)
  from single [OF this unlocked.unlocked_link [OF unlocked_link.hyps(1) unlocked_link.hyps(2,3)]] h show ?case by simp
qed

lemma unlocked_recorded:
  assumes "unlocked S space keys links kr s k e"
  shows "map_of kr s = Some (k, e) \<or> (s = shortCommit (commitOf S k) \<and> known keys e (hex (commitOf S k)))"
  using assms
proof cases
  case (unlocked_link l bk epoch)
  then show ?thesis by (auto simp: link_opens_def split: if_splits option.splits)
qed simp

text \<open>C38: Following the key links ends, with the keys held before and with every key they unlock, in whatever order
  the links come, as long as no two of them share a short commitment; it learns no other key, each learnt one has a
  commitment the decision log recorded for its epoch, and it tells whether it learnt one.\<close>

theorem follow_links_closure:
  assumes "followLinks S space keys links kr = (kr', learnt)"
  shows "(learnt \<longleftrightarrow> kr' \<noteq> kr) \<and> map_of kr \<subseteq>\<^sub>m map_of kr' \<and>
    (\<forall>s k e. map_of kr' s = Some (k, e) \<longrightarrow> unlocked S space keys links kr s k e \<and>
       (map_of kr s = Some (k, e) \<or> (s = shortCommit (commitOf S k) \<and> known keys e (hex (commitOf S k))))) \<and>
    ((\<forall>s k e k' e'. unlocked S space keys links kr s k e \<longrightarrow> unlocked S space keys links kr s k' e' \<longrightarrow> (k, e) = (k', e')) \<longrightarrow>
       (\<forall>s k e. unlocked S space keys links kr s k e \<longrightarrow> map_of kr' s = Some (k, e)))"
proof -
  have "sound_ring S space keys links kr kr" by (simp add: sound_ring_def unlocked_held)
  from followLinks_ends [OF this assms] have s: "sound_ring S space keys links kr kr'" and q: "follow_round S space keys links kr' = (kr', False)"
    by simp_all
  have u: "unlocked S space keys links kr s k e" if "map_of kr' s = Some (k, e)" for s k e using s that by (simp add: sound_ring_def)
  show ?thesis
  proof (intro conjI allI impI)
    show "learnt \<longleftrightarrow> kr' \<noteq> kr" by (rule followLinks_flag [OF assms])
    show "map_of kr \<subseteq>\<^sub>m map_of kr'" using s by (simp add: sound_ring_def)
  next
    fix s k e assume "map_of kr' s = Some (k, e)"
    from u [OF this] show "unlocked S space keys links kr s k e"
      "map_of kr s = Some (k, e) \<or> (s = shortCommit (commitOf S k) \<and> known keys e (hex (commitOf S k)))"
      by (simp, rule unlocked_recorded)
  next
    fix s k e
    assume single: "\<forall>s k e k' e'. unlocked S space keys links kr s k e \<longrightarrow> unlocked S space keys links kr s k' e' \<longrightarrow> (k, e) = (k', e')"
      and "unlocked S space keys links kr s k e"
    from unlocked_all_held [OF s q _ this(2)] single show "map_of kr' s = Some (k, e)" by blast
  qed
qed

text \<open>Three keys and two links, listed so that one round is not enough. A toy sodium: a box is the message behind
  the start of its key.\<close>

definition toy_sodium :: sodium where
  "toy_sodium = \<lparr>sd_hash = rev, sd_pk_box = Some, sd_sk_box = id, sd_seal = (\<lambda>r m k. replicate 16 0 @ take 32 k @ m),
     sd_seal_open = (\<lambda>b pair. if take 32 (drop 16 b) = take 32 (fst pair) then Some (drop 48 b) else None),
     sd_encrypt = (\<lambda>m ad n k. take 16 k @ m), sd_decrypt = (\<lambda>b ad n k. if take 16 b = take 16 k then Some (drop 16 b) else None),
     sd_fixed = (\<lambda>n. \<lparr>c_size = (\<lambda>b. n), c_put = id, c_get = (\<lambda>bs. if length bs < n then None else Some (take n bs, drop n bs))\<rparr>)\<rparr>"

definition toy_key :: "nat \<Rightarrow> bytes" where "toy_key n = replicate 32 (of_nat n)"
definition toy_commit :: "nat \<Rightarrow> bytes" where "toy_commit n = commitOf toy_sodium (toy_key n)"
definition toy_space :: bytes where "toy_space = []"

definition toy_link :: "nat \<Rightarrow> key_link" where
  "toy_link n = \<lparr>k_from = shortCommit (toy_commit (Suc n)), k_to = toy_commit n, k_epoch = n,
     k_sealed = JBuf (sealKey toy_sodium (replicate 24 9) (toy_key (Suc n)) (toy_key n) (linkAD toy_sodium toy_space (toy_commit n)))\<rparr>"

definition toy_epochs :: epochs where
  "toy_epochs = \<lparr>ep_current = 2, ep_commits = [0 \<mapsto> hex (toy_commit 0), 1 \<mapsto> hex (toy_commit 1), 2 \<mapsto> hex (toy_commit 2)], ep_others = Map.empty\<rparr>"

definition toy_ring :: ring where "toy_ring = [(shortCommit (toy_commit 2), toy_key 2, 2)]"
definition toy_all :: ring where
  "toy_all = [(shortCommit (toy_commit 0), toy_key 0, 0), (shortCommit (toy_commit 1), toy_key 1, 1), (shortCommit (toy_commit 2), toy_key 2, 2)]"

lemma toy_follows: "followLinks toy_sodium toy_space (Some toy_epochs) [toy_link 0, toy_link 1] toy_ring = (toy_all, True)"
  by code_simp

lemma toy_opens: "link_opens toy_sodium toy_space (Some toy_epochs) (toy_link 0) (toy_key 1, 1) = Some (toy_key 0)"
    "link_opens toy_sodium toy_space (Some toy_epochs) (toy_link 1) (toy_key 2, 2) = Some (toy_key 1)"
    "map_of toy_all (k_from (toy_link 0)) = Some (toy_key 1, 1)" "map_of toy_all (k_from (toy_link 1)) = Some (toy_key 2, 2)"
    "map_of toy_all (shortCommit (k_to (toy_link 0))) = Some (toy_key 0, 0)" "map_of toy_all (shortCommit (k_to (toy_link 1))) = Some (toy_key 1, 1)"
    "map_of toy_all (shortCommit (toy_commit 2)) = Some (toy_key 2, 2)" "k_epoch (toy_link 0) = 0" "k_epoch (toy_link 1) = 1"
  by code_simp+

lemma toy_links: "k_from (toy_link 0) = shortCommit (toy_commit 1)" "k_from (toy_link 1) = shortCommit (toy_commit 2)"
    "k_to (toy_link 0) = toy_commit 0" "k_to (toy_link 1) = toy_commit 1"
  by (simp_all add: toy_link_def numeral_2_eq_2)

lemma toy_unlocked:
  "unlocked toy_sodium toy_space (Some toy_epochs) [toy_link 0, toy_link 1] toy_ring s k e \<Longrightarrow> map_of toy_all s = Some (k, e)"
proof (induction rule: unlocked.induct)
  case (unlocked_held s key epoch)
  then show ?case by (auto simp: toy_ring_def toy_opens split: if_splits)
next
  case (unlocked_link l bk epoch key)
  then have "l = toy_link 0 \<or> l = toy_link 1" by simp
  then show ?case
  proof
    assume l: "l = toy_link 0"
    have "bk = toy_key 1 \<and> epoch = 1" using unlocked_link.IH unfolding l toy_opens by blast
    then show ?case using unlocked_link.hyps(3) toy_opens(1) unfolding l toy_opens(5,8) by simp
  next
    assume l: "l = toy_link 1"
    have "bk = toy_key 2 \<and> epoch = 2" using unlocked_link.IH unfolding l toy_opens by blast
    then show ?case using unlocked_link.hyps(3) toy_opens(2) unfolding l toy_opens(6,9) by simp
  qed
qed

lemma follow_links_closure_witness:
  "map_of (fst (followLinks toy_sodium toy_space (Some toy_epochs) [toy_link 0, toy_link 1] toy_ring)) (shortCommit (toy_commit 0)) = Some (toy_key 0, 0)"
proof -
  let ?u = "unlocked toy_sodium toy_space (Some toy_epochs) [toy_link 0, toy_link 1] toy_ring"
  note C = follow_links_closure [OF toy_follows]
  have "?u (shortCommit (toy_commit 2)) (toy_key 2) 2" by (rule unlocked_held) (simp add: toy_ring_def)
  then have "?u (shortCommit (k_to (toy_link 1))) (toy_key 1) (k_epoch (toy_link 1))"
    by (intro unlocked_link [OF _ _ toy_opens(2)]) (simp_all only: toy_links, simp)
  then have "?u (shortCommit (k_to (toy_link 0))) (toy_key 0) (k_epoch (toy_link 0))"
    by (intro unlocked_link [OF _ _ toy_opens(1)]) (simp_all only: toy_links toy_opens, simp)
  then have "?u (shortCommit (toy_commit 0)) (toy_key 0) 0" by (simp only: toy_links toy_opens)
  moreover have "\<forall>s k e k' e'. ?u s k e \<longrightarrow> ?u s k' e' \<longrightarrow> (k, e) = (k', e')"
  proof (intro allI impI)
    fix s k e k' e' assume "?u s k e" "?u s k' e'"
    from toy_unlocked [OF this(1)] toy_unlocked [OF this(2)] show "(k, e) = (k', e')" by simp
  qed
  ultimately have "map_of toy_all (shortCommit (toy_commit 0)) = Some (toy_key 0, 0)" using C by blast
  then show ?thesis unfolding toy_follows by simp
qed

end
