(* ===== verification/Key_Changes.thy ===== *)
theory Key_Changes
  imports Private_Keys "HOL-Library.AList"
begin

text \<open>
  Who is given the current key of a private space, when the key must change, and the links that let later keys
  open earlier ones (lib/space.js). Each definition is what the code does with one state of the space; where it
  waits in between, the code looks again. The entries of the objects \<open>keys.commits\<close> and \<open>keys.others\<close>, which are
  maps in the model, are arguments where the code goes through them.
\<close>

section \<open>Who may read, who holds the key\<close>

type_synonym person = "bytes \<times> bytes" \<comment> \<open>an identity and a device\<close>

definition mayRead :: "space_state \<Rightarrow> person set \<Rightarrow> person \<Rightarrow> bool" where
  "mayRead st removals who \<longleftrightarrow> isMember st (hex (fst who)) \<and> who \<notin> removals"

definition granted :: "ienv \<Rightarrow> (string \<times> string) list \<Rightarrow> row list \<Rightarrow> jsval list" where
  "granted N granting rows =
     (let keys = s_epochs (own (n_state N));
          valid = map (\<lambda>w. decode_record (n_ce N) (n_Z N) (n_types N) ''hg/grant'' (w_fields w) (w_links w)) (rows_of_type ''hg/grant'' rows)
      in map (\<lambda>v. prop_of v ''to'') (filter (\<lambda>v. current_grant v keys) (map the (filter (\<lambda>v. v \<noteq> None) valid))) @
         map (\<lambda>g. JStr (fst g)) (filter (\<lambda>g. current_commit keys = Some (snd g)) granting))"

text \<open>This device once a member, then those of the logs, under their z32 text.\<close>

definition entitled :: "ienv \<Rightarrow> person set \<Rightarrow> person \<Rightarrow> dlog list \<Rightarrow> (string \<times> person) list" where
  "entitled N removals me logs =
     fold (\<lambda>l es. if g_device l = g_identity l \<or> \<not> mayRead (n_state N) removals (g_identity l, g_device l) then es
                  else AList.update (z_encode (n_Z N) (g_device l)) (g_identity l, g_device l) es) logs
       (if isMember (n_state N) (hex (fst me)) then [(z_encode (n_Z N) (snd me), me)] else [])"

definition entitles :: "(string \<times> person) list \<Rightarrow> jsval \<Rightarrow> bool" where
  "entitles es v \<longleftrightarrow> (case v of JStr z \<Rightarrow> map_of es z \<noteq> None | _ \<Rightarrow> False)"

section \<open>When the key must change\<close>

datatype urgency = Now | Soon

definition change_due :: "space_state \<Rightarrow> ring \<Rightarrow> (string \<times> nat) list \<Rightarrow> epochs \<Rightarrow> jsval list \<Rightarrow> (string \<times> person) list \<Rightarrow> urgency option" where
  "change_due st kr others keys gs es =
     (if list_ex (\<lambda>d. \<not> entitles es d) gs then Some Now
      else if q_history st = ''hidden'' \<and> list_ex (\<lambda>e. JStr (fst e) \<notin> set gs) es then Some Soon
      else if list_ex (\<lambda>(commit, epoch). int epoch = ep_current keys \<and> map_of kr (take 16 commit) \<noteq> None) others then Some Soon
      else None)"

definition decider :: "space_state \<Rightarrow> bytes \<Rightarrow> bool \<Rightarrow> bool" where
  "decider st me writable \<longleftrightarrow> (q_can st (hex me) ''decide'' \<or> q_can st (hex me) ''moderate'') \<and> writable"

datatype sealing = Seal_with bytes nat | Refuse_write | Change_key | Wait_for_key

text \<open>One look of \<open>#sealer\<close>, for a record that is sealed; \<open>late\<close>: the space is closed or the bound has passed.\<close>

definition sealer :: "space_state \<Rightarrow> ring \<Rightarrow> (epochs \<Rightarrow> urgency option) \<Rightarrow> bool \<Rightarrow> bool \<Rightarrow> sealing" where
  "sealer st kr change decides late =
     (let keys = s_epochs (own st);
          cur = current_key keys kr;
          due = (case (cur, keys) of (Some key, Some k) \<Rightarrow> change k | _ \<Rightarrow> Some Now)
      in if cur \<noteq> None \<and> (due = None \<or> due = Some Soon \<and> \<not> decides)
         then (case (cur, keys) of (Some key, Some k) \<Rightarrow> Seal_with key (nat (ep_current k)) | _ \<Rightarrow> Refuse_write)
         else if late then Refuse_write
         else if cur \<noteq> None \<and> decides then Change_key
         else Wait_for_key)"

section \<open>A new key, and grants of the current one\<close>

definition rotation_epoch :: "epochs option \<Rightarrow> nat" where
  "rotation_epoch keys = (case keys of None \<Rightarrow> 0 | Some k \<Rightarrow> nat (ep_current k + 1))"

definition rotation :: "sodium \<Rightarrow> epochs option \<Rightarrow> bytes \<Rightarrow> jsval" where
  "rotation S keys key = JObj [(''type'', JStr ''key/rotate''), (''epoch'', JNum (int (rotation_epoch keys))), (''commit'', JBuf (commitOf S key))]"

text \<open>\<open>now\<close>: the epochs once the decision is read back; the key is kept unless another rotation came first.\<close>

definition rotated :: "sodium \<Rightarrow> epochs option \<Rightarrow> epochs option \<Rightarrow> bytes \<Rightarrow> ring \<Rightarrow> ring \<times> bool" where
  "rotated S keys now key kr = (case now of
       None \<Rightarrow> (kr, False)
     | Some k \<Rightarrow> if ep_commits k (rotation_epoch keys) \<noteq> Some (hex (commitOf S key)) then (kr, False)
                 else (keep (shortCommit (commitOf S key)) key (rotation_epoch keys) kr, True))"

definition grant_values :: "sodium \<Rightarrow> z32 \<Rightarrow> bytes \<Rightarrow> space_state \<Rightarrow> person set \<Rightarrow> ring \<Rightarrow> person \<Rightarrow> jsval option" where
  "grant_values S Z random st removals kr who =
     (if \<not> mayRead st removals who then None
      else (case (s_epochs (own st), current_key (s_epochs (own st)) kr, current_commit (s_epochs (own st))) of
          (Some k, Some key, Some commit) \<Rightarrow> makeGrant S Z random key (nat (ep_current k)) (unhex commit) (snd who)
        | _ \<Rightarrow> None))"

definition noted_grant :: "epochs option \<Rightarrow> jsval \<Rightarrow> (string \<times> string) list \<Rightarrow> (string \<times> string) list" where
  "noted_grant keys values granting = (case (prop_of values ''to'', current_commit keys) of
       (JStr z, Some commit) \<Rightarrow> List.insert (z, commit) granting
     | _ \<Rightarrow> granting)"

section \<open>Links to earlier keys\<close>

definition reach_one :: "key_link \<Rightarrow> string set \<times> bool \<Rightarrow> string set \<times> bool" where
  "reach_one l rb = (if k_from l \<in> fst rb \<and> shortCommit (k_to l) \<notin> fst rb then (insert (shortCommit (k_to l)) (fst rb), True) else rb)"

lemma reach_one_facts:
  "fst rb \<subseteq> fst (reach_one l rb)" "snd rb \<Longrightarrow> snd (reach_one l rb)"
  "snd (reach_one l rb) \<Longrightarrow> snd rb \<or> (shortCommit (k_to l) \<in> fst (reach_one l rb) \<and> shortCommit (k_to l) \<notin> fst rb)"
  "\<not> snd (reach_one l rb) \<Longrightarrow> reach_one l rb = rb \<and> (k_from l \<in> fst rb \<longrightarrow> shortCommit (k_to l) \<in> fst rb)"
  "fst (reach_one l rb) \<subseteq> insert (shortCommit (k_to l)) (fst rb)"
  by (auto simp: reach_one_def split: if_splits)

lemma reach_fold_facts:
  "fst rb \<subseteq> fst (fold reach_one ls rb)" "snd rb \<Longrightarrow> snd (fold reach_one ls rb)"
proof (induction ls arbitrary: rb)
  case (Cons l ls)
  { case 1 show ?case using Cons(1) [of "reach_one l rb"] reach_one_facts(1) [where rb = rb and l = l] by auto }
  { case 2 then show ?case using Cons(2) [of "reach_one l rb"] reach_one_facts(2) [where rb = rb and l = l] by auto }
qed auto

lemma reach_fold_grows:
  "snd (fold reach_one ls rb) \<Longrightarrow> snd rb \<or> (\<exists>l\<in>set ls. shortCommit (k_to l) \<in> fst (fold reach_one ls rb) - fst rb)"
proof (induction ls arbitrary: rb)
  case (Cons l ls)
  from Cons.IH [of "reach_one l rb"] Cons.prems reach_one_facts(1,3) [where rb = rb and l = l] reach_fold_facts(1) [of "reach_one l rb" ls]
  show ?case by auto
qed auto

lemma reach_shrinks:
  assumes "fold reach_one links (rs, False) = (rs', True)"
  shows "card ((\<lambda>l. shortCommit (k_to l)) ` set links - rs') < card ((\<lambda>l. shortCommit (k_to l)) ` set links - rs)"
proof (rule psubset_card_mono)
  show "(\<lambda>l. shortCommit (k_to l)) ` set links - rs' \<subset> (\<lambda>l. shortCommit (k_to l)) ` set links - rs"
    using reach_fold_grows [of links "(rs, False)"] reach_fold_facts(1) [of "(rs, False)" links] assms by auto
qed simp

function reach :: "key_link list \<Rightarrow> string set \<Rightarrow> string set" where
  "reach links rs = (case fold reach_one links (rs, False) of (rs', again) \<Rightarrow> if again then reach links rs' else rs')"
  by pat_completeness auto
termination
  by (relation "measure (\<lambda>(links, rs). card ((\<lambda>l. shortCommit (k_to l)) ` set links - rs))") (auto dest: reach_shrinks [OF sym])

declare reach.simps [simp del]

definition link_for :: "sodium \<Rightarrow> bytes \<Rightarrow> bytes \<Rightarrow> epochs \<Rightarrow> string \<Rightarrow> bytes \<Rightarrow> string set \<Rightarrow> ring \<Rightarrow> string \<Rightarrow> nat \<Rightarrow> jsval option" where
  "link_for S random space keys now bk reached kr commit epoch =
     (case map_of kr (take 16 commit) of
        None \<Rightarrow> None
      | Some (key, _) \<Rightarrow>
          if int epoch \<ge> ep_current keys \<or> take 16 commit \<in> reached then None
          else Some (JObj [(''from'', JBuf (unhex now)), (''to'', JBuf (unhex commit)), (''epoch'', JNum (int epoch)),
            (''sealed'', JBuf (sealKey S random bk key (linkAD S space (unhex commit))))]))"

text \<open>\<open>commits\<close>: every recorded commitment with its epoch.\<close>

definition links_due :: "sodium \<Rightarrow> bytes \<Rightarrow> bytes \<Rightarrow> epochs \<Rightarrow> (string \<times> nat) list \<Rightarrow> key_link list \<Rightarrow> ring \<Rightarrow> jsval list" where
  "links_due S random space keys commits links kr =
     (case current_commit (Some keys) of
        None \<Rightarrow> []
      | Some now \<Rightarrow>
          (case map_of kr (take 16 now) of
             None \<Rightarrow> []
           | Some (bk, _) \<Rightarrow>
               List.map_filter (\<lambda>(commit, epoch). link_for S random space keys now bk (reach links {take 16 now}) kr commit epoch) commits))"

section \<open>One round of key work\<close>

datatype key_work = Nothing_due | Rotate_key | Give_and_link "person list"

definition keyWork :: "space_state \<Rightarrow> ring \<Rightarrow> (string \<times> nat) list \<Rightarrow> jsval list \<Rightarrow> (string \<times> person) list \<Rightarrow> bool \<Rightarrow> key_work" where
  "keyWork st kr others gs es decides =
     (case s_epochs (own st) of
        None \<Rightarrow> Nothing_due
      | Some keys \<Rightarrow>
          if current_key (Some keys) kr = None then Nothing_due
          else let due = change_due st kr others keys gs es
               in if due \<noteq> None \<and> decides then Rotate_key
                  else if due = Some Now \<or> q_history st = ''hidden'' then Nothing_due
                  else Give_and_link (map snd (filter (\<lambda>e. JStr (fst e) \<notin> set gs) es)))"

section \<open>What this gives\<close>

text \<open>Nothing is sealed with a key that a device which may no longer read was given.\<close>

lemma seals_only_for_readers:
  assumes "sealer st kr (\<lambda>k. change_due st kr others k gs es) decides late = Seal_with key epoch"
  shows "list_all (entitles es) gs" "current_key (s_epochs (own st)) kr = Some key"
proof -
  from assms obtain k where k: "s_epochs (own st) = Some k" "current_key (Some k) kr = Some key" "change_due st kr others k gs es \<noteq> Some Now"
    by (auto simp: sealer_def Let_def split: if_splits option.splits)
  then show "list_all (entitles es) gs" by (auto simp: change_due_def list_all_iff list_ex_iff split: if_splits)
  from k show "current_key (s_epochs (own st)) kr = Some key" by simp
qed

text \<open>A record waits for a key change only by a device that may not make it, and that change is never missed: whoever
  may decide makes it first.\<close>

lemma deciders_change_first:
  "sealer st kr change True late = Seal_with key epoch \<Longrightarrow> s_epochs (own st) = Some k \<Longrightarrow> change k = None"
  by (auto simp: sealer_def Let_def split: if_splits option.splits)

lemma reach_fold_within:
  "fst rb \<subseteq> {(k_from l, shortCommit (k_to l)) | l. l \<in> set links}\<^sup>* `` rs \<Longrightarrow> set ls \<subseteq> set links \<Longrightarrow>
    fst (fold reach_one ls rb) \<subseteq> {(k_from l, shortCommit (k_to l)) | l. l \<in> set links}\<^sup>* `` rs"
proof (induction ls arbitrary: rb)
  case (Cons l ls)
  let ?R = "{(k_from l, shortCommit (k_to l)) | l. l \<in> set links}"
  have "fst (reach_one l rb) \<subseteq> ?R\<^sup>* `` rs"
  proof (cases "k_from l \<in> fst rb")
    case True
    with Cons.prems(1) obtain s where "s \<in> rs" "(s, k_from l) \<in> ?R\<^sup>*" by blast
    moreover have "(k_from l, shortCommit (k_to l)) \<in> ?R" using Cons.prems(2) by auto
    ultimately have "shortCommit (k_to l) \<in> ?R\<^sup>* `` rs" by (blast intro: rtrancl_into_rtrancl)
    with Cons.prems(1) reach_one_facts(5) [of l rb] show ?thesis by blast
  next
    case False
    then show ?thesis using Cons.prems(1) by (simp add: reach_one_def)
  qed
  with Cons.IH [of "reach_one l rb"] Cons.prems(2) show ?case by simp
qed simp

lemma reach_fold_quiet:
  "\<not> snd (fold reach_one ls rb) \<Longrightarrow> fst (fold reach_one ls rb) = fst rb \<and> (\<forall>l\<in>set ls. k_from l \<in> fst rb \<longrightarrow> shortCommit (k_to l) \<in> fst rb)"
proof (induction ls arbitrary: rb)
  case (Cons l ls)
  then have "\<not> snd (reach_one l rb)" using reach_fold_facts(2) [of "reach_one l rb" ls] by auto
  with reach_one_facts(4) [of l rb] Cons.IH [of rb] Cons.prems show ?case by auto
qed simp

lemma reach_is_closure:
  "reach links rs = {(k_from l, shortCommit (k_to l)) | l. l \<in> set links}\<^sup>* `` rs"
proof (induction links rs rule: reach.induct)
  case (1 links rs)
  let ?R = "{(k_from l, shortCommit (k_to l)) | l. l \<in> set links}"
  obtain rs' again where r: "fold reach_one links (rs, False) = (rs', again)" by force
  show ?case
  proof (cases again)
    case True
    have "rs \<subseteq> rs'" using reach_fold_facts(1) [of "(rs, False)" links] r by simp
    moreover have "rs' \<subseteq> ?R\<^sup>* `` rs" using reach_fold_within [of "(rs, False)" links rs links] r by auto
    ultimately have "?R\<^sup>* `` rs' = ?R\<^sup>* `` rs" by (blast intro: rtrancl_trans)
    with "1.IH" [OF r [symmetric] True] r True show ?thesis by (simp add: reach.simps [of links rs])
  next
    case False
    with r reach_fold_quiet [of links "(rs, False)"] have q: "rs' = rs" "\<forall>l\<in>set links. k_from l \<in> rs \<longrightarrow> shortCommit (k_to l) \<in> rs" by simp_all
    have "?R `` rs \<subseteq> rs" using q(2) by auto
    then have "?R\<^sup>* `` rs = rs" by (rule Image_closed_trancl)
    with r False q(1) show ?thesis by (simp add: reach.simps [of links rs])
  qed
qed

text \<open>A link made for an earlier key opens to it, with the key it was sealed with.\<close>

lemma openKey_sealKey:
  assumes "sodium_ok S" "length random = NONCE_BYTES" "length key = KEY_BYTES"
  shows "openKey S bk (JBuf (sealKey S random bk key ad)) ad = Some key"
  using assms by (simp add: openKey_def sealKey_def sodium_ok_def)

lemma made_link_opens:
  assumes "sodium_ok S" "length random = NONCE_BYTES" "length key = KEY_BYTES" "k_to l = commitOf S key"
    and "k_sealed l = JBuf (sealKey S random bk key (linkAD S space (k_to l)))" "k_epoch l < epoch" "known keys (k_epoch l) (hex (k_to l))"
  shows "link_opens S space keys l (bk, epoch) = Some key"
  using assms openKey_sealKey [OF assms(1-3)] by (simp add: link_opens_def)

text \<open>Links are due for earlier keys held that the current one does not unlock, and for no other.\<close>

lemma links_due_targets:
  assumes "v \<in> set (links_due S random space keys commits links kr)"
  obtains commit epoch key e now where "(commit, epoch) \<in> set commits" "map_of kr (take 16 commit) = Some (key, e)"
    "int epoch < ep_current keys" "current_commit (Some keys) = Some now"
    "(take 16 now, take 16 commit) \<notin> {(k_from l, shortCommit (k_to l)) | l. l \<in> set links}\<^sup>*"
    "prop_of v ''to'' = JBuf (unhex commit)"
proof -
  from assms obtain now where now: "current_commit (Some keys) = Some now"
    by (cases "current_commit (Some keys)") (simp_all add: links_due_def)
  with assms obtain held where held: "map_of kr (take 16 now) = Some held"
    by (cases "map_of kr (take 16 now)") (simp_all add: links_due_def)
  from assms now held obtain commit epoch where c: "(commit, epoch) \<in> set commits"
      "link_for S random space keys now (fst held) (reach links {take 16 now}) kr commit epoch = Some v"
    by (cases held) (force simp: links_due_def List.map_filter_def)
  then obtain k where k: "map_of kr (take 16 commit) = Some k" by (cases "map_of kr (take 16 commit)") (simp_all add: link_for_def)
  with c(2) have "int epoch < ep_current keys" "take 16 commit \<notin> reach links {take 16 now}" "prop_of v ''to'' = JBuf (unhex commit)"
    by (auto simp: link_for_def split: prod.splits if_splits)
  then show thesis using that [of commit epoch "fst k" "snd k" now] now c(1) k by (simp add: reach_is_closure)
qed

end
