(* ===== verification/Doubles.thy ===== *)
theory Doubles
  imports Complex_Main "HOL-Library.Log_Nat"
begin

text \<open>
  JavaScript's numbers: doubles, as the rational numbers they stand for, with the rounding every arithmetic operation
  applies to its exact result: to 53 significant bits, to the nearest, ties to the even one. What the code computes
  with them here lies far inside their range, so that neither infinities nor the numbers below the normal ones occur.
\<close>

section \<open>Rounding\<close>

definition half_even :: "rat \<Rightarrow> int" where
  "half_even m = (let f = \<lfloor>m\<rfloor>; r = m - of_int f in if r < 1 / 2 \<or> (r = 1 / 2 \<and> even f) then f else f + 1)"

text \<open>The exponent of the leading bit of a number other than 0.\<close>

definition leading :: "rat \<Rightarrow> int" where
  "leading x = (case quotient_of \<bar>x\<bar> of (p, q) \<Rightarrow>
     let k = bitlen p - bitlen q in if 2 powi k \<le> \<bar>x\<bar> then k else k - 1)"

definition dbl :: "rat \<Rightarrow> rat" where
  "dbl x = (if x = 0 then 0 else let u = 2 powi (leading x - 52) in of_int (half_even (x / u)) * u)"

section \<open>How far rounding is from the exact result\<close>

lemma half_even_near: "\<bar>of_int (half_even m) - m\<bar> \<le> 1 / 2"
proof -
  have f: "of_int \<lfloor>m\<rfloor> \<le> m" "m < of_int \<lfloor>m\<rfloor> + 1" by linarith+
  show ?thesis
  proof (cases "m - of_int \<lfloor>m\<rfloor> < 1 / 2 \<or> (m - of_int \<lfloor>m\<rfloor> = 1 / 2 \<and> even \<lfloor>m\<rfloor>)")
    case True
    then have "half_even m = \<lfloor>m\<rfloor>" "m - of_int \<lfloor>m\<rfloor> \<le> 1 / 2" by (auto simp: half_even_def Let_def)
    with f show ?thesis by simp
  next
    case False
    then have e: "half_even m = \<lfloor>m\<rfloor> + 1" and "m - of_int \<lfloor>m\<rfloor> \<ge> 1 / 2" by (auto simp: half_even_def Let_def)
    with f show ?thesis by (simp add: e)
  qed
qed

lemma half_even_of_int [simp]: "half_even (of_int n) = n"
  by (simp add: half_even_def)

lemma bitlen_powi:
  assumes "n > 0"
  shows "2 powi (bitlen n - 1) \<le> (of_int n :: rat)" "(of_int n :: rat) < 2 powi bitlen n"
proof -
  have b: "bitlen n \<ge> 1" using assms bitlen_eq_zero_iff [of n] bitlen_nonneg [of n] by linarith
  have p: "(2 :: rat) powi i = of_int (2 ^ nat i)" if "i \<ge> 0" for i using that by (simp add: power_int_def)
  from bitlen_bounds [OF assms] b
  show "2 powi (bitlen n - 1) \<le> (of_int n :: rat)" "(of_int n :: rat) < 2 powi bitlen n"
    by (simp_all add: p del: of_int_power)
qed

lemma leading_bounds:
  assumes "x \<noteq> 0"
  shows "2 powi leading x \<le> \<bar>x\<bar>" "\<bar>x\<bar> < 2 powi (leading x + 1)"
proof -
  obtain p q where pq: "quotient_of \<bar>x\<bar> = (p, q)" by fastforce
  have q: "q > 0" using quotient_of_denom_pos [OF pq] .
  have x: "\<bar>x\<bar> = of_int p / of_int q" using quotient_of_div [OF pq] .
  have p: "p > 0"
  proof (rule ccontr)
    assume "\<not> p > 0"
    then have "of_int p / of_int q \<le> (0 :: rat)" using q by (simp add: divide_nonpos_pos)
    with x assms show False by simp
  qed
  let ?k = "bitlen p - bitlen q"
  have two: "(2 :: rat) powi (i + j) = 2 powi i * 2 powi j" for i j by (simp add: power_int_add)
  have pos: "(2 :: rat) powi i > 0" for i by (simp add: zero_less_power_int)
  have "\<bar>x\<bar> < 2 powi (?k + 1)"
  proof -
    have "2 powi (?k + 1) * 2 powi (bitlen q - 1) = (2 :: rat) powi bitlen p" by (simp add: two [symmetric])
    moreover have "of_int p < (2 :: rat) powi bitlen p" using bitlen_powi [OF p] by simp
    moreover have "2 powi (?k + 1) * 2 powi (bitlen q - 1) \<le> (2 :: rat) powi (?k + 1) * of_int q"
      using bitlen_powi [OF q] pos by (simp add: mult_left_mono less_imp_le)
    ultimately have "of_int p < 2 powi (?k + 1) * (of_int q :: rat)" by linarith
    then show ?thesis using q by (simp add: x divide_less_eq)
  qed
  moreover have "2 powi (?k - 1) \<le> \<bar>x\<bar>"
  proof -
    have "2 powi (?k - 1) * 2 powi bitlen q = (2 :: rat) powi (bitlen p - 1)" by (simp add: two [symmetric])
    moreover have "(2 :: rat) powi (bitlen p - 1) \<le> of_int p" using bitlen_powi [OF p] by simp
    moreover have "2 powi (?k - 1) * of_int q \<le> 2 powi (?k - 1) * (2 :: rat) powi bitlen q"
      using bitlen_powi [OF q] pos by (simp add: mult_left_mono less_imp_le)
    ultimately have "2 powi (?k - 1) * of_int q \<le> (of_int p :: rat)" by linarith
    then show ?thesis using q by (simp add: x le_divide_eq)
  qed
  ultimately show "2 powi leading x \<le> \<bar>x\<bar>" "\<bar>x\<bar> < 2 powi (leading x + 1)"
    by (auto simp: leading_def pq Let_def)
qed

lemma dbl_error: "\<bar>dbl x - x\<bar> \<le> \<bar>x\<bar> / 2 ^ 53"
proof (cases "x = 0")
  case False
  let ?u = "2 powi (leading x - 52) :: rat"
  have u: "?u > 0" by (simp add: zero_less_power_int)
  have "dbl x - x = (of_int (half_even (x / ?u)) - x / ?u) * ?u" using u False by (simp add: dbl_def Let_def left_diff_distrib)
  then have "\<bar>dbl x - x\<bar> = \<bar>of_int (half_even (x / ?u)) - x / ?u\<bar> * ?u" using u by (simp add: abs_mult)
  also have "\<dots> \<le> 1 / 2 * ?u" using half_even_near u by (intro mult_right_mono) auto
  also have "\<dots> = 2 powi leading x / 2 ^ 53" by (simp add: power_int_diff)
  also have "\<dots> \<le> \<bar>x\<bar> / 2 ^ 53" using leading_bounds(1) [OF False] by (simp add: divide_right_mono)
  finally show ?thesis .
qed (simp add: dbl_def)

lemma dbl_0 [simp]: "dbl 0 = 0"
  by (simp add: dbl_def)

text \<open>Whole numbers below \<open>2 ^ 53\<close> are doubles.\<close>

lemma dbl_whole:
  assumes "x \<in> \<int>" "\<bar>x\<bar> < 2 ^ 53"
  shows "dbl x = x"
proof (cases "x = 0")
  case False
  let ?l = "leading x"
  from assms(1) obtain n where n: "x = of_int n" by (auto elim: Ints_cases)
  have "(2 :: rat) powi ?l < 2 powi 53" using leading_bounds(1) [OF False] assms(2) by simp
  then have l: "?l \<le> 52" using power_int_increasing [of 53 ?l "2 :: rat"] by fastforce
  let ?u = "2 powi (?l - 52) :: rat"
  have u: "?u \<noteq> 0" by simp
  have "x / ?u = of_int (n * 2 ^ nat (52 - ?l))"
  proof -
    have "inverse ?u = 2 powi (52 - ?l)" by (simp add: power_int_minus [symmetric])
    also have "\<dots> = 2 ^ nat (52 - ?l)" using l by (simp add: power_int_def)
    finally show ?thesis by (simp add: n divide_inverse)
  qed
  then have "of_int (half_even (x / ?u)) = x / ?u" by (simp only: half_even_of_int)
  then show ?thesis using u False by (simp add: dbl_def Let_def)
qed simp

lemma dbl_nonneg: "x \<ge> 0 \<Longrightarrow> dbl x \<ge> 0"
proof -
  assume x: "x \<ge> 0"
  have "\<bar>dbl x - x\<bar> \<le> x / 2 ^ 53" using dbl_error [of x] x by simp
  moreover have "x / 2 ^ 53 \<le> x" using x by (simp add: divide_le_eq)
  ultimately show ?thesis by linarith
qed

lemma dbl_nonpos: "x \<le> 0 \<Longrightarrow> dbl x \<le> 0"
proof -
  assume x: "x \<le> 0"
  have "\<bar>dbl x - x\<bar> \<le> - x / 2 ^ 53" using dbl_error [of x] x by simp
  moreover have "- x / 2 ^ 53 \<le> - x" using x by (simp add: divide_le_eq)
  ultimately show ?thesis by linarith
qed

text \<open>A product divided, as the code does it: two roundings.\<close>

lemma dbl_product_over:
  assumes "0 \<le> a" "0 \<le> b" "0 < c"
  shows "\<bar>dbl (dbl (a * b) / c) - a * b / c\<bar> \<le> a * b / c * (3 / 2 ^ 53)"
proof -
  let ?p = "a * b" and ?e = "1 / 2 ^ 53 :: rat"
  have p: "?p \<ge> 0" using assms by simp
  have d: "\<bar>dbl ?p - ?p\<bar> \<le> ?p * ?e" using dbl_error [of ?p] p by simp
  have "\<bar>dbl ?p / c - ?p / c\<bar> = \<bar>dbl ?p - ?p\<bar> / c" using assms(3) by (simp add: diff_divide_distrib [symmetric] abs_divide)
  also have "\<dots> \<le> ?p * ?e / c" using d assms(3) by (intro divide_right_mono) auto
  finally have q: "\<bar>dbl ?p / c - ?p / c\<bar> \<le> ?p / c * ?e" by simp
  have n: "dbl ?p / c \<ge> 0" using dbl_nonneg [OF p] assms(3) by simp
  have "\<bar>dbl (dbl ?p / c) - dbl ?p / c\<bar> \<le> dbl ?p / c * ?e" using dbl_error [of "dbl ?p / c"] n by simp
  also have "\<dots> \<le> (?p / c + ?p / c) * ?e"
  proof (intro mult_right_mono)
    have "?p / c * ?e \<le> ?p / c" using p assms(3) by (simp add: divide_le_eq)
    with q show "dbl ?p / c \<le> ?p / c + ?p / c" by linarith
  qed simp
  finally have "\<bar>dbl (dbl ?p / c) - dbl ?p / c\<bar> \<le> 2 * (?p / c * ?e)" by (simp add: distrib_right)
  with q show ?thesis by (simp add: abs_if split: if_splits)
qed

lemma dbl_third: "dbl (1 / 3) = 6004799503160661 / 18014398509481984"
  by code_simp

end
