(* ===== verification/Storage.thy ===== *)
theory Storage
  imports Prelude Doubles
begin

text \<open>
  Storage budgets (lib/storage.js): what a space's records cost on the disk, and the share of the app's budget each
  space gets, with the rounding of JavaScript's numbers (theory Doubles) at every operation. How much of the disk is
  free is an argument. (\<open>ixCost\<close> is in theory Index_Rows.)
\<close>

definition BLOCK_OVERHEAD :: int where "BLOCK_OVERHEAD = 150"
definition ROW_OVERHEAD :: int where "ROW_OVERHEAD = 550"
definition DEFAULT_BUDGET :: rat where "DEFAULT_BUDGET = 5000000000"

text \<open>Content, blocks, and how much of both was dropped; what the index keys of the rows cost.\<close>

definition stored_bytes :: "int \<Rightarrow> int \<Rightarrow> int \<Rightarrow> int \<Rightarrow> int \<Rightarrow> int" where
  "stored_bytes content blocks droppedContent droppedBlocks ixBytes =
     2 * max 0 (content - droppedContent) + blocks * ROW_OVERHEAD + max 0 (blocks - droppedBlocks) * BLOCK_OVERHEAD + ixBytes"

definition defaultBudget :: "rat option \<Rightarrow> rat \<Rightarrow> rat" where
  "defaultBudget free used = (case free of None \<Rightarrow> DEFAULT_BUDGET | Some f \<Rightarrow> min DEFAULT_BUDGET (dbl (used + of_int \<lfloor>dbl (f / 2)\<rfloor>)))"

section \<open>The share of each space\<close>

record holder =
  sp_id :: string
  sp_used :: rat
  sp_floor :: rat
  sp_budget :: "rat option"
  sp_keep :: bool

type_synonym split = "(string \<rightharpoonup> rat)"

definition given :: "holder \<Rightarrow> rat option" where
  "given s = (if sp_keep s then Some (sp_used s) else map_option (\<lambda>b. max b (sp_floor s)) (sp_budget s))"

definition first_pass :: "holder \<Rightarrow> split \<times> rat \<times> holder list \<Rightarrow> split \<times> rat \<times> holder list" where
  "first_pass s x = (case x of (out, pool, rest) \<Rightarrow>
     (case given s of
        None \<Rightarrow> (out, pool, rest @ [s])
      | Some g \<Rightarrow> (out(sp_id s \<mapsto> g), dbl (pool - g), rest)))"

definition used_by :: "holder list \<Rightarrow> rat" where
  "used_by rest = fold (\<lambda>s n. dbl (n + sp_used s)) rest 0"

definition share :: "rat \<Rightarrow> holder list \<Rightarrow> holder \<Rightarrow> rat" where
  "share pool rest s = (let total = used_by rest
     in max 0 (if total > 0 then dbl (dbl (pool * sp_used s) / total) else dbl (pool / of_nat (length rest))))"

definition less_floors :: "holder list \<Rightarrow> rat \<Rightarrow> rat" where
  "less_floors ss pool = fold (\<lambda>s n. dbl (n - sp_floor s)) ss pool"

definition set_all :: "(holder \<Rightarrow> rat) \<Rightarrow> holder list \<Rightarrow> split \<Rightarrow> split" where
  "set_all f ss out = fold (\<lambda>s m. m(sp_id s \<mapsto> f s)) ss out"

function divide_rest :: "rat \<Rightarrow> holder list \<Rightarrow> split \<Rightarrow> split" where
  "divide_rest pool rest out =
     (let poor = filter (\<lambda>s. share pool rest s < sp_floor s) rest
      in if poor = [] then set_all (share pool rest) rest out
         else divide_rest (less_floors poor pool) (filter (\<lambda>s. \<not> share pool rest s < sp_floor s) rest) (set_all sp_floor poor out))"
  by pat_completeness auto
termination
  by (relation "measure (\<lambda>(pool, rest, out). length rest)") (auto simp: filter_empty_conv intro: length_filter_less)

declare divide_rest.simps [simp del]

definition shares :: "rat \<Rightarrow> holder list \<Rightarrow> rat \<Rightarrow> split" where
  "shares app spaces fixed = (case fold first_pass spaces (Map.empty, dbl (app - fixed), []) of (out, pool, rest) \<Rightarrow> divide_rest pool rest out)"

section \<open>What the shares add up to\<close>

lemma set_all_simps:
  "x \<notin> sp_id ` set ss \<Longrightarrow> set_all f ss out x = out x"
  "distinct (map sp_id ss) \<Longrightarrow> s \<in> set ss \<Longrightarrow> set_all f ss out (sp_id s) = Some (f s)"
proof -
  show a: "set_all f ss out x = out x" if "x \<notin> sp_id ` set ss" for ss and out and x
    using that by (induction ss arbitrary: out) (auto simp: set_all_def)
  show "set_all f ss out (sp_id s) = Some (f s)" if "distinct (map sp_id ss)" "s \<in> set ss"
    using that
  proof (induction ss arbitrary: out)
    case (Cons t ss)
    show ?case
    proof (cases "s \<in> set ss")
      case True
      with Cons show ?thesis by (simp add: set_all_def)
    next
      case False
      with Cons.prems a [of "sp_id s" ss "out(sp_id t \<mapsto> f t)"] show ?thesis by (auto simp: set_all_def)
    qed
  qed simp
qed

text \<open>Whole numbers are added and subtracted exactly, as long as they stay below \<open>2 ^ 53\<close>.\<close>

lemma fold_wholes:
  "x \<in> \<int> \<Longrightarrow> \<forall>s\<in>set ss. f s \<in> \<int> \<and> f s \<ge> 0 \<Longrightarrow> \<bar>x\<bar> + sum_list (map f ss) < 2 ^ 53 \<Longrightarrow>
   fold (\<lambda>s n. dbl (n + f s)) ss x = x + sum_list (map f ss) \<and> fold (\<lambda>s n. dbl (n - f s)) ss x = x - sum_list (map f ss)"
proof (induction ss arbitrary: x)
  case (Cons s ss)
  have n: "sum_list (map f ss) \<ge> 0" using Cons.prems(2) by (intro sum_list_nonneg) auto
  have f: "f s \<in> \<int>" "f s \<ge> 0" "\<forall>s\<in>set ss. f s \<in> \<int> \<and> f s \<ge> 0" using Cons.prems(2) by auto
  have b: "\<bar>x + f s\<bar> + sum_list (map f ss) < 2 ^ 53" "\<bar>x - f s\<bar> + sum_list (map f ss) < 2 ^ 53"
    using Cons.prems(3) f(2) n by (auto simp: abs_if split: if_splits)
  have z: "x + f s \<in> \<int>" "x - f s \<in> \<int>" using Cons.prems(1) f(1) by simp_all
  have "dbl (x + f s) = x + f s" "dbl (x - f s) = x - f s" using z b n by (simp_all add: dbl_whole)
  with Cons.IH [OF z(1) f(3) b(1)] Cons.IH [OF z(2) f(3) b(2)] show ?case by simp
qed simp

lemmas fold_whole = fold_wholes [THEN conjunct1] fold_wholes [THEN conjunct2]

text \<open>Spaces that hold whole numbers of bytes, few enough to be doubles together.\<close>

definition sane :: "holder list \<Rightarrow> bool" where
  "sane ss \<longleftrightarrow> distinct (map sp_id ss) \<and> (\<forall>s\<in>set ss. sp_used s \<ge> 0 \<and> sp_floor s \<ge> 0 \<and> sp_used s \<in> \<int> \<and> sp_floor s \<in> \<int>) \<and>
     sum_list (map sp_used ss) < 2 ^ 53"

lemma used_by_sum: "sane ss \<Longrightarrow> used_by ss = sum_list (map sp_used ss)"
  using fold_whole(1) [of 0 ss sp_used] by (simp add: used_by_def sane_def)

text \<open>The share a space would have if nothing were rounded.\<close>

definition exact_share :: "rat \<Rightarrow> holder list \<Rightarrow> holder \<Rightarrow> rat" where
  "exact_share pool rest s =
     (if sum_list (map sp_used rest) > 0 then pool * sp_used s / sum_list (map sp_used rest) else pool / of_nat (length rest))"

lemma exact_shares:
  assumes "rest \<noteq> []" "\<forall>s\<in>set rest. sp_used s \<ge> 0"
  shows "sum_list (map (exact_share pool rest) rest) = pool"
proof (cases "sum_list (map sp_used rest) > 0")
  case True
  then have "map (exact_share pool rest) rest = map (\<lambda>s. sp_used s * (pool / sum_list (map sp_used rest))) rest"
    by (simp add: exact_share_def)
  then show ?thesis using True by (simp only: sum_list_mult_const) simp
next
  case False
  then have "map (exact_share pool rest) rest = map (\<lambda>s. pool / of_nat (length rest)) rest" by (simp add: exact_share_def)
  then show ?thesis using assms(1) by (simp only: sum_list_triv) simp
qed

lemma share_near:
  assumes "sane rest" "pool \<ge> 0" "s \<in> set rest"
  shows "\<bar>share pool rest s - exact_share pool rest s\<bar> \<le> exact_share pool rest s * (3 / 2 ^ 53)"
proof -
  have u: "sp_used s \<ge> 0" using assms(1,3) by (simp add: sane_def)
  note t = used_by_sum [OF assms(1)]
  show ?thesis
  proof (cases "sum_list (map sp_used rest) > 0")
    case True
    have "dbl (pool * sp_used s) \<ge> 0" using assms(2) u by (simp add: dbl_nonneg)
    then have "dbl (dbl (pool * sp_used s) / sum_list (map sp_used rest)) \<ge> 0" using True by (simp add: dbl_nonneg)
    with True dbl_product_over [OF assms(2) u True] show ?thesis by (simp add: share_def t exact_share_def)
  next
    case False
    let ?e = "pool / of_nat (length rest)"
    have e: "?e \<ge> 0" using assms(2) by simp
    have "\<bar>dbl ?e - ?e\<bar> \<le> ?e / 2 ^ 53" using dbl_error [of ?e] e by simp
    also have "\<dots> \<le> ?e * (3 / 2 ^ 53)" using e by (simp add: field_simps)
    finally have "\<bar>dbl ?e - ?e\<bar> \<le> ?e * (3 / 2 ^ 53)" .
    with False dbl_nonneg [OF e] show ?thesis by (simp add: share_def t exact_share_def)
  qed
qed

lemma sum_near:
  assumes "\<forall>s\<in>set ss. \<bar>f s - g s\<bar> \<le> g s * (c :: rat)"
  shows "\<bar>sum_list (map f ss) - sum_list (map g ss)\<bar> \<le> sum_list (map g ss) * c"
  using assms
proof (induction ss)
  case (Cons s ss)
  then have "\<bar>sum_list (map f ss) - sum_list (map g ss)\<bar> \<le> sum_list (map g ss) * c" "\<bar>f s - g s\<bar> \<le> g s * c" by simp_all
  then show ?case by (simp add: distrib_right abs_le_iff)
qed simp

lemma shares_of_pool:
  assumes "sane rest" "rest \<noteq> []" "pool \<ge> 0"
  shows "\<bar>sum_list (map (share pool rest) rest) - pool\<bar> \<le> pool * (3 / 2 ^ 53)"
  using sum_near [of rest "share pool rest" "exact_share pool rest" "3 / 2 ^ 53"] share_near [OF assms(1,3)]
    exact_shares [OF assms(2)] assms(1) by (simp add: sane_def)

lemma share_none: "pool \<le> 0 \<Longrightarrow> sane rest \<Longrightarrow> s \<in> set rest \<Longrightarrow> share pool rest s = 0"
proof -
  assume p: "pool \<le> 0" and s: "sane rest" "s \<in> set rest"
  have "dbl (pool / of_nat (length rest)) \<le> 0" using p by (intro dbl_nonpos) (simp add: divide_nonpos_nonneg)
  moreover have "dbl (dbl (pool * sp_used s) / used_by rest) \<le> 0" if "used_by rest > 0"
  proof (intro dbl_nonpos divide_nonpos_pos that)
    show "pool * sp_used s \<le> 0" using p s by (simp add: sane_def mult_nonpos_nonneg)
  qed
  ultimately have "(if used_by rest > 0 then dbl (dbl (pool * sp_used s) / used_by rest) else dbl (pool / of_nat (length rest))) \<le> 0" by simp
  then show ?thesis by (simp only: share_def Let_def max_absorb1)
qed

lemma sum_filter_split:
  "sum_list (map f xs) = sum_list (map f (filter p xs)) + sum_list (map f (filter (\<lambda>x. \<not> p x) xs))" for f :: "'a \<Rightarrow> rat"
  by (induction xs) auto

lemma near_max:
  fixes a b p e :: rat
  assumes "\<bar>a - p\<bar> \<le> e"
  shows "b \<le> a \<Longrightarrow> \<bar>a - max p b\<bar> \<le> e" "a \<le> b \<Longrightarrow> \<bar>b - max p b\<bar> \<le> e"
  using assms by (auto simp: max_def abs_if split: if_splits)

text \<open>Where every share is above its floor, or every share below: the greater of the pool and the floors, nearly.\<close>

lemma all_rich_near:
  assumes "sane rest" "rest \<noteq> []" "\<forall>s\<in>set rest. sp_floor s \<le> share pool rest s"
  shows "\<bar>sum_list (map (share pool rest) rest) - max pool (sum_list (map sp_floor rest))\<bar> \<le> max 0 pool * (3 / 2 ^ 53)"
proof (cases "pool \<ge> 0")
  case True
  have "sum_list (map sp_floor rest) \<le> sum_list (map (share pool rest) rest)" using assms(3) by (auto intro: sum_list_mono)
  from near_max(1) [OF shares_of_pool [OF assms(1,2) True] this] True show ?thesis by (simp only: max_absorb2)
next
  case False
  then have z: "share pool rest s = 0" if "s \<in> set rest" for s using share_none [of pool rest s] assms(1) that by simp
  have "sp_floor s = 0" if "s \<in> set rest" for s using assms(1,3) z [OF that] that by (fastforce simp: sane_def)
  then have "map sp_floor rest = map (\<lambda>s. 0) rest" "map (share pool rest) rest = map (\<lambda>s. 0) rest" using z by simp_all
  then show ?thesis using False by (simp only: sum_list_triv mult_zero_right)
qed

lemma all_poor_near:
  assumes "sane rest" "rest \<noteq> []" "\<forall>s\<in>set rest. share pool rest s \<le> sp_floor s"
  shows "\<bar>sum_list (map sp_floor rest) - max pool (sum_list (map sp_floor rest))\<bar> \<le> max 0 pool * (3 / 2 ^ 53)"
proof (cases "pool \<ge> 0")
  case True
  have "sum_list (map (share pool rest) rest) \<le> sum_list (map sp_floor rest)" using assms(3) by (auto intro: sum_list_mono)
  from near_max(2) [OF shares_of_pool [OF assms(1,2) True] this] True show ?thesis by (simp only: max_absorb2)
next
  case False
  have "sum_list (map sp_floor rest) \<ge> 0" by (rule sum_list_nonneg) (use assms(1) in \<open>auto simp: sane_def\<close>)
  with False show ?thesis by (simp add: max_def)
qed

lemma sane_part: "sane ss \<Longrightarrow> sane (filter p ss)"
proof -
  assume s: "sane ss"
  then have "sum_list (map sp_used (filter p ss)) \<le> sum_list (map sp_used ss)"
    using sum_filter_split [of sp_used ss p] sum_list_nonneg [of "map sp_used (filter (\<lambda>x. \<not> p x) ss)"] by (auto simp: sane_def)
  with s show ?thesis by (auto simp: sane_def distinct_map_filter)
qed

lemma less_floors_exact:
  "sane ss \<Longrightarrow> pool \<in> \<int> \<Longrightarrow> \<bar>pool\<bar> + sum_list (map sp_floor ss) < 2 ^ 53 \<Longrightarrow> less_floors ss pool = pool - sum_list (map sp_floor ss)"
  using fold_whole(2) [of pool ss sp_floor] by (simp add: less_floors_def sane_def)

definition total_of :: "split \<Rightarrow> holder list \<Rightarrow> rat" where
  "total_of out ss = sum_list (map (\<lambda>s. the (out (sp_id s))) ss)"

lemma total_of_set_all: "distinct (map sp_id ss) \<Longrightarrow> total_of (set_all f ss out) ss = sum_list (map f ss)"
  by (simp add: total_of_def set_all_simps cong: map_cong)

lemma divide_rest_adds_up:
  assumes "sane rest" "pool \<in> \<int>" "\<bar>pool\<bar> + sum_list (map sp_floor rest) < 2 ^ 53"
  shows "(\<forall>x. x \<notin> sp_id ` set rest \<longrightarrow> divide_rest pool rest out x = out x) \<and>
    (\<forall>s\<in>set rest. \<exists>v. divide_rest pool rest out (sp_id s) = Some v \<and> sp_floor s \<le> v) \<and>
    (rest \<noteq> [] \<longrightarrow> \<bar>total_of (divide_rest pool rest out) rest - max pool (sum_list (map sp_floor rest))\<bar> \<le> max 0 pool * (3 / 2 ^ 53))"
  using assms
proof (induction pool rest out rule: divide_rest.induct)
  case (1 pool rest out)
  have d: "distinct (map sp_id rest)" and nn: "\<forall>s\<in>set rest. sp_floor s \<ge> 0" using "1.prems" by (auto simp: sane_def)
  define poor where "poor = filter (\<lambda>s. share pool rest s < sp_floor s) rest"
  define rich where "rich = filter (\<lambda>s. \<not> share pool rest s < sp_floor s) rest"
  show ?case
  proof (cases "poor = []")
    case True
    then have e: "divide_rest pool rest out = set_all (share pool rest) rest out"
      by (simp add: divide_rest.simps [of pool rest out] poor_def)
    have fl: "\<forall>s\<in>set rest. sp_floor s \<le> share pool rest s" using True by (auto simp: poor_def filter_empty_conv not_less)
    with e d all_rich_near [OF "1.prems"(1) _ fl] show ?thesis by (simp add: total_of_set_all set_all_simps)
  next
    case False
    let ?fp = "sum_list (map sp_floor poor)" and ?fr = "sum_list (map sp_floor rich)"
    let ?pool = "less_floors poor pool" and ?out = "set_all sp_floor poor out"
    have e: "divide_rest pool rest out = divide_rest ?pool rich ?out"
      using False by (simp add: divide_rest.simps [of pool rest out] poor_def rich_def Let_def)
    have sp: "sane poor" "sane rich" unfolding poor_def rich_def using "1.prems"(1) by (simp_all add: sane_part)
    then have dp: "distinct (map sp_id poor)" by (simp add: sane_def)
    have f: "sum_list (map sp_floor rest) = ?fp + ?fr" unfolding poor_def rich_def by (rule sum_filter_split)
    have fn: "?fp \<ge> 0" "?fr \<ge> 0" using sp by (auto intro!: sum_list_nonneg simp: sane_def)
    have p: "?pool = pool - ?fp" using less_floors_exact [OF sp(1) "1.prems"(2)] "1.prems"(3) f fn by simp
    have "?fp \<in> \<int>" using sp(1) by (induction poor) (auto simp: sane_def)
    then have pz: "?pool \<in> \<int>" "\<bar>?pool\<bar> + ?fr < 2 ^ 53" using "1.prems"(2,3) p f fn by (auto simp: abs_if split: if_splits)
    from "1.IH" [OF poor_def False sp(2) [unfolded rich_def] pz [unfolded rich_def]]
    have IH: "\<forall>x. x \<notin> sp_id ` set rich \<longrightarrow> divide_rest ?pool rich ?out x = ?out x"
      "\<forall>s\<in>set rich. \<exists>v. divide_rest ?pool rich ?out (sp_id s) = Some v \<and> sp_floor s \<le> v"
      "rich \<noteq> [] \<longrightarrow> \<bar>total_of (divide_rest ?pool rich ?out) rich - max ?pool ?fr\<bar> \<le> max 0 ?pool * (3 / 2 ^ 53)"
      unfolding rich_def [symmetric] by blast+
    have disj: "sp_id s \<notin> sp_id ` set rich" if "s \<in> set poor" for s
      using that d by (auto simp: poor_def rich_def distinct_map inj_on_def)
    have floor: "divide_rest ?pool rich ?out (sp_id s) = Some (sp_floor s)" if "s \<in> set poor" for s
      using IH(1) disj [OF that] set_all_simps(2) [OF dp that] by simp
    have outside: "divide_rest ?pool rich ?out x = out x" if "x \<notin> sp_id ` set rest" for x
    proof -
      from that have "x \<notin> sp_id ` set rich" "x \<notin> sp_id ` set poor" by (auto simp: rich_def poor_def)
      then show ?thesis using IH(1) set_all_simps(1) by metis
    qed
    have each: "\<exists>v. divide_rest ?pool rich ?out (sp_id s) = Some v \<and> sp_floor s \<le> v" if "s \<in> set rest" for s
      using floor [of s] IH(2) that by (cases "s \<in> set poor") (auto simp: poor_def rich_def)
    have "total_of (divide_rest ?pool rich ?out) poor = ?fp" using floor by (simp add: total_of_def cong: map_cong)
    then have t: "total_of (divide_rest ?pool rich ?out) rest = ?fp + total_of (divide_rest ?pool rich ?out) rich"
      using sum_filter_split [of "\<lambda>s. the (divide_rest ?pool rich ?out (sp_id s))" rest "\<lambda>s. share pool rest s < sp_floor s"]
      by (simp add: total_of_def poor_def [symmetric] rich_def [symmetric])
    have "\<bar>total_of (divide_rest ?pool rich ?out) rest - max pool (?fp + ?fr)\<bar> \<le> max 0 pool * (3 / 2 ^ 53)" if "rest \<noteq> []"
    proof (cases "rich = []")
      case True
      then have "\<forall>s\<in>set rest. share pool rest s \<le> sp_floor s" by (auto simp: rich_def filter_empty_conv)
      from all_poor_near [OF "1.prems"(1) that this] show ?thesis using True t f by (simp add: total_of_def)
    next
      case False
      have "total_of (divide_rest ?pool rich ?out) rest - max pool (?fp + ?fr) = total_of (divide_rest ?pool rich ?out) rich - max ?pool ?fr"
        using t p by (simp add: max_def)
      moreover have "max 0 ?pool * (3 / 2 ^ 53) \<le> max 0 pool * (3 / 2 ^ 53)" using p fn by (intro mult_right_mono) auto
      ultimately show ?thesis using IH(3) False by simp
    qed
    with outside each show ?thesis unfolding e f by blast
  qed
qed

lemma first_passes:
  "fold first_pass spaces (out, pool, rest) =
    (set_all (\<lambda>s. the (given s)) (filter (\<lambda>s. given s \<noteq> None) spaces) out,
     fold (\<lambda>s n. dbl (n - the (given s))) (filter (\<lambda>s. given s \<noteq> None) spaces) pool, rest @ filter (\<lambda>s. given s = None) spaces)"
  by (induction spaces arbitrary: out pool rest) (auto simp: first_pass_def set_all_def)

text \<open>What a space can take of the numbers: its bytes are whole, and all together are below \<open>2 ^ 53\<close>.\<close>

definition weight :: "holder \<Rightarrow> rat" where
  "weight s = sp_used s + sp_floor s + (case sp_budget s of None \<Rightarrow> 0 | Some b \<Rightarrow> \<bar>b\<bar>)"

definition whole_space :: "holder \<Rightarrow> bool" where
  "whole_space s \<longleftrightarrow> sp_used s \<in> \<int> \<and> sp_floor s \<in> \<int> \<and> sp_used s \<ge> 0 \<and> sp_floor s \<ge> 0 \<and>
     (case sp_budget s of None \<Rightarrow> True | Some b \<Rightarrow> b \<in> \<int>)"

lemma given_whole: "whole_space s \<Longrightarrow> given s = Some g \<Longrightarrow> g \<in> \<int> \<and> 0 \<le> g \<and> g \<le> weight s"
  by (auto simp: given_def whole_space_def weight_def max_def split: if_splits option.splits)

text \<open>C39: A budget divided among spaces that hold whole numbers of bytes (together below \<open>2 ^ 53\<close>): the personal space
  has what it uses, a space with a budget of its own has that or what it cannot drop, every other at least what it
  cannot drop, and together the others have what is left of the app's budget, or what they cannot drop where that is
  more, up to the rounding of the numbers: three parts in \<open>2 ^ 53\<close> of what is left.\<close>

theorem shares_add_up:
  assumes "distinct (map sp_id spaces)" "\<forall>s\<in>set spaces. whole_space s" "app \<in> \<int>" "fixed \<in> \<int>"
    "\<bar>app\<bar> + \<bar>fixed\<bar> + sum_list (map weight spaces) < 2 ^ 53"
  defines "others \<equiv> filter (\<lambda>s. given s = None) spaces" and "taken \<equiv> filter (\<lambda>s. given s \<noteq> None) spaces"
  defines "left \<equiv> app - fixed - sum_list (map (\<lambda>s. the (given s)) taken)"
  shows "(\<forall>s\<in>set taken. shares app spaces fixed (sp_id s) = Some (if sp_keep s then sp_used s else max (the (sp_budget s)) (sp_floor s))) \<and>
    (\<forall>s\<in>set others. \<exists>v. shares app spaces fixed (sp_id s) = Some v \<and> sp_floor s \<le> v) \<and>
    (others \<noteq> [] \<longrightarrow> \<bar>sum_list (map (\<lambda>s. the (shares app spaces fixed (sp_id s))) others) -
       max left (sum_list (map sp_floor others))\<bar> \<le> max 0 left * (3 / 2 ^ 53))"
proof -
  let ?g = "\<lambda>s. the (given s)" and ?out = "set_all (\<lambda>s. the (given s)) taken Map.empty"
  have w: "0 \<le> weight s \<and> sp_used s \<le> weight s \<and> sp_floor s \<le> weight s \<and> 0 \<le> sp_floor s \<and> 0 \<le> sp_used s" if "s \<in> set spaces" for s
    using assms(2) that by (fastforce simp: whole_space_def weight_def split: option.splits)
  have tg: "?g s \<in> \<int> \<and> 0 \<le> ?g s \<and> ?g s \<le> weight s" if "s \<in> set taken" for s
    using given_whole [of s] assms(2) that by (auto simp: taken_def)
  have split: "sum_list (map weight spaces) = sum_list (map weight taken) + sum_list (map weight others)"
    using sum_filter_split [of weight spaces "\<lambda>s. given s \<noteq> None"] by (simp add: taken_def others_def)
  have so: "set others \<subseteq> set spaces" by (auto simp: others_def)
  have le: "sum_list (map ?g taken) \<le> sum_list (map weight taken)" "sum_list (map sp_floor others) \<le> sum_list (map weight others)"
    "sum_list (map sp_used others) \<le> sum_list (map weight others)" using tg w so by (auto intro!: sum_list_mono)
  have nn: "sum_list (map ?g taken) \<ge> 0" "sum_list (map sp_floor others) \<ge> 0" using tg w so by (auto intro!: sum_list_nonneg simp: subset_iff)
  have wn: "sum_list (map weight taken) \<ge> 0" using w by (auto intro!: sum_list_nonneg simp: taken_def)
  have m: "dbl (app - fixed) = app - fixed" using assms(3,4,5) le nn split by (intro dbl_whole) auto
  have "fold (\<lambda>s n. dbl (n - ?g s)) taken (app - fixed) = left"
    using fold_whole(2) [of "app - fixed" taken ?g] assms(3,4,5) tg le nn split by (auto simp: left_def)
  then have e: "shares app spaces fixed = divide_rest left others ?out"
    unfolding shares_def first_passes m others_def [symmetric] taken_def [symmetric] by simp
  have "sum_list (map ?g taken) \<in> \<int>" using tg by (induction taken) auto
  then have l: "left \<in> \<int>" using assms(3,4) by (simp add: left_def)
  have b: "\<bar>left\<bar> + sum_list (map sp_floor others) < 2 ^ 53" using assms(5) le nn split by (simp add: left_def)
  have "sane others" using assms(1,2,5) le nn wn split by (auto simp: sane_def others_def distinct_map_filter whole_space_def)
  note D = divide_rest_adds_up [OF this l b, of ?out, unfolded total_of_def]
  have dt: "distinct (map sp_id taken)" using assms(1) by (simp add: taken_def distinct_map_filter)
  have "sp_id s \<notin> sp_id ` set others" if "s \<in> set taken" for s
    using that assms(1) by (auto simp: others_def taken_def distinct_map inj_on_def)
  then have "shares app spaces fixed (sp_id s) = Some (?g s)" if "s \<in> set taken" for s
    using D that set_all_simps(2) [OF dt that] unfolding e by simp
  then have "\<forall>s\<in>set taken. shares app spaces fixed (sp_id s) = Some (if sp_keep s then sp_used s else max (the (sp_budget s)) (sp_floor s))"
    by (auto simp: taken_def given_def split: if_splits)
  with D show ?thesis unfolding e by blast
qed

text \<open>Five spaces: the personal one, one with a budget, one that cannot drop enough, and two that share what is left.\<close>

definition ex_spaces :: "holder list" where
  "ex_spaces = [\<lparr>sp_id = ''p'', sp_used = 10, sp_floor = 10, sp_budget = None, sp_keep = True\<rparr>,
     \<lparr>sp_id = ''b'', sp_used = 90, sp_floor = 5, sp_budget = Some 20, sp_keep = False\<rparr>,
     \<lparr>sp_id = ''f'', sp_used = 50, sp_floor = 60, sp_budget = None, sp_keep = False\<rparr>,
     \<lparr>sp_id = ''x'', sp_used = 10, sp_floor = 0, sp_budget = None, sp_keep = False\<rparr>,
     \<lparr>sp_id = ''y'', sp_used = 10, sp_floor = 1, sp_budget = None, sp_keep = False\<rparr>]"

lemma shares_add_up_witness:
  "\<bar>sum_list (map (\<lambda>s. the (shares 100 ex_spaces 0 (sp_id s))) (filter (\<lambda>s. given s = None) ex_spaces)) - 70\<bar> \<le> 70 * (3 / 2 ^ 53)"
proof -
  have "distinct (map sp_id ex_spaces)" "\<forall>s\<in>set ex_spaces. whole_space s" "(100 :: rat) \<in> \<int>" "(0 :: rat) \<in> \<int>"
    "\<bar>100\<bar> + \<bar>0\<bar> + sum_list (map weight ex_spaces) < 2 ^ 53" by (simp_all add: ex_spaces_def whole_space_def weight_def)
  from shares_add_up [OF this] show ?thesis by (simp add: ex_spaces_def given_def)
qed

text \<open>The rounding shows: five gigabytes among spaces of 1, 49 and 3 bytes do not add up to five gigabytes.\<close>

definition ex_three :: "holder list" where
  "ex_three = [\<lparr>sp_id = ''a'', sp_used = 1, sp_floor = 0, sp_budget = None, sp_keep = False\<rparr>,
     \<lparr>sp_id = ''b'', sp_used = 49, sp_floor = 0, sp_budget = None, sp_keep = False\<rparr>,
     \<lparr>sp_id = ''c'', sp_used = 3, sp_floor = 0, sp_budget = None, sp_keep = False\<rparr>]"

lemma ex_three_shares:
  "map (share DEFAULT_BUDGET ex_three) ex_three =
     [6331024905660377 / 67108864,
      2423595471698113 / 524288,
      4748268679245283 / 16777216]"
  by code_simp

lemma ex_rounded: "sum_list (map (\<lambda>s. the (shares DEFAULT_BUDGET ex_three 0 (sp_id s))) ex_three) < DEFAULT_BUDGET"
proof -
  have "dbl (DEFAULT_BUDGET - 0) = DEFAULT_BUDGET" by code_simp
  moreover have g: "filter (\<lambda>s. given s = None) ex_three = ex_three" "filter (\<lambda>s. given s \<noteq> None) ex_three = []"
    by (simp_all add: ex_three_def given_def)
  moreover have "filter (\<lambda>s. share DEFAULT_BUDGET ex_three s < sp_floor s) ex_three = []"
    by (auto simp: filter_empty_conv share_def Let_def ex_three_def)
  ultimately have "shares DEFAULT_BUDGET ex_three 0 = set_all (share DEFAULT_BUDGET ex_three) ex_three Map.empty"
    unfolding shares_def first_passes by (simp add: set_all_def divide_rest.simps [of DEFAULT_BUDGET ex_three])
  moreover have "distinct (map sp_id ex_three)" by (simp add: ex_three_def)
  ultimately have "map (\<lambda>s. the (shares DEFAULT_BUDGET ex_three 0 (sp_id s))) ex_three = map (share DEFAULT_BUDGET ex_three) ex_three"
    by (simp add: set_all_simps cong: map_cong)
  then show ?thesis unfolding ex_three_shares by (simp add: DEFAULT_BUDGET_def)
qed

end
