(* ===== verification/Invite_Links.thy ===== *)
theory Invite_Links
  imports Record_Fields Decisions
begin

text \<open>
  Invite links (lib/invites.js): an invite signed by its maker, or the key of a public space, as text. Signing (the
  package keet-identity-key) is the argument \<open>attest\<close>, checking a signature that of theory Decisions; random bytes
  are an argument. No root is \<open>None\<close>. What throws \<open>INVITE_INVALID\<close> tells apart its two messages.
\<close>

definition PREFIX :: string where "PREFIX = ''hg:''"

definition invite_value :: "invite \<Rightarrow> jsval" where
  "invite_value iv = JObj [(''space'', JBuf (iv_space iv)), (''id'', buf (iv_id iv)), (''role'', JStr (iv_role iv)),
     (''uses'', JNum (int (iv_uses iv))), (''expires'', JNum (int (iv_expires iv))),
     (''subspaces'', JArr (map JBuf (iv_subspaces iv))), (''maker'', JBuf (iv_maker iv)), (''proof'', buf (iv_proof iv))]"

definition invite_of :: "jsval \<Rightarrow> invite option" where
  "invite_of v = (case (prop_of v ''space'', prop_of v ''role'', prop_of v ''uses'', prop_of v ''expires'', prop_of v ''subspaces'', prop_of v ''maker'') of
       (JBuf space, JStr role, JNum uses, JNum expires, JArr subs, JBuf maker) \<Rightarrow>
         map_option (\<lambda>ks. \<lparr>iv_space = space, iv_id = unbuf (prop_of v ''id''), iv_role = role, iv_uses = nat uses, iv_expires = nat expires,
           iv_subspaces = ks, iv_maker = maker, iv_proof = unbuf (prop_of v ''proof'')\<rparr>) (bufs subs)
     | _ \<Rightarrow> None)"

text \<open>The root, where it is not the space itself.\<close>

definition other_root :: "bytes option \<Rightarrow> bytes \<Rightarrow> bytes" where
  "other_root root space = (case root of None \<Rightarrow> [] | Some r \<Rightarrow> if r = space then [] else r)"

definition root_of :: "bytes option \<Rightarrow> bytes \<Rightarrow> bytes" where
  "root_of root space = (case root of None \<Rightarrow> space | Some r \<Rightarrow> r)"

definition makeInvite :: "env \<Rightarrow> (bytes \<Rightarrow> bytes) \<Rightarrow> bytes \<Rightarrow> bytes \<Rightarrow> bytes \<Rightarrow> string \<Rightarrow> nat \<Rightarrow> nat \<Rightarrow> bytes list \<Rightarrow> bytes option \<Rightarrow> invite" where
  "makeInvite E attest random me space role uses expires subs root =
     (let iv = \<lparr>iv_space = space, iv_id = Some random, iv_role = role, iv_uses = uses, iv_expires = expires, iv_subspaces = subs,
        iv_maker = me, iv_proof = None\<rparr>
      in iv\<lparr>iv_proof := Some (attest (inviteSignable E iv (root_of root space)))\<rparr>)"

definition encodeLink :: "prims \<Rightarrow> z32 \<Rightarrow> invite \<Rightarrow> bytes option \<Rightarrow> string" where
  "encodeLink C Z iv root = PREFIX @ z_encode Z (c_put (invite_codec C) (invite_value iv) @ other_root root (iv_space iv))"

definition publicLink :: "z32 \<Rightarrow> bytes \<Rightarrow> bytes option \<Rightarrow> string" where
  "publicLink Z space root = PREFIX @ z_encode Z (space @ other_root root space)"

datatype invite_link = PublicLink bytes bytes | InviteLink invite bytes

datatype link_error = NotALink | NotSigned

definition decodeLink :: "prims \<Rightarrow> z32 \<Rightarrow> env \<Rightarrow> string \<Rightarrow> link_error + invite_link" where
  "decodeLink C Z E link =
     (if take 3 link \<noteq> PREFIX then Inl NotALink
      else case z_decode Z (drop 3 link) of
        None \<Rightarrow> Inl NotALink
      | Some bytes \<Rightarrow>
          if length bytes = 32 \<or> length bytes = 64
          then Inr (PublicLink (take 32 bytes) (if length bytes = 64 then drop 32 bytes else take 32 bytes))
          else (case c_get (invite_codec C) bytes of
              None \<Rightarrow> Inl NotALink
            | Some (v, r) \<Rightarrow>
                (case invite_of v of
                   None \<Rightarrow> Inl NotALink
                 | Some iv \<Rightarrow>
                     if length r \<noteq> 32 \<and> r \<noteq> [] then Inl NotALink
                     else let root = (if length r = 32 then r else iv_space iv)
                       in if verifyInvite E iv root then Inr (InviteLink iv root) else Inl NotSigned)))"

text \<open>An invite whose id is empty cannot be redeemed: what is signed is made from its bytes.\<close>

definition makeRedemption :: "(bytes \<Rightarrow> bytes) \<Rightarrow> bytes \<Rightarrow> invite \<Rightarrow> bytes \<Rightarrow> js_error + redemption" where
  "makeRedemption attest me iv writer = (case redemptionSignable iv me writer of
       Inl e \<Rightarrow> Inl e
     | Inr data \<Rightarrow> Inr \<lparr>rd_invite = iv, rd_identity = me, rd_writer = writer, rd_proof = Some (attest data)\<rparr>)"

section \<open>Links come back\<close>

definition invite_fits :: "invite \<Rightarrow> bool" where
  "invite_fits iv \<longleftrightarrow> length (iv_space iv) = 32 \<and> (case iv_id iv of None \<Rightarrow> True | Some b \<Rightarrow> b \<noteq> [] \<and> length b < 2 ^ 32) \<and>
     length (iv_role iv) < 2 ^ 32 \<and> iv_uses iv < 2 ^ 53 \<and> iv_expires iv < 2 ^ 53 \<and> length (iv_subspaces iv) < 2 ^ 32 \<and>
     list_all (\<lambda>k. length k = 32) (iv_subspaces iv) \<and> length (iv_maker iv) = 32 \<and>
     (case iv_proof iv of None \<Rightarrow> True | Some b \<Rightarrow> b \<noteq> [] \<and> length b < 2 ^ 32)"

text \<open>The bytes of a key are its 32, and no number is written in none: an invite is longer than two keys.\<close>

definition keys_as_they_are :: "prims \<Rightarrow> bool" where
  "keys_as_they_are C \<longleftrightarrow> (\<forall>b. length b = 32 \<longrightarrow> c_put (p_fixed32 C) (JBuf b) = b) \<and> (\<forall>n. c_put (p_uint C) (JNum (int n)) \<noteq> [])"

lemma small_num: "n < 2 ^ 53 \<Longrightarrow> is_uint (JNum (int n))"
  by (simp add: is_uint_def)

lemma buf_simps: "is_buffer (buf b) \<longleftrightarrow> (case b of None \<Rightarrow> True | Some x \<Rightarrow> x \<noteq> [] \<and> length x < 2 ^ 32)" "unbuf (buf b) = b"
  by (auto simp: buf_def is_buffer_def split: option.split)

lemma invite_value_fits: "invite_fits iv \<Longrightarrow> is_struct invite_fields (invite_value iv)"
  by (auto simp: is_struct_def fields_fit_def invite_fields_def invite_value_def invite_fits_def buf_simps small_num is_fixed32_def is_str_def is_arr_def
    list_all_iff)

lemma invite_of_value [simp]: "invite_of (invite_value iv) = Some iv"
  by (cases iv) (simp add: invite_of_def invite_value_def buf_simps)

lemma invite_get_put:
  assumes "prims_ok C" "invite_fits iv"
  shows "c_get (invite_codec C) (c_put (invite_codec C) (invite_value iv) @ r) = Some (invite_value iv, r)"
  by (rule roundtripD(1) [OF messages_trip(3) [OF assms(1)] invite_value_fits [OF assms(2)]])

lemma invite_is_long:
  assumes "keys_as_they_are C" "invite_fits iv"
  shows "length (c_put (invite_codec C) (invite_value iv)) > 64"
proof -
  have k: "c_put (p_fixed32 C) (JBuf b) = b" if "length b = 32" for b using assms(1) that by (simp add: keys_as_they_are_def)
  have "c_put (p_uint C) (JNum (int (iv_uses iv))) \<noteq> []" using assms(1) unfolding keys_as_they_are_def by blast
  then have "length (c_put (p_uint C) (JNum (int (iv_uses iv)))) > 0" by blast
  then show ?thesis
    using assms(2) by (simp add: invite_codec_def inviteBody_def struct_def invite_value_def k invite_fits_def)
qed

text \<open>A prefix of three characters.\<close>

lemma link_parts: "take 3 (PREFIX @ s) = PREFIX" "drop 3 (PREFIX @ s) = s"
  by (simp_all add: PREFIX_def)

text \<open>C40: A link reads back as what it was made of, with the root it is signed for: an invite whose signature holds as
  that invite (one whose signature does not hold is refused as such), and a public space's as its key, never one for
  the other. Whatever text it is given, reading gives an invite only if that invite's signature holds.\<close>

theorem links_come_back:
  assumes "prims_ok C" "z_ok Z" "keys_as_they_are C" "invite_fits iv" "length space = 32" "\<forall>r. root = Some r \<longrightarrow> length r = 32"
  shows "decodeLink C Z E (encodeLink C Z iv root) =
      (if verifyInvite E iv (root_of root (iv_space iv)) then Inr (InviteLink iv (root_of root (iv_space iv))) else Inl NotSigned) \<and>
    decodeLink C Z E (publicLink Z space root) = Inr (PublicLink space (root_of root space)) \<and>
    (\<forall>link iv' r. decodeLink C Z E link = Inr (InviteLink iv' r) \<longrightarrow> verifyInvite E iv' r)"
proof (intro conjI allI impI)
  have z: "z_decode Z (z_encode Z b) = Some b" for b using assms(2) by (simp add: z_ok_def)
  have root: "length (other_root root x) = 32 \<and> other_root root x = root_of root x \<or> other_root root x = [] \<and> root_of root x = x" for x
    using assms(6) by (auto simp: other_root_def root_of_def split: option.split)
  have long: "length (c_put (invite_codec C) (invite_value iv) @ other_root root (iv_space iv)) > 64"
    using invite_is_long [OF assms(3,4)] by simp
  then show "decodeLink C Z E (encodeLink C Z iv root) =
      (if verifyInvite E iv (root_of root (iv_space iv)) then Inr (InviteLink iv (root_of root (iv_space iv))) else Inl NotSigned)"
    using root [of "iv_space iv"] unfolding decodeLink_def encodeLink_def link_parts z
    by (auto simp: invite_get_put [OF assms(1,4)] Let_def)
  show "decodeLink C Z E (publicLink Z space root) = Inr (PublicLink space (root_of root space))"
    using root [of space] assms(5) unfolding decodeLink_def publicLink_def link_parts z by auto
next
  fix link iv' r
  assume "decodeLink C Z E link = Inr (InviteLink iv' r)"
  then show "verifyInvite E iv' r" by (auto simp: decodeLink_def Let_def split: if_splits option.splits prod.splits)
qed

text \<open>An invite to a sub-space: signed with the top space's key at the end.\<close>

definition ex_link_env :: env where
  "ex_link_env = \<lparr>e_space = replicate 32 3, e_proof_chain = (\<lambda>p. Some 1),
     e_key_verify = (\<lambda>p data. case p of [i, s] \<Rightarrow> if data \<noteq> [] \<and> last data = s then Some (replicate 32 i, [i]) else None | _ \<Rightarrow> None),
     e_hash = id, e_encode_inviteBody = iv_space, e_decode_decision = (\<lambda>b. None), e_decode_invite = (\<lambda>b. None),
     e_decode_redemption = (\<lambda>b. None), e_decode_recordId = (\<lambda>b. False), e_types_next = (\<lambda>c n. None), e_removeable = (\<lambda>cs k. True)\<rparr>"

definition ex_link_invite :: invite where
  "ex_link_invite = makeInvite ex_link_env (\<lambda>data. [1, last data]) [40] (replicate 32 1) (replicate 32 2) ''member'' 1 0 [] (Some (replicate 32 3))"

lemma ex_link_facts: "invite_fits ex_link_invite" "verifyInvite ex_link_env ex_link_invite (replicate 32 3)" "\<not> verifyInvite ex_link_env ex_link_invite (replicate 32 4)"
    "iv_space ex_link_invite = replicate 32 2"
  by (simp_all add: invite_fits_def ex_link_invite_def makeInvite_def verifyInvite_def Identity_verify_def inviteSignable_def ex_link_env_def root_of_def Let_def)

lemma plain_keys: "keys_as_they_are plain"
proof -
  have "le 8 n \<noteq> []" for n using length_le [of 8 n] by force
  then show ?thesis by (simp add: keys_as_they_are_def plain_def plain_fixed32_def plain_int_def)
qed

lemma links_come_back_witness:
  "decodeLink plain plain_z32 ex_link_env (encodeLink plain plain_z32 ex_link_invite (Some (replicate 32 3))) =
     Inr (InviteLink ex_link_invite (replicate 32 3)) \<and>
   decodeLink plain plain_z32 ex_link_env (encodeLink plain plain_z32 ex_link_invite (Some (replicate 32 4))) = Inl NotSigned"
  using links_come_back [OF plain_ok plain_z32_ok plain_keys ex_link_facts(1), of "replicate 32 0" "Some (replicate 32 3)" ex_link_env]
    links_come_back [OF plain_ok plain_z32_ok plain_keys ex_link_facts(1), of "replicate 32 0" "Some (replicate 32 4)" ex_link_env]
  by (simp add: ex_link_facts root_of_def)

end
