(* ===== verification/Spec2Isabelle.thy ===== *)
theory Spec2Isabelle
  imports Space_Properties Scope_Chains Authority Failures Decision_Log Effective_State Activity Settling Record_Types Any_Order Pages Key_Changes Storage Invite_Links
begin

text \<open>
  Hypergraph's core (lib/): spaces that people share without a server. Every space has a decision log (who is a
  member, with which role, what is hidden or removed) that all members apply in the same order, and one log of records
  per device, which each member checks, orders and indexes for itself. This development models what a member
  works out from the logs it has; how their blocks travel is outside it.

  The program's parts, in the order of the theories that model them.

  \<^bold>\<open>Decisions\<close> (lib/decisions/apply.js). Roles holds the role tables and every permission check; View the store applying
  writes, with a datatype for its keys; Decisions the decisions as they decode, invites and signatures; Scopes,
  Writer_Keys and Cuts the parts several decisions use (sub-spaces and effective membership; the keys that may write
  decisions; how much of a log still counts); Apply and Apply_Nodes one definition per decision and \<open>applyNodes\<close>.
  Steps and Apply_Steps show that each handler is a sequence of few permitted writes, so that an invariant is proved
  for single writes and holds of every log by the locales \<open>view_invariant\<close> and \<open>view_monotone\<close> (Invariants),
  interpreted for each invariant in Promises. On these rest Space_Properties (what no later decision takes back),
  Scope_Chains (the loops over sub-spaces end), Authority (nobody's decision does more than their role allows) and
  Failures (applying throws only on an empty buffer or a role named like a property of every object). Example is a log with every decision, for the witnesses.

  \<^bold>\<open>The state\<close> (lib/decisions/state.js, lib/decisions/log.js). Space_State is the state in memory and \<open>State#apply\<close>;
  Effective_State what it answers, proved to agree with what applying did on the view; Decision_Log the reading of a
  view that Autobase keeps appending to, truncating and replacing while reads are under way: a read that nothing
  overtakes leaves the state the view stands for.

  \<^bold>\<open>Readers\<close>. Stamps (lib/stamp.js, lib/limit.js): stamps, the order of versions, the write limit. Activity
  (lib/activity.js): "this log has a record of this period at this block" and its check. Ranges, Sessions and Settling
  (lib/ranges.js): the sorted keys with their digests, one side of an exchange, and two sides under any order of
  delivery; the locale \<open>key_set\<close> is what the sessions need of the keys.

  \<^bold>\<open>Bytes\<close>. Codecs and Round_Trips (lib/encodings.js): everything that goes on the network, over the primitives of
  compact-encoding (\<open>prims\<close>, with \<open>prims_ok\<close> what the package documents, and \<open>plain\<close> one set of primitives that
  has it). Record_Fields (lib/fields.js) and Record_Types (lib/types.js): records read by older and newer versions of
  an app, declarations of types, their stored form. Invite_Links (lib/invites.js): invites and links as text.

  \<^bold>\<open>The index\<close>. Gate (lib/gate.js): what readers enforce before a record counts. Index_Rows and Indexer
  (lib/index/indexer.js): the rows, and what a block, a decision, a cut or dropped content does to them. Index_Facts,
  Arrival and Any_Order show that the order in which blocks arrive does not matter and that each row is its record's
  latest version: an abstract description of what the index should show (\<open>shown\<close>, \<open>deleted_in\<close>, \<open>holds_in\<close>) that
  \<open>one\<close> keeps for every block. Query and Pages (lib/index/query.js): queries by index, page after page, links, tags
  and relations. Storage (lib/storage.js): the share of the budget of each space.

  \<^bold>\<open>Private spaces\<close> (lib/private, lib/space.js). Private_Keys: records sealed with an epoch's key, grants, key links,
  which keys a device holds; Key_Changes: who is given the key, when it must change, which links are due.

  How the code is written here. A record of the code is a record, an enumeration a datatype; a Map or an object used as
  one is a partial map or an association list; the view's keys, texts in the code, are constructors. Numbers of the code
  are exact (it keeps them below \<open>2 ^ 53\<close> or checks that they are); those of storage budgets are doubles, rounded at every operation
  (theory Doubles). A key is its
  bytes or, where the code uses it in a map, its hex text. A text is the list of its UTF-8 bytes, whose number stands for
  the text's length where the code asks for that (\<open>ixCost\<close>, an estimate). A call that may throw gives an option, a sum with an error
  type, or, where only some inputs throw, a value of \<open>js_error\<close>. What is awaited in between is a step of its own where
  something else can happen there (Decision_Log, Settling); elsewhere an operation is one step, as the code serialises
  it (the indexer runs one log at a time, a space decides one decision at a time). Packages are arguments: signatures
  (keet-identity-key), hashes and ciphers (sodium-universal, hypercore-crypto), compact-encoding, z32, what Autobase
  answers. What they promise is a named hypothesis (\<open>prims_ok\<close>, \<open>z_ok\<close>, \<open>sodium_ok\<close>) that a concrete instance meets.

  Loops and bounds. \<open>chainOf\<close> and \<open>below\<close> run on fuel, one step more than there are sub-spaces, which
  \<open>chain_of_parents\<close> and \<open>below_is_ancestry\<close> prove enough in every view a log can reach. The loops over codecs' lists and
  fields are \<open>partial_function (option)\<close> over bytes. \<open>followLinks\<close>, \<open>reach\<close> and \<open>divide_rest\<close> are total, with the keys not yet
  held, not yet reached and the spaces not yet served as measures. \<open>exchange_settles\<close> bounds the messages of an exchange
  by a power of 17: a range has at most 16 parts, 63 levels deep.

  Not modelled. Sockets, timers, queues, files and events: opening spaces (lib/space.js, lib/index.js), the network
  (lib/network.js, lib/replication.js, lib/helpers.js, lib/pairing.js), which logs are fetched and kept open
  (lib/directory.js), the recovery phrase's file (lib/phrase.js). Of the indexer: its queue, its transactions, what
  it remembers of rights already looked up, and reading again from an earlier block (\<open>log.skip\<close>). Of queries: waiting
  until an answer is complete, live queries, sums. Of the
  names an object inherits (\<open>constructor\<close>, \<open>toString\<close>) those of roles are modelled where decisions may bring them in
  (\<open>INHERITED\<close>), a question about such a role to the state in memory is not; those of types and fields are left out, as is
  the order in which JavaScript goes through integer-like names: types and fields are looked up among an object's own
  names, in the order written; a declaration of the app's that is an array counts as an object of its entries. How
  compact-encoding and the other packages work inside is not in the repository: \<open>prims_ok\<close> is what its users rely on, for
  integers of up to 53 bits of either sign and for lists of any length below \<open>2 ^ 32\<close>. The tests, examples, benchmarks and tools, the generated
  database schema (lib/index/spec), the first library in src/ and the one in src/v2 are other programs, superseded
  by lib/.

  What the model showed of the code is told where it is proved: an empty buffer in a decision stops a space for
  everybody (\<open>empty_target_throws\<close>); types stored with an index by nothing but the stamp cannot be read again
  (\<open>stored_types_come_back\<close>); what deleting a vote later than another leaves depends on the order of arrival
  (\<open>deleted_vote_depends_on_order\<close>); a role named like a property every object has stops a space as well
  (\<open>inherited_role_throws\<close>); a reference whose type is no text passes validation (\<open>validated_values_fit\<close>); stamps that go
  back beat the write limit (\<open>backdated_exceeds_rate\<close>), and a true activity entry is refused by who has not seen a delete
  (\<open>deleted_start_refused\<close>); a tag added to a record whose content was dropped empties its index keys
  (\<open>tag_on_dropped_loses_keys\<close>); what points at a record comes by type before age (\<open>linked_without_type_not_by_age\<close>); the
  links of a sealed record are not checked to be record ids once it is opened (theory Private_Keys).
\<close>

end
